(* ===== verification/Prelude.thy ===== *)
theory Prelude
  imports Main "HOL-Library.Multiset" "HOL-Library.Word" "HOL-Library.Monad_Syntax"
begin

text \<open>
  Shared ground of the development: names for the machine types of the Go code, strict weak
  orders (what every comparator of the program has to be), exchange of two slots of a slice, and
  the sorting routine of package \<^verbatim>\<open>slices\<close> with its specification.

  A Go \<^verbatim>\<open>string\<close> or \<^verbatim>\<open>[]byte\<close> is a \<^typ>\<open>string\<close>: a \<^typ>\<open>char\<close> of HOL is one byte.
  A \<^verbatim>\<open>time.Time\<close> is its instant, in nanoseconds since January 1 of year 1 UTC, so that the
  zero value \<^verbatim>\<open>time.Time{}\<close> is \<open>0\<close>.  A \<^verbatim>\<open>uint64\<close> is a \<^typ>\<open>64 word\<close>; a signed integer that
  the program only compares or range-checks is an \<^typ>\<open>int\<close>.
\<close>

type_synonym uint64 = "64 word"
type_synonym go_time = int
type_synonym bytes = string

section \<open>Collections of rules\<close>

named_theorems heap_laws \<open>what the methods of a heap do inside the range of its slice\<close>
named_theorems queue_abs \<open>what each operation does to the abstract contents of the queue\<close>

section \<open>Counters of a fixed width\<close>

lemma unat_succ: "x \<noteq> - 1 \<Longrightarrow> unat (x + 1) = Suc (unat x)" for x :: "'a::len word"
  using unatSuc [of x] by (simp add: add.commute add_eq_0_iff)

lemma word_less_succ: "x \<noteq> - 1 \<Longrightarrow> x < x + 1" for x :: "'a::len word"
  by (simp add: word_less_nat_alt unat_succ)

section \<open>Strict weak orders\<close>

locale weak_order =
  fixes lt :: "'a \<Rightarrow> 'a \<Rightarrow> bool"
  assumes lt_irrefl: "\<not> lt a a"
    and lt_trans: "lt a b \<Longrightarrow> lt b c \<Longrightarrow> lt a c"
    and nlt_trans: "\<not> lt a b \<Longrightarrow> \<not> lt b c \<Longrightarrow> \<not> lt a c"
begin

lemma lt_asym: "lt a b \<Longrightarrow> \<not> lt b a"
  using lt_irrefl lt_trans by blast

lemma nlt_total: "\<not> lt a b \<or> \<not> lt b a"
  using lt_asym by blast

lemma lt_nlt_trans: "lt a b \<Longrightarrow> \<not> lt c b \<Longrightarrow> lt a c"
  using nlt_trans by blast

end

text \<open>
  Lexicographic combination: compare by a first key and fall back to a second order.  Both
  comparators of the engine have this shape.
\<close>

definition lex_lt :: "('a \<Rightarrow> 'k::linorder) \<Rightarrow> ('a \<Rightarrow> 'a \<Rightarrow> bool) \<Rightarrow> 'a \<Rightarrow> 'a \<Rightarrow> bool" where
  "lex_lt key lt a b = (if key a \<noteq> key b then key a < key b else lt a b)"

lemma weak_order_lex:
  assumes "weak_order lt"
  shows "weak_order (lex_lt key lt)"
proof -
  have irrefl: "\<not> lt a a" for a
    using assms by (rule weak_order.lt_irrefl)
  have trans: "lt a b \<Longrightarrow> lt b c \<Longrightarrow> lt a c" for a b c
    using assms by (rule weak_order.lt_trans)
  have ntrans: "\<not> lt a b \<Longrightarrow> \<not> lt b c \<Longrightarrow> \<not> lt a c" for a b c
    using assms by (rule weak_order.nlt_trans)
  show ?thesis
  proof
    fix a b c
    show "\<not> lex_lt key lt a a"
      by (simp add: lex_lt_def irrefl)
    show "lex_lt key lt a b \<Longrightarrow> lex_lt key lt b c \<Longrightarrow> lex_lt key lt a c"
      by (auto simp: lex_lt_def intro: trans split: if_splits)
    show "\<not> lex_lt key lt a b \<Longrightarrow> \<not> lex_lt key lt b c \<Longrightarrow> \<not> lex_lt key lt a c"
      by (auto simp: lex_lt_def dest: ntrans split: if_splits)
  qed
qed

lemma weak_order_key: "weak_order (\<lambda>a b. key a < (key b :: 'k::linorder))"
  by unfold_locales auto

lemma weak_order_key_desc: "weak_order (\<lambda>a b. (key b :: 'k::linorder) < key a)"
  by unfold_locales auto

lemma weak_order_inv_image: "weak_order lt \<Longrightarrow> weak_order (\<lambda>a b. lt (f a) (f b))"
  unfolding weak_order_def by blast

section \<open>Splitting an image\<close>

lemma filter_image_left:
  "(\<And>x. x \<in> R \<Longrightarrow> P (f x)) \<Longrightarrow> (\<And>x. x \<in> D \<Longrightarrow> \<not> P (f x)) \<Longrightarrow> {e \<in> f ` (R \<union> D). P e} = f ` R"
  by auto

lemma filter_image_right:
  "(\<And>x. x \<in> R \<Longrightarrow> \<not> P (f x)) \<Longrightarrow> (\<And>x. x \<in> D \<Longrightarrow> P (f x)) \<Longrightarrow> {e \<in> f ` (R \<union> D). P e} = f ` D"
  by auto

text \<open>Deleting a key of a map whose values determine their key.\<close>

lemma ran_delete:
  assumes "c k = Some v" and "\<And>k e. c k = Some e \<Longrightarrow> key e = k"
  shows "ran (c(k := None)) = ran c - {v}"
proof -
  have "a \<noteq> k" if "c a = Some x" "x \<noteq> v" for a x
    using that assms(1) by auto
  moreover have "a = k" if "c a = Some v" for a
    using that assms by metis
  ultimately have "(\<exists>a. (c(k := None)) a = Some b) \<longleftrightarrow> (\<exists>a. c a = Some b) \<and> b \<noteq> v" for b
    by (metis fun_upd_apply option.distinct(1))
  then show ?thesis
    by (auto simp: ran_def)
qed

section \<open>Exchanging two slots of a slice\<close>

definition swap_at :: "'a list \<Rightarrow> nat \<Rightarrow> nat \<Rightarrow> 'a list" where
  "swap_at xs i j = xs[i := xs ! j, j := xs ! i]"

lemma length_swap_at [simp]: "length (swap_at xs i j) = length xs"
  by (simp add: swap_at_def)

lemma nth_swap_at:
  assumes "i < length xs" and "j < length xs"
  shows "swap_at xs i j ! k = (if k = i then xs ! j else if k = j then xs ! i else xs ! k)"
  using assms by (cases "k < length xs") (auto simp: swap_at_def nth_list_update list_update_beyond)

lemma mset_swap_at [simp]:
  "i < length xs \<Longrightarrow> j < length xs \<Longrightarrow> mset (swap_at xs i j) = mset xs"
  unfolding swap_at_def by (simp add: mset_swap)

lemma set_swap_at [simp]:
  "i < length xs \<Longrightarrow> j < length xs \<Longrightarrow> set (swap_at xs i j) = set xs"
  by (metis mset_swap_at set_mset_mset)

lemma distinct_swap_at [simp]:
  "i < length xs \<Longrightarrow> j < length xs \<Longrightarrow> distinct (swap_at xs i j) = distinct xs"
  by (metis mset_swap_at mset_eq_imp_distinct_iff)

lemma map_swap_at:
  "i < length xs \<Longrightarrow> j < length xs \<Longrightarrow> map f (swap_at xs i j) = swap_at (map f xs) i j"
  by (simp add: swap_at_def map_update)

lemma drop_swap_at [simp]: "i < n \<Longrightarrow> j < n \<Longrightarrow> drop n (swap_at xs i j) = drop n xs"
  by (simp add: swap_at_def)

section \<open>slices.SortFunc\<close>

text \<open>
  \<^verbatim>\<open>slices.SortFunc\<close> orders a slice by a three-way comparison.  The model is the insertion sort
  the library itself runs on short slices; it is stable, which is also what \<^verbatim>\<open>sort.SliceStable\<close>
  promises.  On longer slices the library switches to another algorithm, but \<open>sorted_unique\<close>
  below shows that a comparison that is total on the elements leaves only one possible result.
\<close>

fun insort_cmp :: "('a \<Rightarrow> 'a \<Rightarrow> int) \<Rightarrow> 'a \<Rightarrow> 'a list \<Rightarrow> 'a list" where
  "insort_cmp cmp x [] = [x]"
| "insort_cmp cmp x (y # ys) = (if cmp x y < 0 then x # y # ys else y # insort_cmp cmp x ys)"

definition SortFunc :: "('a \<Rightarrow> 'a \<Rightarrow> int) \<Rightarrow> 'a list \<Rightarrow> 'a list" where
  "SortFunc cmp xs = foldl (\<lambda>acc x. insort_cmp cmp x acc) [] xs"

lemma mset_insort_cmp [simp]: "mset (insort_cmp cmp x xs) = add_mset x (mset xs)"
  by (induction xs) auto

lemma mset_foldl_insort:
  "mset (foldl (\<lambda>acc x. insort_cmp cmp x acc) ys xs) = mset ys + mset xs"
  by (induction xs arbitrary: ys) auto

lemma mset_SortFunc [simp]: "mset (SortFunc cmp xs) = mset xs"
  by (simp add: SortFunc_def mset_foldl_insort)

lemma set_SortFunc [simp]: "set (SortFunc cmp xs) = set xs"
  by (metis mset_SortFunc set_mset_mset)

lemma length_SortFunc [simp]: "length (SortFunc cmp xs) = length xs"
  by (metis mset_SortFunc size_mset)

lemma SortFunc_Nil [simp]: "SortFunc cmp [] = []"
  by (simp add: SortFunc_def)

lemma distinct_SortFunc [simp]: "distinct (SortFunc cmp xs) = distinct xs"
  by (metis mset_SortFunc mset_eq_imp_distinct_iff)

lemma set_insort_cmp [simp]: "set (insort_cmp cmp x xs) = insert x (set xs)"
  by (metis mset_insort_cmp set_mset_add_mset_insert set_mset_mset)

context weak_order
begin

lemma insort_cmp_sorted:
  assumes "\<And>a b. cmp a b < 0 \<longleftrightarrow> lt a b"
    and "sorted_wrt (\<lambda>a b. \<not> lt b a) xs"
  shows "sorted_wrt (\<lambda>a b. \<not> lt b a) (insort_cmp cmp x xs)"
  using assms(2)
proof (induction xs)
  case (Cons y ys)
  show ?case
  proof (cases "lt x y")
    case True
    then have "\<not> lt z x" if "z \<in> set ys" for z
      using Cons.prems that lt_trans lt_asym by (meson list.set_intros nlt_trans sorted_wrt.simps(2))
    with True Cons.prems show ?thesis
      by (auto simp: assms(1) lt_asym)
  next
    case False
    with Cons show ?thesis by (auto simp: assms(1))
  qed
qed simp

lemma foldl_insort_sorted:
  assumes "\<And>a b. cmp a b < 0 \<longleftrightarrow> lt a b"
    and "sorted_wrt (\<lambda>a b. \<not> lt b a) ys"
  shows "sorted_wrt (\<lambda>a b. \<not> lt b a) (foldl (\<lambda>acc x. insort_cmp cmp x acc) ys xs)"
  using assms(2)
  by (induction xs arbitrary: ys) (simp_all add: insort_cmp_sorted [OF assms(1)])

lemma SortFunc_sorted:
  assumes "\<And>a b. cmp a b < 0 \<longleftrightarrow> lt a b"
  shows "sorted_wrt (\<lambda>a b. \<not> lt b a) (SortFunc cmp xs)"
  unfolding SortFunc_def by (rule foldl_insort_sorted [OF assms]) simp_all

text \<open>Two sorted arrangements of the same elements agree when no two elements tie.\<close>

lemma sorted_unique:
  assumes "sorted_wrt (\<lambda>a b. \<not> lt b a) xs" and "sorted_wrt (\<lambda>a b. \<not> lt b a) ys"
    and "mset xs = mset ys"
    and "\<And>a b. a \<in> set xs \<Longrightarrow> b \<in> set xs \<Longrightarrow> a \<noteq> b \<Longrightarrow> lt a b \<or> lt b a"
  shows "xs = ys"
  using assms
proof (induction xs arbitrary: ys)
  case (Cons x xs)
  then obtain y ys' where ys: "ys = y # ys'"
    by (cases ys) auto
  have sets: "set (x # xs) = set ys"
    using Cons.prems(3) by (metis set_mset_mset)
  have "x = y"
  proof (rule ccontr)
    assume "x \<noteq> y"
    moreover from this have "y \<in> set xs" and "x \<in> set ys'"
      using sets ys by auto
    ultimately show False
      using Cons.prems(1,2) Cons.prems(4) [of x y] ys by auto
  qed
  with Cons ys show ?case by auto
qed simp

end

end
