(* ===== verification/Model.thy ===== *)
theory Model
  imports Prelude
begin

text \<open>
  Package \<^verbatim>\<open>model\<close> (\<^verbatim>\<open>src/pkg/model/message.go\<close>): the queue mode, the message record, the enqueue
  request with its validation, and the read-only views the service returns.
\<close>

section \<open>Queue mode and status\<close>

type_synonym QueueMode = string

definition ModeFIFO :: QueueMode where "ModeFIFO = ''FIFO''"
definition ModeLIFO :: QueueMode where "ModeLIFO = ''LIFO''"

definition Valid :: "QueueMode \<Rightarrow> bool" where
  "Valid m \<longleftrightarrow> m = ModeFIFO \<or> m = ModeLIFO"

datatype mode_error = InvalidQueueMode string

definition ParseQueueMode :: "string \<Rightarrow> mode_error + QueueMode" where
  "ParseQueueMode s = (let m = s in if \<not> Valid m then Inl (InvalidQueueMode s) else Inr m)"

type_synonym Status = string

definition StatusPending :: Status where "StatusPending = ''PENDING''"

section \<open>Messages\<close>

record Message =
  m_ID :: string
  m_Seq :: uint64
  m_Payload :: string
  m_Priority :: int
  m_EnqueuedAt :: go_time
  m_AvailableAt :: go_time
  m_Status :: Status

definition Available :: "Message \<Rightarrow> go_time \<Rightarrow> bool" where
  "Available m now \<longleftrightarrow> \<not> now < m_AvailableAt m"

lemma Available_iff: "Available m now \<longleftrightarrow> m_AvailableAt m \<le> now"
  by (auto simp: Available_def)

section \<open>Enqueue requests\<close>

record EnqueueRequest =
  req_Payload :: string
  req_Priority :: int
  req_DelaySeconds :: int

definition MaxDelaySeconds :: int where
  "MaxDelaySeconds = 10 * 365 * 24 * 60 * 60"

datatype request_error =
    PayloadEmpty
  | DelayNegative int
  | DelayTooLong int

definition Validate :: "EnqueueRequest \<Rightarrow> request_error option" where
  "Validate r =
     (if req_Payload r = '''' then Some PayloadEmpty
      else if req_DelaySeconds r < 0 then Some (DelayNegative (req_DelaySeconds r))
      else if req_DelaySeconds r > MaxDelaySeconds then Some (DelayTooLong (req_DelaySeconds r))
      else None)"

lemma Validate_None_iff:
  "Validate r = None \<longleftrightarrow>
     req_Payload r \<noteq> '''' \<and> 0 \<le> req_DelaySeconds r \<and> req_DelaySeconds r \<le> MaxDelaySeconds"
  by (auto simp: Validate_def)

section \<open>Read-only views\<close>

record QueueStats =
  qs_Total :: int
  qs_Available :: int
  qs_Delayed :: int

record QueueSnapshot =
  sn_Mode :: QueueMode
  sn_Now :: go_time
  sn_Stats :: QueueStats
  sn_Ready :: "Message list"
  sn_Delayed :: "Message list"
  sn_ReadyTruncated :: bool
  sn_DelayedTruncated :: bool

record WalTail =
  wt_Path :: string
  wt_SizeBytes :: int
  wt_Truncated :: bool
  wt_Records :: "bytes list"

end
