(* ===== verification/GoHeap.thy ===== *)
theory GoHeap
  imports Prelude
begin

text \<open>
  Package \<^verbatim>\<open>container/heap\<close> of Go's standard library, the part the engine calls: \<^verbatim>\<open>up\<close>, \<^verbatim>\<open>down\<close>,
  \<^verbatim>\<open>Push\<close>, \<^verbatim>\<open>Pop\<close> and \<^verbatim>\<open>Remove\<close>.  They work on any value with the methods of \<^verbatim>\<open>heap.Interface\<close>, so
  the definitions take those methods as arguments.  A method that indexes its slice out of range
  panics, which is the result \<^const>\<open>None\<close>.

  The locale \<open>heap_iface\<close> states what an implementation of the interface promises and shows, once
  for every implementation, that the operations keep the heap order, lose and invent no element
  and never panic.
\<close>

section \<open>The library routines\<close>

function heap_up ::
    "('s \<Rightarrow> nat \<Rightarrow> nat \<Rightarrow> bool option) \<Rightarrow> ('s \<Rightarrow> nat \<Rightarrow> nat \<Rightarrow> 's option) \<Rightarrow> 's \<Rightarrow> nat \<Rightarrow> 's option"
  where
  "heap_up Less Swap h j =
     (let i = (j - 1) div 2 in
      if i = j then Some h
      else do {
        b \<leftarrow> Less h j i;
        if \<not> b then Some h
        else do {
          h' \<leftarrow> Swap h i j;
          heap_up Less Swap h' i
        }
      })"
  by pat_completeness auto
termination
  by (relation "measure (\<lambda>(_, _, _, j). j)") auto

text \<open>\<open>heap_down\<close> returns the final position; the library returns whether it exceeds the first.\<close>

function heap_down ::
    "('s \<Rightarrow> nat \<Rightarrow> nat \<Rightarrow> bool option) \<Rightarrow> ('s \<Rightarrow> nat \<Rightarrow> nat \<Rightarrow> 's option) \<Rightarrow> 's \<Rightarrow> nat \<Rightarrow> nat
       \<Rightarrow> ('s \<times> nat) option"
  where
  "heap_down Less Swap h i n =
     (let j1 = 2 * i + 1 in
      if j1 \<ge> n then Some (h, i)
      else do {
        let j2 = j1 + 1;
        right \<leftarrow> (if j2 < n then Less h j2 j1 else Some False);
        let j = (if right then j2 else j1);
        b \<leftarrow> Less h j i;
        if \<not> b then Some (h, i)
        else do {
          h' \<leftarrow> Swap h i j;
          heap_down Less Swap h' j n
        }
      })"
  by pat_completeness auto
termination
  by (relation "measure (\<lambda>(_, _, _, i, n). n - i)") (auto split: if_splits)

declare heap_up.simps [simp del] heap_down.simps [simp del]

definition heap_Push where
  "heap_Push Len Less Swap PushM h x =
     do {
       let h1 = PushM h x;
       heap_up Less Swap h1 (Len h1 - 1)
     }"

definition heap_Pop where
  "heap_Pop Len Less Swap PopM h =
     (if Len h = 0 then None
      else do {
        let n = Len h - 1;
        h1 \<leftarrow> Swap h 0 n;
        (h2, _) \<leftarrow> heap_down Less Swap h1 0 n;
        PopM h2
      })"

definition heap_Remove where
  "heap_Remove Len Less Swap PopM h i =
     (if Len h = 0 then None
      else do {
        let n = Len h - 1;
        h3 \<leftarrow> (if n \<noteq> i then do {
                  h1 \<leftarrow> Swap h i n;
                  (h2, k) \<leftarrow> heap_down Less Swap h1 i n;
                  if \<not> k > i then heap_up Less Swap h2 i else Some h2
                } else Some h);
        PopM h3
      })"

text \<open>What every exchange of slots keeps, sifting down keeps: no law of the interface is needed.\<close>

lemma heap_down_keeps:
  assumes "heap_down Less Swap h i n = Some (h', k)"
    and "\<And>s s' i j. Swap s i j = Some s' \<Longrightarrow> f s' = f s"
  shows "f h' = f h"
  using assms(1)
proof (induction "n - i" arbitrary: h i rule: less_induct)
  case less
  have "h' = h \<or> (\<exists>j h1. i < j \<and> j < n \<and> Swap h i j = Some h1 \<and> heap_down Less Swap h1 j n = Some (h', k))"
    using less.prems
    by (subst (asm) heap_down.simps) (force simp: Let_def bind_eq_Some_conv split: if_splits)
  then show ?case
    using less.hyps assms(2) by (metis diff_less_mono2 less_trans)
qed

lemma heap_Pop_via:
  assumes "heap_Pop Len Less Swap PopM h = Some r"
    and "\<And>s s' i j. Swap s i j = Some s' \<Longrightarrow> f s' = f s"
  shows "\<exists>s2. f s2 = f h \<and> PopM s2 = Some r"
  using assms(1) heap_down_keeps [where f = f, OF _ assms(2)] assms(2)
  by (fastforce simp: heap_Pop_def Let_def bind_eq_Some_conv split: if_splits)

section \<open>Heap order on a slice\<close>

definition par :: "nat \<Rightarrow> nat" where
  "par k = (k - 1) div 2"

lemma par_less: "0 < k \<Longrightarrow> par k < k"
  by (auto simp: par_def)

lemma par_bound: "0 < k \<Longrightarrow> k \<le> n \<Longrightarrow> par k < n"
  using par_less [of k] by simp

lemma par_neq: "0 < k \<Longrightarrow> par k \<noteq> k"
  using par_less [of k] by simp

lemma par_eq_iff: "0 < k \<Longrightarrow> par k = i \<longleftrightarrow> k = 2 * i + 1 \<or> k = 2 * i + 2"
  by (auto simp: par_def)

context weak_order
begin

text \<open>The first \<open>n\<close> slots form a heap: no element is less than its parent.\<close>

definition heap_on :: "'a list \<Rightarrow> nat \<Rightarrow> bool" where
  "heap_on xs n \<longleftrightarrow> (\<forall>k<n. 0 < k \<longrightarrow> \<not> lt (xs ! k) (xs ! par k))"

text \<open>The same except around slot \<open>i\<close>, whose parent is still no greater than its children.\<close>

definition except_at :: "'a list \<Rightarrow> nat \<Rightarrow> nat \<Rightarrow> bool" where
  "except_at xs n i \<longleftrightarrow>
     (\<forall>k<n. 0 < k \<longrightarrow>
        (k \<noteq> i \<and> par k \<noteq> i \<longrightarrow> \<not> lt (xs ! k) (xs ! par k)) \<and>
        (par k = i \<and> 0 < i \<longrightarrow> \<not> lt (xs ! k) (xs ! par i)))"

definition up_ok :: "'a list \<Rightarrow> nat \<Rightarrow> bool" where
  "up_ok xs i \<longleftrightarrow> (0 < i \<longrightarrow> \<not> lt (xs ! i) (xs ! par i))"

definition children_ok :: "'a list \<Rightarrow> nat \<Rightarrow> nat \<Rightarrow> bool" where
  "children_ok xs n i \<longleftrightarrow> (\<forall>k<n. 0 < k \<and> par k = i \<longrightarrow> \<not> lt (xs ! k) (xs ! i))"

lemma heap_onI: "except_at xs n i \<Longrightarrow> up_ok xs i \<Longrightarrow> children_ok xs n i \<Longrightarrow> heap_on xs n"
  unfolding heap_on_def except_at_def up_ok_def children_ok_def by metis

lemma heap_on_root_min:
  assumes "heap_on xs n" and "k < n"
  shows "\<not> lt (xs ! k) (xs ! 0)"
  using assms(2)
proof (induction k rule: less_induct)
  case (less k)
  show ?case
  proof (cases "k = 0")
    case True
    then show ?thesis by (simp add: lt_irrefl)
  next
    case False
    then have "\<not> lt (xs ! k) (xs ! par k)" and "\<not> lt (xs ! par k) (xs ! 0)"
      using assms(1) less par_less by (auto simp: heap_on_def)
    then show ?thesis by (rule nlt_trans)
  qed
qed

lemma heap_on_mono: "heap_on xs n \<Longrightarrow> m \<le> n \<Longrightarrow> heap_on xs m"
  by (auto simp: heap_on_def)

lemma heap_on_cong: "heap_on xs n \<Longrightarrow> (\<And>k. k < n \<Longrightarrow> ys ! k = xs ! k) \<Longrightarrow> heap_on ys n"
  unfolding heap_on_def by (metis par_less less_trans)

lemma heap_on_take: "n \<le> length xs \<Longrightarrow> heap_on (take n xs) n = heap_on xs n"
  unfolding heap_on_def by (metis nth_take par_less less_trans)

lemma heap_on_append: "heap_on xs (length xs) \<Longrightarrow> except_at (xs @ [x]) (Suc (length xs)) (length xs)"
  unfolding heap_on_def except_at_def
  by (auto simp: nth_append par_bound par_neq less_Suc_eq dest: par_bound)

lemma heap_on_children: "heap_on xs n \<Longrightarrow> par k = i \<Longrightarrow> 0 < k \<Longrightarrow> k < n \<Longrightarrow> 0 < i \<Longrightarrow> \<not> lt (xs ! k) (xs ! par i)"
  unfolding heap_on_def by (metis nlt_trans par_less less_trans)

lemma except_at_swap_last:
  assumes "heap_on xs (Suc n)" and "Suc n = length xs" and "i < n"
  shows "except_at (swap_at xs i n) n i"
proof -
  have nth: "swap_at xs i n ! k = (if k = i then xs ! n else xs ! k)" if "k < n" for k
    using assms that by (simp add: nth_swap_at)
  have "\<not> lt (xs ! k) (xs ! par k)" if "k < n" "0 < k" for k
    using assms(1) that by (auto simp: heap_on_def)
  moreover have "\<not> lt (xs ! k) (xs ! par i)" if "k < n" "0 < k" "par k = i" "0 < i" for k
    using heap_on_children [OF assms(1)] that by auto
  ultimately show ?thesis
    unfolding except_at_def using assms(3)
    by (metis nth par_neq par_less less_trans)
qed

text \<open>One step of \<open>heap_up\<close>: exchanging a slot with its greater parent moves the exception up.\<close>

lemma up_step:
  assumes ex: "except_at xs n j" and ch: "children_ok xs n j" and "0 < j" "j < n" "n \<le> length xs"
    and lt: "lt (xs ! j) (xs ! par j)"
  shows "except_at (swap_at xs (par j) j) n (par j)"
    and "children_ok (swap_at xs (par j) j) n (par j)"
proof -
  let ?p = "par j" and ?ys = "swap_at xs (par j) j"
  have pj: "?p < j" using \<open>0 < j\<close> by (rule par_less)
  have nth: "?ys ! k = (if k = ?p then xs ! j else if k = j then xs ! ?p else xs ! k)" for k
    using assms pj by (simp add: nth_swap_at)
  have ch': "\<not> lt (xs ! k) (xs ! ?p)" if "k < n" "0 < k" "par k = j" for k
    using ex that \<open>0 < j\<close> by (auto simp: except_at_def)
  have sib: "\<not> lt (xs ! k) (xs ! ?p)" if "k < n" "0 < k" "par k = ?p" "k \<noteq> j" for k
    using ex that pj by (auto simp: except_at_def)
  have oth: "\<not> lt (xs ! k) (xs ! par k)" if "k < n" "0 < k" "k \<noteq> j" "par k \<noteq> j" for k
    using ex that by (auto simp: except_at_def)
  have gp: "\<not> lt (xs ! ?p) (xs ! par ?p)" if "0 < ?p"
    using oth [of ?p] that pj \<open>j < n\<close> par_less [of ?p] by auto
  show "children_ok ?ys n ?p"
    unfolding children_ok_def
  proof (intro allI impI)
    fix k assume k: "k < n" and "0 < k \<and> par k = ?p"
    then have d: "0 < k" "par k = ?p" by simp_all
    then have "k \<noteq> ?p" using par_neq by metis
    moreover have "\<not> lt (xs ! k) (xs ! j)" if "k \<noteq> j"
      using sib [OF k d that] lt lt_trans by blast
    ultimately show "\<not> lt (?ys ! k) (?ys ! ?p)"
      using lt pj by (auto simp: nth lt_asym)
  qed
  show "except_at ?ys n ?p"
    unfolding except_at_def
  proof (intro allI impI conjI)
    fix k assume k: "k < n" "0 < k" and d: "k \<noteq> ?p \<and> par k \<noteq> ?p"
    show "\<not> lt (?ys ! k) (?ys ! par k)"
    proof (cases "par k = j")
      case True
      with k d ch' par_neq [of k] show ?thesis by (simp add: nth)
    next
      case False
      moreover have "k \<noteq> j" using d by blast
      ultimately show ?thesis using k d oth by (simp add: nth)
    qed
  next
    fix k assume k: "k < n" "0 < k" and d: "par k = ?p \<and> 0 < ?p"
    have "par ?p \<noteq> ?p" and "par ?p \<noteq> j"
      using d pj par_less [of ?p] by auto
    moreover have "k \<noteq> ?p" using d k par_neq by metis
    moreover have "\<not> lt (xs ! k) (xs ! par ?p)" if "k \<noteq> j"
      using nlt_trans [OF sib gp] d k that by blast
    ultimately show "\<not> lt (?ys ! k) (?ys ! par ?p)"
      using d gp by (simp add: nth)
  qed
qed

text \<open>One step of \<open>heap_down\<close>: exchanging a slot with its least child moves the exception down.\<close>

lemma down_step:
  assumes ex: "except_at xs n i" and j: "0 < j" "par j = i" "j < n" "n \<le> length xs"
    and least: "\<And>k. k < n \<Longrightarrow> 0 < k \<Longrightarrow> par k = i \<Longrightarrow> \<not> lt (xs ! k) (xs ! j)"
    and lt: "lt (xs ! j) (xs ! i)"
  shows "except_at (swap_at xs i j) n j" and "up_ok (swap_at xs i j) j"
proof -
  let ?ys = "swap_at xs i j"
  have ij: "i < j" using j par_less by blast
  have nth: "?ys ! k = (if k = i then xs ! j else if k = j then xs ! i else xs ! k)" for k
    using j ij by (simp add: nth_swap_at)
  have oth: "\<not> lt (xs ! k) (xs ! par k)" if "k < n" "0 < k" "k \<noteq> i" "par k \<noteq> i" for k
    using ex that by (auto simp: except_at_def)
  have gp: "\<not> lt (xs ! j) (xs ! par i)" if "0 < i"
    using ex that j by (auto simp: except_at_def)
  show "up_ok ?ys j"
    using j ij lt by (auto simp: up_ok_def nth lt_asym)
  show "except_at ?ys n j"
    unfolding except_at_def
  proof (intro allI impI conjI)
    fix k assume k: "k < n" "0 < k" and d: "k \<noteq> j \<and> par k \<noteq> j"
    show "\<not> lt (?ys ! k) (?ys ! par k)"
    proof (cases "k = i")
      case True
      with k have "par i < i" by (auto intro: par_less)
      with True k gp ij show ?thesis by (auto simp: nth)
    next
      case False
      with k d oth least ij show ?thesis by (cases "par k = i") (auto simp: nth)
    qed
  next
    fix k assume k: "k < n" "0 < k" and d: "par k = j \<and> 0 < j"
    then have "k \<noteq> i" "k \<noteq> j" using ij par_less [of k] by auto
    moreover have "\<not> lt (xs ! k) (xs ! j)"
      using oth [of k] k d ij \<open>k \<noteq> i\<close> by auto
    ultimately show "\<not> lt (?ys ! k) (?ys ! par j)"
      using j by (auto simp: nth)
  qed
qed

end
section \<open>The interface and the operations on it\<close>

text \<open>
  \<open>view\<close> is the slice of elements the methods work on, \<open>inv\<close> the bookkeeping an implementation
  keeps around it, and \<open>frame\<close> what an exchange of two slots leaves alone.
\<close>

locale heap_iface = weak_order lt
  for lt :: "'a \<Rightarrow> 'a \<Rightarrow> bool" +
  fixes Len :: "'s \<Rightarrow> nat"
    and Less :: "'s \<Rightarrow> nat \<Rightarrow> nat \<Rightarrow> bool option"
    and Swap :: "'s \<Rightarrow> nat \<Rightarrow> nat \<Rightarrow> 's option"
    and view :: "'s \<Rightarrow> 'a list"
    and inv :: "'s \<Rightarrow> bool"
    and frame :: "'s \<Rightarrow> 's \<Rightarrow> bool"
  assumes Len_view: "inv s \<Longrightarrow> Len s = length (view s)"
    and Less_view: "inv s \<Longrightarrow> i < length (view s) \<Longrightarrow> j < length (view s) \<Longrightarrow>
      Less s i j = Some (lt (view s ! i) (view s ! j))"
    and Swap_view: "inv s \<Longrightarrow> i < length (view s) \<Longrightarrow> j < length (view s) \<Longrightarrow>
      \<exists>s'. Swap s i j = Some s' \<and> inv s' \<and> view s' = swap_at (view s) i j \<and> frame s s'"
    and frame_refl: "frame s s"
    and frame_trans: "frame s t \<Longrightarrow> frame t u \<Longrightarrow> frame s u"
begin

lemma heap_up_spec:
  assumes "inv s" "j < n" "n \<le> length (view s)"
    and "except_at (view s) n j" "children_ok (view s) n j"
  shows "\<exists>s'. heap_up Less Swap s j = Some s' \<and> inv s' \<and> frame s s' \<and>
    mset (view s') = mset (view s) \<and> drop n (view s') = drop n (view s) \<and> heap_on (view s') n"
  using assms
proof (induction j arbitrary: s rule: less_induct)
  case (less j)
  show ?case
  proof (cases "0 < j \<and> lt (view s ! j) (view s ! par j)")
    case False
    then have "up_ok (view s) j" by (auto simp: up_ok_def)
    then have "heap_on (view s) n" using less.prems heap_onI by blast
    moreover have "heap_up Less Swap s j = Some s"
      using False less.prems par_bound [of j "length (view s)"]
      by (subst heap_up.simps) (auto simp: par_def Less_view Let_def)
    ultimately show ?thesis using less.prems frame_refl by auto
  next
    case True
    then have pj: "par j < j" and b: "par j < length (view s)" "j < length (view s)"
      using less.prems par_less [of j] by auto
    obtain s1 where s1: "Swap s (par j) j = Some s1" "inv s1"
        "view s1 = swap_at (view s) (par j) j" "frame s s1"
      using Swap_view [OF less.prems(1) b] by blast
    have "except_at (view s1) n (par j)" "children_ok (view s1) n (par j)"
      using up_step [of "view s" n j] less.prems True s1(3) by auto
    then obtain s' where s': "heap_up Less Swap s1 (par j) = Some s'" "inv s'" "frame s1 s'"
        "mset (view s') = mset (view s1)" "drop n (view s') = drop n (view s1)" "heap_on (view s') n"
      using less.IH [OF pj s1(2)] less.prems s1(3) pj by auto
    have "heap_up Less Swap s j = Some s'"
      using True s1(1) s'(1) less.prems(1) b par_neq [of j]
      by (simp add: heap_up.simps [of _ _ s j] par_def Less_view Let_def)
    then show ?thesis
      using s' s1(3) frame_trans [OF s1(4) s'(3)] b pj less.prems(2) by simp
  qed
qed

lemma heap_down_spec:
  assumes "inv s" "n \<le> length (view s)" "i < length (view s)" "except_at (view s) n i"
  shows "\<exists>s' i'. heap_down Less Swap s i n = Some (s', i') \<and> inv s' \<and> frame s s' \<and>
    mset (view s') = mset (view s) \<and> drop n (view s') = drop n (view s) \<and>
    except_at (view s') n i' \<and> children_ok (view s') n i' \<and>
    (i' = i \<and> s' = s \<or> i' > i \<and> up_ok (view s') i')"
  using assms
proof (induction "n - i" arbitrary: s i rule: less_induct)
  case less
  define j1 where "j1 = 2 * i + 1"
  define j where "j = (if j1 + 1 < n \<and> lt (view s ! (j1 + 1)) (view s ! j1) then j1 + 1 else j1)"
  have kids: "0 < k \<and> par k = i \<longleftrightarrow> k = j1 \<or> k = j1 + 1" for k
    using par_eq_iff [of k i] by (auto simp: j1_def)
  show ?case
  proof (cases "j1 < n")
    case False
    then have "children_ok (view s) n i" using kids by (auto simp: children_ok_def)
    moreover have "heap_down Less Swap s i n = Some (s, i)"
      using False by (simp add: heap_down.simps [of _ _ s i n] j1_def)
    ultimately show ?thesis using less.prems frame_refl by auto
  next
    case True
    have jn: "j < n" and jpar: "0 < j" "par j = i"
      using True kids [of j] by (auto simp: j_def)
    have ij: "i < j" using jpar par_less by blast
    have least: "\<not> lt (view s ! k) (view s ! j)" if "k < n" "0 < k" "par k = i" for k
      using kids [of k] that lt_irrefl lt_asym by (auto simp: j_def)
    have less_j: "Less s j i = Some (lt (view s ! j) (view s ! i))"
      using less.prems jn by (intro Less_view) auto
    have step: "heap_down Less Swap s i n =
        (if \<not> lt (view s ! j) (view s ! i) then Some (s, i)
         else Swap s i j \<bind> (\<lambda>h'. heap_down Less Swap h' j n))"
      using True less.prems less_j
      by (auto simp: heap_down.simps [of _ _ s i n] Let_def j_def j1_def Less_view)
    show ?thesis
    proof (cases "lt (view s ! j) (view s ! i)")
      case False
      then have "children_ok (view s) n i"
        using least nlt_trans by (auto simp: children_ok_def)
      with step False show ?thesis using less.prems frame_refl by auto
    next
      case lt: True
      obtain s1 where s1: "Swap s i j = Some s1" "inv s1" "view s1 = swap_at (view s) i j" "frame s s1"
        using Swap_view [of s i j] less.prems jn by auto
      have ds: "except_at (view s1) n j" "up_ok (view s1) j"
        unfolding s1(3) using down_step [OF less.prems(4) jpar jn less.prems(2) least lt] by blast+
      have "n - j < n - i" using ij jn by simp
      then obtain s' i' where s': "heap_down Less Swap s1 j n = Some (s', i')" "inv s'" "frame s1 s'"
          "mset (view s') = mset (view s1)" "drop n (view s') = drop n (view s1)"
          "except_at (view s') n i'" "children_ok (view s') n i'"
          "i' = j \<and> s' = s1 \<or> i' > j \<and> up_ok (view s') i'"
        using less.hyps [of j s1] s1 ds less.prems jn by auto
      have "up_ok (view s') i'" and "i' > i"
        using s'(8) ds(2) ij by auto
      moreover have "mset (view s') = mset (view s)" "drop n (view s') = drop n (view s)"
        using s'(4,5) s1(3) less.prems jn ij by auto
      ultimately show ?thesis
        using step lt s1(1) s'(1,2,6,7) frame_trans [OF s1(4) s'(3)] by simp
    qed
  qed
qed

theorem heap_Push_spec:
  assumes "inv (PushM s x)" "view (PushM s x) = xs @ [a]" "heap_on xs (length xs)"
  shows "\<exists>s'. heap_Push Len Less Swap PushM s x = Some s' \<and> inv s' \<and> frame (PushM s x) s' \<and>
    mset (view s') = mset (xs @ [a]) \<and> heap_on (view s') (length (view s'))"
proof -
  let ?s1 = "PushM s x" and ?n = "Suc (length xs)"
  have ex: "except_at (view ?s1) ?n (length xs)"
    using heap_on_append [OF assms(3)] assms(2) by simp
  have "children_ok (view ?s1) ?n (length xs)"
    by (auto simp: children_ok_def less_Suc_eq par_neq dest: par_less)
  then obtain s' where s': "heap_up Less Swap ?s1 (length xs) = Some s'" "inv s'" "frame ?s1 s'"
      "mset (view s') = mset (view ?s1)" "heap_on (view s') ?n"
    using heap_up_spec [OF assms(1) _ _ ex] assms(2) by auto
  moreover have "length (view s') = ?n"
    using s'(4) assms(2) by (metis length_append_singleton size_mset)
  ultimately show ?thesis
    using assms by (simp add: heap_Push_def Len_view)
qed

text \<open>After the sifting of \<open>heap_Pop\<close> and \<open>heap_Remove\<close>, the element to hand out is in the last slot.\<close>

definition sifted :: "'s \<Rightarrow> nat \<Rightarrow> 's \<Rightarrow> bool" where
  "sifted s i s2 \<longleftrightarrow> inv s2 \<and> frame s s2 \<and> mset (view s2) = mset (view s) \<and>
     last (view s2) = view s ! i \<and> heap_on (butlast (view s2)) (length (view s) - 1)"

lemma siftedI:
  assumes "inv s2" "frame s s2" "mset (view s2) = mset (view s)"
    and "length (view s) = Suc n" "drop n (view s2) = [view s ! i]" "heap_on (view s2) n"
  shows "sifted s i s2"
proof -
  have len: "length (view s2) = Suc n"
    using assms(3,4) by (metis size_mset)
  then have bl: "butlast (view s2) = take n (view s2)" and ne: "view s2 \<noteq> []"
    by (auto simp: butlast_conv_take)
  from len have "last (view s2) = last (drop n (view s2))" by simp
  then have "last (view s2) = view s ! i"
    using assms(5) by simp
  then show ?thesis
    using assms len bl by (simp add: sifted_def heap_on_take)
qed

lemma drop_last_swap:
  assumes "length xs = Suc n" "i \<le> n"
  shows "drop n (swap_at xs i n) = [xs ! i]"
  using assms by (simp add: Cons_nth_drop_Suc [symmetric] nth_swap_at)

theorem heap_Pop_spec:
  assumes "inv s" "view s \<noteq> []" "heap_on (view s) (length (view s))"
  shows "\<exists>s2. heap_Pop Len Less Swap PopM s = PopM s2 \<and> sifted s 0 s2"
proof -
  obtain n where n: "length (view s) = Suc n"
    using assms(2) by (cases "view s") auto
  obtain s1 where s1: "Swap s 0 n = Some s1" "inv s1" "view s1 = swap_at (view s) 0 n" "frame s s1"
    using Swap_view [OF assms(1), of 0 n] n by auto
  have ex: "except_at (view s1) n 0"
  proof (cases "n = 0")
    case False
    then show ?thesis
      unfolding s1(3) using assms(3) n by (intro except_at_swap_last) simp_all
  qed (simp add: except_at_def)
  obtain s2 i' where s2: "heap_down Less Swap s1 0 n = Some (s2, i')" "inv s2" "frame s1 s2"
      "mset (view s2) = mset (view s1)" "drop n (view s2) = drop n (view s1)"
      "except_at (view s2) n i'" "children_ok (view s2) n i'" "i' = 0 \<and> s2 = s1 \<or> up_ok (view s2) i'"
    using heap_down_spec [OF s1(2) _ _ ex] s1(3) n by auto
  then have "heap_on (view s2) n"
    using heap_onI [of "view s2" n i'] by (auto simp: up_ok_def)
  then have "sifted s 0 s2"
    using s2(2,4,5) frame_trans [OF s1(4) s2(3)] s1(3) n
    by (intro siftedI [of _ _ n]) (simp_all add: drop_last_swap)
  moreover have "heap_Pop Len Less Swap PopM s = PopM s2"
    using s1(1) s2(1) n assms(1) by (simp add: heap_Pop_def Len_view)
  ultimately show ?thesis by blast
qed

theorem heap_Remove_spec:
  assumes "inv s" "i < length (view s)" "heap_on (view s) (length (view s))"
  shows "\<exists>s2. heap_Remove Len Less Swap PopM s i = PopM s2 \<and> sifted s i s2"
proof -
  obtain n where n: "length (view s) = Suc n"
    using assms(2) by (cases "view s") auto
  show ?thesis
  proof (cases "n = i")
    case True
    have "sifted s i s"
      using assms n True frame_refl
      by (intro siftedI [of _ _ n]) (auto simp: Cons_nth_drop_Suc [symmetric] elim: heap_on_mono)
    moreover have "heap_Remove Len Less Swap PopM s i = PopM s"
      using n assms(1) True by (simp add: heap_Remove_def Len_view)
    ultimately show ?thesis by blast
  next
    case False
    with assms(2) n have i: "i < n" by simp
    obtain s1 where s1: "Swap s i n = Some s1" "inv s1" "view s1 = swap_at (view s) i n" "frame s s1"
      using Swap_view [OF assms(1), of i n] n i by auto
    have ex: "except_at (view s1) n i"
      unfolding s1(3) using assms(3) n i by (intro except_at_swap_last) simp_all
    obtain s2 i' where s2: "heap_down Less Swap s1 i n = Some (s2, i')" "inv s2" "frame s1 s2"
        "mset (view s2) = mset (view s1)" "drop n (view s2) = drop n (view s1)"
        "except_at (view s2) n i'" "children_ok (view s2) n i'"
        "i' = i \<and> s2 = s1 \<or> i' > i \<and> up_ok (view s2) i'"
      using heap_down_spec [OF s1(2) _ _ ex] s1(3) n i by auto
    have "\<exists>s3. (if \<not> i' > i then heap_up Less Swap s2 i else Some s2) = Some s3 \<and> inv s3 \<and>
        frame s2 s3 \<and> mset (view s3) = mset (view s2) \<and> drop n (view s3) = drop n (view s2) \<and>
        heap_on (view s3) n"
    proof (cases "i' > i")
      case True
      with s2 have "heap_on (view s2) n" using heap_onI by blast
      with True s2(2) show ?thesis using frame_refl by auto
    next
      case False
      with s2 have "i' = i" by auto
      with s2 i n s1(3) show ?thesis
        using heap_up_spec [of s2 i n] by auto
    qed
    then obtain s3 where s3: "(if \<not> i' > i then heap_up Less Swap s2 i else Some s2) = Some s3"
        "inv s3" "frame s2 s3" "mset (view s3) = mset (view s2)" "drop n (view s3) = drop n (view s2)"
        "heap_on (view s3) n"
      by blast
    have "sifted s i s3"
      using s3 s2(4,5) frame_trans [OF frame_trans [OF s1(4) s2(3)] s3(3)] s1(3) n i
      by (intro siftedI [of _ _ n]) (simp_all add: drop_last_swap)
    moreover have "heap_Remove Len Less Swap PopM s i = PopM s3"
      using s1(1) s2(1) s3(1) n assms(1) False by (simp add: heap_Remove_def Len_view)
    ultimately show ?thesis by blast
  qed
qed

end

end
