(* ===== verification/ItemHeap.thy ===== *)
theory ItemHeap
  imports Model GoHeap
begin

text \<open>
  The two heaps of package \<^verbatim>\<open>engine\<close> (\<^verbatim>\<open>src/pkg/engine/queue.go\<close>): items, the ready heap with the
  selection rule as its comparator, and the delayed heap ordered by maturity.

  The heaps hold pointers to items, and the position an item records about itself is what
  \<open>Remove\<close> trusts.  The model therefore keeps an explicit store: a pointer is a number and a
  \<open>mem\<close> maps it to the item.  A result \<^const>\<open>None\<close> is a panic (a slice indexed out of range).

  The locale \<open>item_heap\<close> is the contract both heaps share; it interprets the interface of
  \<open>GoHeap\<close> and shows that pushing, popping and removing keep every recorded position right.
\<close>

section \<open>Items and the comparators\<close>

datatype location = inDelayed | inReady

record item =
  it_msg :: Message
  it_order :: uint64
  it_loc :: location
  it_index :: int

type_synonym ptr = nat
type_synonym mem = "ptr \<Rightarrow> item"
type_synonym entry = "Message \<times> uint64"

definition readyHeap_less :: "QueueMode \<Rightarrow> item \<Rightarrow> item \<Rightarrow> bool" where
  "readyHeap_less mode a b =
     (if m_Priority (it_msg a) \<noteq> m_Priority (it_msg b)
      then m_Priority (it_msg a) > m_Priority (it_msg b)
      else if mode = ModeLIFO then
        (if m_Seq (it_msg a) \<noteq> m_Seq (it_msg b) then m_Seq (it_msg a) > m_Seq (it_msg b)
         else it_order a > it_order b)
      else
        (if m_Seq (it_msg a) \<noteq> m_Seq (it_msg b) then m_Seq (it_msg a) < m_Seq (it_msg b)
         else it_order a < it_order b))"

definition delayedHeap_less :: "item \<Rightarrow> item \<Rightarrow> bool" where
  "delayedHeap_less a b =
     (if m_AvailableAt (it_msg a) \<noteq> m_AvailableAt (it_msg b)
      then m_AvailableAt (it_msg a) < m_AvailableAt (it_msg b)
      else it_order a < it_order b)"

section \<open>The methods of the two heaps\<close>

text \<open>
  Both heap types implement \<^verbatim>\<open>heap.Interface\<close> with the same text around their slice of item
  pointers; the shared text takes the slice's getter \<open>items\<close> and setter \<open>put\<close>.
\<close>

definition slots_Len :: "('h \<Rightarrow> ptr list) \<Rightarrow> mem \<times> 'h \<Rightarrow> nat" where
  "slots_Len items = (\<lambda>(m, h). length (items h))"

definition slots_Less ::
    "('h \<Rightarrow> ptr list) \<Rightarrow> ('h \<Rightarrow> item \<Rightarrow> item \<Rightarrow> bool) \<Rightarrow> mem \<times> 'h \<Rightarrow> nat \<Rightarrow> nat \<Rightarrow> bool option" where
  "slots_Less items lessM = (\<lambda>(m, h) i j.
     if i < length (items h) \<and> j < length (items h)
     then Some (lessM h (m (items h ! i)) (m (items h ! j)))
     else None)"

definition slots_Swap ::
    "('h \<Rightarrow> ptr list) \<Rightarrow> (ptr list \<Rightarrow> 'h \<Rightarrow> 'h) \<Rightarrow> mem \<times> 'h \<Rightarrow> nat \<Rightarrow> nat \<Rightarrow> (mem \<times> 'h) option" where
  "slots_Swap items put = (\<lambda>(m, h) i j.
     if i < length (items h) \<and> j < length (items h)
     then (let xs = swap_at (items h) i j;
               m1 = m(xs ! i := (m (xs ! i))\<lparr>it_index := int i\<rparr>);
               m2 = m1(xs ! j := (m1 (xs ! j))\<lparr>it_index := int j\<rparr>)
           in Some (m2, put xs h))
     else None)"

definition slots_Push ::
    "('h \<Rightarrow> ptr list) \<Rightarrow> (ptr list \<Rightarrow> 'h \<Rightarrow> 'h) \<Rightarrow> location \<Rightarrow> mem \<times> 'h \<Rightarrow> ptr \<Rightarrow> mem \<times> 'h" where
  "slots_Push items put here = (\<lambda>(m, h) p.
     (m(p := (m p)\<lparr>it_loc := here, it_index := int (length (items h))\<rparr>), put (items h @ [p]) h))"

definition slots_Pop ::
    "('h \<Rightarrow> ptr list) \<Rightarrow> (ptr list \<Rightarrow> 'h \<Rightarrow> 'h) \<Rightarrow> mem \<times> 'h \<Rightarrow> (ptr \<times> mem \<times> 'h) option" where
  "slots_Pop items put = (\<lambda>(m, h).
     if items h = [] then None
     else (let p = last (items h)
           in Some (p, m(p := (m p)\<lparr>it_index := -1\<rparr>), put (butlast (items h)) h)))"

record readyHeap =
  rh_mode :: QueueMode
  rh_items :: "ptr list"

record delayedHeap =
  dh_items :: "ptr list"

definition readyHeap_Len :: "mem \<times> readyHeap \<Rightarrow> nat" where
  "readyHeap_Len = slots_Len rh_items"
definition readyHeap_Less :: "mem \<times> readyHeap \<Rightarrow> nat \<Rightarrow> nat \<Rightarrow> bool option" where
  "readyHeap_Less = slots_Less rh_items (\<lambda>h. readyHeap_less (rh_mode h))"
definition readyHeap_Swap :: "mem \<times> readyHeap \<Rightarrow> nat \<Rightarrow> nat \<Rightarrow> (mem \<times> readyHeap) option" where
  "readyHeap_Swap = slots_Swap rh_items (\<lambda>xs. rh_items_update (\<lambda>_. xs))"
definition readyHeap_Push :: "mem \<times> readyHeap \<Rightarrow> ptr \<Rightarrow> mem \<times> readyHeap" where
  "readyHeap_Push = slots_Push rh_items (\<lambda>xs. rh_items_update (\<lambda>_. xs)) inReady"
definition readyHeap_Pop :: "mem \<times> readyHeap \<Rightarrow> (ptr \<times> mem \<times> readyHeap) option" where
  "readyHeap_Pop = slots_Pop rh_items (\<lambda>xs. rh_items_update (\<lambda>_. xs))"

definition delayedHeap_Len :: "mem \<times> delayedHeap \<Rightarrow> nat" where
  "delayedHeap_Len = slots_Len dh_items"
definition delayedHeap_Less :: "mem \<times> delayedHeap \<Rightarrow> nat \<Rightarrow> nat \<Rightarrow> bool option" where
  "delayedHeap_Less = slots_Less dh_items (\<lambda>h. delayedHeap_less)"
definition delayedHeap_Swap :: "mem \<times> delayedHeap \<Rightarrow> nat \<Rightarrow> nat \<Rightarrow> (mem \<times> delayedHeap) option" where
  "delayedHeap_Swap = slots_Swap dh_items (\<lambda>xs. dh_items_update (\<lambda>_. xs))"
definition delayedHeap_Push :: "mem \<times> delayedHeap \<Rightarrow> ptr \<Rightarrow> mem \<times> delayedHeap" where
  "delayedHeap_Push = slots_Push dh_items (\<lambda>xs. dh_items_update (\<lambda>_. xs)) inDelayed"
definition delayedHeap_Pop :: "mem \<times> delayedHeap \<Rightarrow> (ptr \<times> mem \<times> delayedHeap) option" where
  "delayedHeap_Pop = slots_Pop dh_items (\<lambda>xs. dh_items_update (\<lambda>_. xs))"

lemmas readyHeap_methods =
  readyHeap_Len_def readyHeap_Less_def readyHeap_Swap_def readyHeap_Push_def readyHeap_Pop_def
lemmas delayedHeap_methods =
  delayedHeap_Len_def delayedHeap_Less_def delayedHeap_Swap_def delayedHeap_Push_def delayedHeap_Pop_def

text \<open>The calls \<^verbatim>\<open>heap.Push(&q.ready, x)\<close> and so on.\<close>

definition ready_push :: "mem \<times> readyHeap \<Rightarrow> ptr \<Rightarrow> (mem \<times> readyHeap) option" where
  "ready_push = heap_Push readyHeap_Len readyHeap_Less readyHeap_Swap readyHeap_Push"
definition ready_pop :: "mem \<times> readyHeap \<Rightarrow> (ptr \<times> mem \<times> readyHeap) option" where
  "ready_pop = heap_Pop readyHeap_Len readyHeap_Less readyHeap_Swap readyHeap_Pop"
definition ready_remove :: "mem \<times> readyHeap \<Rightarrow> nat \<Rightarrow> (ptr \<times> mem \<times> readyHeap) option" where
  "ready_remove = heap_Remove readyHeap_Len readyHeap_Less readyHeap_Swap readyHeap_Pop"
definition delayed_push :: "mem \<times> delayedHeap \<Rightarrow> ptr \<Rightarrow> (mem \<times> delayedHeap) option" where
  "delayed_push = heap_Push delayedHeap_Len delayedHeap_Less delayedHeap_Swap delayedHeap_Push"
definition delayed_pop :: "mem \<times> delayedHeap \<Rightarrow> (ptr \<times> mem \<times> delayedHeap) option" where
  "delayed_pop = heap_Pop delayedHeap_Len delayedHeap_Less delayedHeap_Swap delayedHeap_Pop"
definition delayed_remove :: "mem \<times> delayedHeap \<Rightarrow> nat \<Rightarrow> (ptr \<times> mem \<times> delayedHeap) option" where
  "delayed_remove = heap_Remove delayedHeap_Len delayedHeap_Less delayedHeap_Swap delayedHeap_Pop"

section \<open>The comparators are strict weak orders\<close>

definition entry_of :: "item \<Rightarrow> entry" where
  "entry_of it = (it_msg it, it_order it)"

definition item_of :: "entry \<Rightarrow> item" where
  "item_of e = \<lparr>it_msg = fst e, it_order = snd e, it_loc = inDelayed, it_index = 0\<rparr>"

definition ready_lt :: "QueueMode \<Rightarrow> entry \<Rightarrow> entry \<Rightarrow> bool" where
  "ready_lt mode a b = readyHeap_less mode (item_of a) (item_of b)"

definition delayed_lt :: "entry \<Rightarrow> entry \<Rightarrow> bool" where
  "delayed_lt a b = delayedHeap_less (item_of a) (item_of b)"

lemma entry_of_update [simp]:
  "entry_of (it\<lparr>it_index := i\<rparr>) = entry_of it" "entry_of (it\<lparr>it_loc := l\<rparr>) = entry_of it"
  by (simp_all add: entry_of_def)

lemma entry_of_simps [simp]:
  "fst (entry_of it) = it_msg it" "snd (entry_of it) = it_order it"
  by (simp_all add: entry_of_def)

lemma less_via_entries:
  "readyHeap_less mode a b = ready_lt mode (entry_of a) (entry_of b)"
  "delayedHeap_less a b = delayed_lt (entry_of a) (entry_of b)"
  by (simp_all add: ready_lt_def delayed_lt_def readyHeap_less_def delayedHeap_less_def item_of_def)

lemma ready_lt_lex:
  "ready_lt mode = lex_lt (\<lambda>e. - m_Priority (fst e))
     (if mode = ModeLIFO
      then lex_lt (\<lambda>e. - uint (m_Seq (fst e))) (\<lambda>a b. snd b < snd a)
      else lex_lt (\<lambda>e. m_Seq (fst e)) (\<lambda>a b. snd a < snd b))"
  by (intro ext) (auto simp: ready_lt_def readyHeap_less_def lex_lt_def item_of_def word_less_def word_uint_eq_iff)

lemma delayed_lt_lex:
  "delayed_lt = lex_lt (\<lambda>e. m_AvailableAt (fst e)) (\<lambda>a b. snd a < snd b)"
  by (intro ext) (simp add: delayed_lt_def delayedHeap_less_def lex_lt_def item_of_def)

lemma weak_order_ready: "weak_order (ready_lt mode)"
  unfolding ready_lt_lex
  by (auto intro!: weak_order_lex weak_order_key weak_order_key_desc)

lemma weak_order_delayed: "weak_order delayed_lt"
  unfolding delayed_lt_lex by (intro weak_order_lex weak_order_key)

text \<open>Entries with different arrival counters never tie, so the comparators are then total.\<close>

lemma ready_lt_total: "snd a \<noteq> snd b \<Longrightarrow> ready_lt mode a b \<or> ready_lt mode b a"
  by (auto simp: ready_lt_lex lex_lt_def)

lemma delayed_lt_total: "snd a \<noteq> snd b \<Longrightarrow> delayed_lt a b \<or> delayed_lt b a"
  by (auto simp: delayed_lt_lex lex_lt_def)

section \<open>A heap of items behind the interface\<close>

text \<open>Every item of the slice knows the heap it is in and its position there.\<close>

definition slots_ok :: "location \<Rightarrow> mem \<Rightarrow> ptr list \<Rightarrow> bool" where
  "slots_ok here m xs \<longleftrightarrow> distinct xs \<and>
     (\<forall>i<length xs. it_loc (m (xs ! i)) = here \<and> it_index (m (xs ! i)) = int i)"

definition slots_view :: "mem \<Rightarrow> ptr list \<Rightarrow> (ptr \<times> entry) list" where
  "slots_view m xs = map (\<lambda>p. (p, entry_of (m p))) xs"

text \<open>Two stores agree on the contents of all items, and entirely outside the set \<open>P\<close>.\<close>

definition same_entries :: "ptr set \<Rightarrow> mem \<Rightarrow> mem \<Rightarrow> bool" where
  "same_entries P m m' \<longleftrightarrow> (\<forall>p. entry_of (m' p) = entry_of (m p)) \<and> (\<forall>p. p \<notin> P \<longrightarrow> m' p = m p)"

lemma same_entries_refl: "same_entries P m m"
  by (simp add: same_entries_def)

lemma same_entries_trans:
  "same_entries P m m' \<Longrightarrow> same_entries Q m' m'' \<Longrightarrow> same_entries (P \<union> Q) m m''"
  by (auto simp: same_entries_def)

lemma same_entries_mono: "same_entries P m m' \<Longrightarrow> P \<subseteq> Q \<Longrightarrow> same_entries Q m m'"
  by (auto simp: same_entries_def)

lemma same_entriesD:
  "same_entries P m m' \<Longrightarrow> entry_of (m' p) = entry_of (m p)"
  "same_entries P m m' \<Longrightarrow> it_msg (m' p) = it_msg (m p)"
  "same_entries P m m' \<Longrightarrow> it_order (m' p) = it_order (m p)"
  "same_entries P m m' \<Longrightarrow> p \<notin> P \<Longrightarrow> m' p = m p"
  by (auto simp: same_entries_def entry_of_def)

lemma same_entries_view: "same_entries P m m' \<Longrightarrow> slots_view m' xs = slots_view m xs"
  by (simp add: slots_view_def same_entries_def)

lemma slots_ok_frame: "slots_ok here m xs \<Longrightarrow> same_entries P m m' \<Longrightarrow> P \<inter> set xs = {} \<Longrightarrow> slots_ok here m' xs"
  by (simp add: slots_ok_def same_entries_def) (metis disjoint_iff nth_mem)

lemma length_slots_view [simp]: "length (slots_view m xs) = length xs"
  by (simp add: slots_view_def)

lemma slots_view_nth [simp]: "i < length xs \<Longrightarrow> slots_view m xs ! i = (xs ! i, entry_of (m (xs ! i)))"
  by (simp add: slots_view_def)

lemma slots_view_butlast: "slots_view m (butlast xs) = butlast (slots_view m xs)"
  by (simp add: slots_view_def map_butlast)

lemma mset_slots_view:
  assumes "mset (slots_view m xs) = mset (slots_view m ys)"
  shows "mset xs = mset ys"
proof -
  have "image_mset fst (mset (slots_view m zs)) = mset zs" for zs
    by (simp add: slots_view_def flip: mset_map) (simp add: comp_def)
  then show ?thesis using assms by metis
qed

definition heap_order :: "(entry \<Rightarrow> entry \<Rightarrow> bool) \<Rightarrow> mem \<Rightarrow> ptr list \<Rightarrow> bool" where
  "heap_order lt m xs \<longleftrightarrow>
     (\<forall>k<length xs. 0 < k \<longrightarrow> \<not> lt (entry_of (m (xs ! k))) (entry_of (m (xs ! par k))))"

definition heap_good :: "location \<Rightarrow> (entry \<Rightarrow> entry \<Rightarrow> bool) \<Rightarrow> mem \<Rightarrow> ptr list \<Rightarrow> bool" where
  "heap_good here lt m xs \<longleftrightarrow> slots_ok here m xs \<and> heap_order lt m xs"

lemma heap_good_frame:
  "heap_good here lt m xs \<Longrightarrow> same_entries P m m' \<Longrightarrow> P \<inter> set xs = {} \<Longrightarrow> heap_good here lt m' xs"
  by (auto simp: heap_good_def heap_order_def same_entriesD intro: slots_ok_frame)

lemma slots_ok_update:
  assumes "slots_ok here m xs" "i < length xs" "j < length xs"
  shows "slots_ok here
    (m(xs ! j := (m (xs ! j))\<lparr>it_index := int i\<rparr>,
       xs ! i := ((m(xs ! j := (m (xs ! j))\<lparr>it_index := int i\<rparr>)) (xs ! i))\<lparr>it_index := int j\<rparr>))
    (swap_at xs i j)"
  using assms by (auto simp: slots_ok_def nth_swap_at nth_eq_iff_index_eq)

locale item_heap = weak_order lt
  for lt :: "entry \<Rightarrow> entry \<Rightarrow> bool" +
  fixes items :: "'h \<Rightarrow> ptr list"
    and put :: "ptr list \<Rightarrow> 'h \<Rightarrow> 'h"
    and wf :: "'h \<Rightarrow> bool"
    and lessM :: "'h \<Rightarrow> item \<Rightarrow> item \<Rightarrow> bool"
    and here :: location
  assumes items_put: "items (put xs h) = xs"
    and wf_put: "wf h \<Longrightarrow> wf (put xs h)"
    and lessM_lt: "wf h \<Longrightarrow> lessM h a b = lt (entry_of a) (entry_of b)"
begin

abbreviation "hview \<equiv> \<lambda>s. slots_view (fst s) (items (snd s))"
abbreviation "hinv \<equiv> \<lambda>s. wf (snd s) \<and> slots_ok here (fst s) (items (snd s))"
abbreviation "hframe \<equiv> \<lambda>s t. same_entries (set (items (snd s))) (fst s) (fst t) \<and>
  set (items (snd t)) = set (items (snd s))"

lemma Swap_ok:
  assumes "hinv s" "i < length (items (snd s))" "j < length (items (snd s))"
  shows "\<exists>s'. slots_Swap items put s i j = Some s' \<and> hinv s' \<and>
    hview s' = swap_at (hview s) i j \<and> hframe s s'"
proof -
  obtain m h where s: "s = (m, h)" by (cases s)
  let ?xs = "items h"
  let ?m1 = "m(?xs ! j := (m (?xs ! j))\<lparr>it_index := int i\<rparr>)"
  let ?m2 = "?m1(?xs ! i := (?m1 (?xs ! i))\<lparr>it_index := int j\<rparr>)"
  have b: "i < length ?xs" "j < length ?xs" using assms s by auto
  have same: "same_entries (set ?xs) m ?m2"
    using b by (auto simp: same_entries_def)
  have "slots_Swap items put s i j = Some (?m2, put (swap_at ?xs i j) h)"
    using b s by (simp add: slots_Swap_def Let_def nth_swap_at)
  moreover have "slots_ok here ?m2 (swap_at ?xs i j)"
    using assms s b by (intro slots_ok_update) auto
  moreover have "slots_view ?m2 (swap_at ?xs i j) = swap_at (slots_view m ?xs) i j"
    unfolding same_entries_view [OF same] by (simp add: slots_view_def map_swap_at b)
  ultimately show ?thesis
    using assms s b same by (auto simp: items_put wf_put)
qed

sublocale hi: heap_iface "\<lambda>a b. lt (snd a) (snd b)" "slots_Len items" "slots_Less items lessM"
  "slots_Swap items put" hview hinv hframe
proof unfold_locales
  fix s :: "mem \<times> 'h" and i j
  assume s: "hinv s"
  show "slots_Len items s = length (hview s)"
    by (cases s) (simp add: slots_Len_def)
  assume ij: "i < length (hview s)" "j < length (hview s)"
  then show "slots_Less items lessM s i j = Some (lt (snd (hview s ! i)) (snd (hview s ! j)))"
    using s by (cases s) (simp add: slots_Less_def lessM_lt)
  show "\<exists>s'. slots_Swap items put s i j = Some s' \<and> hinv s' \<and>
      hview s' = swap_at (hview s) i j \<and> hframe s s'"
    using Swap_ok [OF s] ij by simp
next
  fix s t u :: "mem \<times> 'h"
  show "hframe s s" by (simp add: same_entries_refl)
  assume "hframe s t" "hframe t u"
  then show "hframe s u" using same_entries_trans by fastforce
qed (use lt_irrefl lt_trans nlt_trans in blast)+

abbreviation "good \<equiv> \<lambda>m h. wf h \<and> heap_good here lt m (items h)"

lemma heap_on_view: "hi.heap_on (slots_view m xs) (length xs) = heap_order lt m xs"
  by (auto simp: hi.heap_on_def heap_order_def par_bound)

lemma set_of_view: "mset (slots_view m xs) = mset (slots_view m ys) \<Longrightarrow> set xs = set ys"
  by (metis mset_slots_view set_mset_mset)

theorem push_ok:
  assumes "good m h" "p \<notin> set (items h)"
  shows "\<exists>m' h'. heap_Push (slots_Len items) (slots_Less items lessM) (slots_Swap items put)
      (slots_Push items put here) (m, h) p = Some (m', h') \<and> good m' h' \<and>
    set (items h') = insert p (set (items h)) \<and> length (items h') = Suc (length (items h)) \<and>
    same_entries (insert p (set (items h))) m m'"
proof -
  let ?s1 = "slots_Push items put here (m, h) p" and ?xs = "items h"
  have fs: "fst ?s1 = m(p := (m p)\<lparr>it_loc := here, it_index := int (length ?xs)\<rparr>)"
      "items (snd ?s1) = ?xs @ [p]"
    by (simp_all add: slots_Push_def items_put)
  have same1: "same_entries {p} m (fst ?s1)"
    by (simp add: fs same_entries_def)
  have "slots_ok here (fst ?s1) (?xs @ [p])"
    using assms by (auto simp: slots_ok_def heap_good_def fs nth_append less_Suc_eq)
  then have inv1: "hinv ?s1"
    using assms(1) fs(2) by (simp add: slots_Push_def wf_put)
  have view1: "hview ?s1 = slots_view m ?xs @ [(p, entry_of (m p))]"
    unfolding fs(2) same_entries_view [OF same1] by (simp add: slots_view_def)
  obtain s' where s': "heap_Push (slots_Len items) (slots_Less items lessM) (slots_Swap items put)
      (slots_Push items put here) (m, h) p = Some s'" "hinv s'" "hframe ?s1 s'"
      "mset (hview s') = mset (slots_view m ?xs @ [(p, entry_of (m p))])"
      "hi.heap_on (hview s') (length (hview s'))"
    using hi.heap_Push_spec [of "slots_Push items put here" "(m, h)" p, OF inv1 view1] assms(1) heap_on_view [of m ?xs]
    by (auto simp: heap_good_def)
  obtain m' h' where mh: "s' = (m', h')" by (cases s')
  have set': "set (items h') = insert p (set ?xs)"
    using s'(3) mh fs(2) by simp
  have "same_entries (set (?xs @ [p])) (fst ?s1) m'"
    using s'(3) mh fs(2) by simp
  from same_entries_trans [OF same1 this]
  have "same_entries (insert p (set ?xs)) m m'" by (simp add: insert_absorb)
  moreover have "length (items h') = Suc (length ?xs)"
    using arg_cong [OF s'(4), of size] mh by simp
  ultimately show ?thesis
    using s' mh set' heap_on_view [of m' "items h'"] by (auto simp: heap_good_def)
qed

text \<open>Taking the last slot out of a sifted heap, the tail of both \<open>heap_Pop\<close> and \<open>heap_Remove\<close>.\<close>

lemma take_out:
  assumes "good m h" "i < length (items h)" "hi.sifted (m, h) i s2"
  shows "\<exists>m' h'. slots_Pop items put s2 = Some (items h ! i, m', h') \<and> good m' h' \<and>
    set (items h') = set (items h) - {items h ! i} \<and> length (items h') = length (items h) - 1 \<and>
    same_entries (set (items h)) m m'"
proof -
  obtain m2 h2 where s2: "s2 = (m2, h2)" by (cases s2)
  let ?xs = "items h" and ?ys = "items h2"
  have sf: "wf h2" "slots_ok here m2 ?ys" "same_entries (set ?xs) m m2" "set ?ys = set ?xs"
      "mset (slots_view m2 ?ys) = mset (slots_view m ?xs)"
      "last (slots_view m2 ?ys) = slots_view m ?xs ! i"
      "hi.heap_on (butlast (slots_view m2 ?ys)) (length ?xs - 1)"
    using assms(3) s2 by (auto simp: hi.sifted_def)
  have len: "length ?ys = length ?xs"
    using arg_cong [OF sf(5), of size] by simp
  then have ne: "?ys \<noteq> []" using assms(2) by auto
  have last: "last ?ys = ?xs ! i"
    using sf(6) assms(2) ne by (simp add: slots_view_def last_map)
  let ?m' = "m2(last ?ys := (m2 (last ?ys))\<lparr>it_index := -1\<rparr>)"
  have same: "same_entries {last ?ys} m2 ?m'"
    by (simp add: same_entries_def)
  have ysd: "distinct ?ys" "?ys = butlast ?ys @ [last ?ys]"
    using sf(2) ne by (auto simp: slots_ok_def)
  then have notin: "last ?ys \<notin> set (butlast ?ys)"
    by (metis distinct_append disjoint_insert(1) list.simps(15))
  have "slots_ok here m2 (butlast ?ys)"
    using sf(2) by (auto simp: slots_ok_def nth_butlast distinct_butlast)
  moreover have "heap_order lt m2 (butlast ?ys)"
    using sf(7) heap_on_view [of m2 "butlast ?ys"] len by (simp add: slots_view_butlast)
  ultimately have good': "heap_good here lt ?m' (butlast ?ys)"
    using notin by (intro heap_good_frame [OF _ same]) (auto simp: heap_good_def)
  have "set (butlast ?ys) = set ?xs - {?xs ! i}"
    using ysd notin sf(4) last by (metis Diff_insert_absorb Un_insert_right append.right_neutral
        list.simps(15) set_append sup_bot.right_neutral empty_set)
  moreover have "same_entries (set ?xs) m ?m'"
    using same_entries_trans [OF sf(3) same] last assms(2) by (simp add: insert_absorb)
  ultimately show ?thesis
    using s2 ne good' sf(1) last len by (simp add: slots_Pop_def items_put wf_put Let_def)
qed

theorem pop_ok:
  assumes "good m h" "items h \<noteq> []"
  shows "\<exists>m' h'. heap_Pop (slots_Len items) (slots_Less items lessM) (slots_Swap items put)
      (slots_Pop items put) (m, h) = Some (items h ! 0, m', h') \<and> good m' h' \<and>
    set (items h') = set (items h) - {items h ! 0} \<and> length (items h') = length (items h) - 1 \<and>
    same_entries (set (items h)) m m'"
proof -
  have "\<exists>s2. heap_Pop (slots_Len items) (slots_Less items lessM) (slots_Swap items put)
      (slots_Pop items put) (m, h) = slots_Pop items put s2 \<and> hi.sifted (m, h) 0 s2"
    using assms heap_on_view [of m "items h"]
    by (intro hi.heap_Pop_spec) (auto simp: heap_good_def slots_view_def)
  then show ?thesis using take_out [OF assms(1)] assms(2) by fastforce
qed

theorem remove_ok:
  assumes "good m h" "i < length (items h)"
  shows "\<exists>m' h'. heap_Remove (slots_Len items) (slots_Less items lessM) (slots_Swap items put)
      (slots_Pop items put) (m, h) i = Some (items h ! i, m', h') \<and> good m' h' \<and>
    set (items h') = set (items h) - {items h ! i} \<and> length (items h') = length (items h) - 1 \<and>
    same_entries (set (items h)) m m'"
proof -
  have "\<exists>s2. heap_Remove (slots_Len items) (slots_Less items lessM) (slots_Swap items put)
      (slots_Pop items put) (m, h) i = slots_Pop items put s2 \<and> hi.sifted (m, h) i s2"
    using assms heap_on_view [of m "items h"]
    by (intro hi.heap_Remove_spec) (auto simp: heap_good_def)
  then show ?thesis using take_out [OF assms] by fastforce
qed

text \<open>The element in slot 0 is a least one.\<close>

lemma root_least:
  assumes "heap_good here lt m (items h)" "p \<in> set (items h)"
  shows "\<not> lt (entry_of (m p)) (entry_of (m (items h ! 0)))"
proof -
  obtain k where k: "k < length (items h)" "items h ! k = p"
    using assms(2) by (metis in_set_conv_nth)
  have "hi.heap_on (slots_view m (items h)) (length (items h))"
    using assms(1) heap_on_view by (simp add: heap_good_def)
  from hi.heap_on_root_min [OF this k(1)] k show ?thesis
    by (cases "items h") auto
qed

end

interpretation rh: item_heap "ready_lt mode" "rh_items :: readyHeap \<Rightarrow> ptr list" "\<lambda>xs. rh_items_update (\<lambda>_. xs)"
  "\<lambda>h. rh_mode h = mode" "\<lambda>h. readyHeap_less (rh_mode h)" inReady for mode
  by (intro item_heap.intro weak_order_ready item_heap_axioms.intro) (auto simp: less_via_entries)

interpretation dh: item_heap delayed_lt "dh_items :: delayedHeap \<Rightarrow> ptr list" "\<lambda>xs. dh_items_update (\<lambda>_. xs)"
  "\<lambda>h. True" "\<lambda>h. delayedHeap_less" inDelayed
  by (intro item_heap.intro weak_order_delayed item_heap_axioms.intro) (auto simp: less_via_entries)

lemmas ready_ops = ready_push_def ready_pop_def ready_remove_def readyHeap_methods
lemmas delayed_ops = delayed_push_def delayed_pop_def delayed_remove_def delayedHeap_methods

lemmas ready_push_ok [heap_laws] = rh.push_ok [folded readyHeap_methods, folded ready_push_def]
lemmas ready_pop_ok [heap_laws] = rh.pop_ok [folded readyHeap_methods, folded ready_pop_def]
lemmas ready_remove_ok [heap_laws] = rh.remove_ok [folded readyHeap_methods, folded ready_remove_def]
lemmas delayed_push_ok [heap_laws] =
  dh.push_ok [simplified, folded delayedHeap_methods, folded delayed_push_def]
lemmas delayed_pop_ok [heap_laws] =
  dh.pop_ok [unfolded simp_thms, folded delayedHeap_methods, folded delayed_pop_def]
lemmas delayed_remove_ok [heap_laws] =
  dh.remove_ok [unfolded simp_thms, folded delayedHeap_methods, folded delayed_remove_def]

text \<open>Every successful pop shortens the slice, whatever state the heap is in.\<close>

lemma delayed_pop_shorter:
  assumes "delayed_pop (m, d) = Some (p, m', d')"
  shows "length (dh_items d') < length (dh_items d)"
proof -
  let ?n = "\<lambda>s :: mem \<times> delayedHeap. length (dh_items (snd s))"
  have swap: "?n s' = ?n s" if "delayedHeap_Swap s i j = Some s'" for s s' i j
    using that by (cases s) (auto simp: delayedHeap_Swap_def slots_Swap_def Let_def split: if_splits)
  have "\<exists>s2. ?n s2 = ?n (m, d) \<and> delayedHeap_Pop s2 = Some (p, m', d')"
    by (rule heap_Pop_via [where f = ?n, OF assms [unfolded delayed_pop_def]]) (rule swap)
  then obtain s2 where "?n s2 = ?n (m, d)" "delayedHeap_Pop s2 = Some (p, m', d')"
    by blast
  then show ?thesis
    by (cases s2)
      (auto simp: delayedHeap_Pop_def slots_Pop_def Let_def simp flip: length_greater_0_conv
        split: if_splits)
qed

end
