(* ===== verification/Engine.thy ===== *)
theory Engine
  imports ItemHeap "HOL-Library.AList"
begin

text \<open>
  Package \<^verbatim>\<open>engine\<close> (\<^verbatim>\<open>src/pkg/engine/queue.go\<close>): \<open>FrankensteinQueue\<close> and its operations.

  \<open>q_mem\<close> is the store of items, \<open>q_next_ptr\<close> the next address to hand out, and the index
  \<^verbatim>\<open>byID\<close> is an association list.  Every operation runs under the queue's mutex from its first
  to its last line, so it is one atomic function of the queue.  A result \<^const>\<open>None\<close> is a panic;
  the theorems show that none is reachable.

  \<open>q_inv\<close> is the representation invariant and \<open>q_abs\<close> the contents of the queue as a partial map
  from IDs to messages with their arrival counter, the specification the operations refine.
\<close>

section \<open>The queue and its operations\<close>

record FrankensteinQueue =
  q_mem :: mem
  q_next_ptr :: ptr
  q_ready :: readyHeap
  q_delayed :: delayedHeap
  q_byID :: "(string \<times> ptr) list"
  q_nextOrder :: uint64

definition zero_item :: item where
  "zero_item = \<lparr>it_msg = \<lparr>m_ID = '''', m_Seq = 0, m_Payload = '''', m_Priority = 0, m_EnqueuedAt = 0,
     m_AvailableAt = 0, m_Status = ''''\<rparr>, it_order = 0, it_loc = inDelayed, it_index = 0\<rparr>"

definition NewFrankensteinQueue :: "QueueMode \<Rightarrow> mode_error + FrankensteinQueue" where
  "NewFrankensteinQueue mode =
     (if \<not> Valid mode then Inl (InvalidQueueMode mode)
      else Inr \<lparr>q_mem = (\<lambda>_. zero_item), q_next_ptr = 0,
                 q_ready = \<lparr>rh_mode = mode, rh_items = []\<rparr>, q_delayed = \<lparr>dh_items = []\<rparr>,
                 q_byID = [], q_nextOrder = 0\<rparr>)"

definition Mode :: "FrankensteinQueue \<Rightarrow> QueueMode" where
  "Mode q = rh_mode (q_ready q)"

definition Push :: "FrankensteinQueue \<Rightarrow> Message \<Rightarrow> FrankensteinQueue option" where
  "Push q msg =
     (case map_of (q_byID q) (m_ID msg) of
        Some _ \<Rightarrow> Some q
      | None \<Rightarrow> do {
          let p = q_next_ptr q;
          let it = zero_item\<lparr>it_msg := msg, it_order := q_nextOrder q\<rparr>;
          (m, d) \<leftarrow> delayed_push ((q_mem q)(p := it), q_delayed q) p;
          Some (q\<lparr>q_mem := m, q_next_ptr := Suc p, q_delayed := d,
                  q_nextOrder := q_nextOrder q + 1,
                  q_byID := AList.update (m_ID msg) p (q_byID q)\<rparr>)
        })"

function promote_loop ::
    "go_time \<Rightarrow> mem \<Rightarrow> readyHeap \<Rightarrow> delayedHeap \<Rightarrow> (mem \<times> readyHeap \<times> delayedHeap) option" where
  "promote_loop now m r d =
     (case dh_items d of
        [] \<Rightarrow> Some (m, r, d)
      | front # _ \<Rightarrow>
          if \<not> Available (it_msg (m front)) now then Some (m, r, d)
          else do {
            (_, m1, d1) \<leftarrow> delayed_pop (m, d);
            (m2, r1) \<leftarrow> ready_push (m1, r) front;
            promote_loop now m2 r1 d1
          })"
  by pat_completeness auto
termination
  by (relation "measure (\<lambda>(_, _, _, d). length (dh_items d))") (auto dest: delayed_pop_shorter)

declare promote_loop.simps [simp del]

definition promoteLocked :: "FrankensteinQueue \<Rightarrow> go_time \<Rightarrow> FrankensteinQueue option" where
  "promoteLocked q now = do {
     (m, r, d) \<leftarrow> promote_loop now (q_mem q) (q_ready q) (q_delayed q);
     Some (q\<lparr>q_mem := m, q_ready := r, q_delayed := d\<rparr>)
   }"

definition Pop :: "FrankensteinQueue \<Rightarrow> go_time \<Rightarrow> (Message option \<times> FrankensteinQueue) option" where
  "Pop q now = do {
     q1 \<leftarrow> promoteLocked q now;
     if rh_items (q_ready q1) = [] then Some (None, q1)
     else do {
       (p, m, r) \<leftarrow> ready_pop (q_mem q1, q_ready q1);
       let msg = it_msg (m p);
       Some (Some msg, q1\<lparr>q_mem := m, q_ready := r, q_byID := AList.delete (m_ID msg) (q_byID q1)\<rparr>)
     }
   }"

definition Peek :: "FrankensteinQueue \<Rightarrow> go_time \<Rightarrow> (Message option \<times> FrankensteinQueue) option" where
  "Peek q now = do {
     q1 \<leftarrow> promoteLocked q now;
     (case rh_items (q_ready q1) of
        [] \<Rightarrow> Some (None, q1)
      | p # _ \<Rightarrow> Some (Some (it_msg (q_mem q1 p)), q1))
   }"

definition Len :: "FrankensteinQueue \<Rightarrow> nat" where
  "Len q = length (q_byID q)"

definition AvailableLen :: "FrankensteinQueue \<Rightarrow> go_time \<Rightarrow> (nat \<times> FrankensteinQueue) option" where
  "AvailableLen q now = do {
     q1 \<leftarrow> promoteLocked q now;
     Some (length (rh_items (q_ready q1)), q1)
   }"

definition Remove :: "FrankensteinQueue \<Rightarrow> string \<Rightarrow> (bool \<times> FrankensteinQueue) option" where
  "Remove q mid =
     (case map_of (q_byID q) mid of
        None \<Rightarrow> Some (False, q)
      | Some p \<Rightarrow>
          let it = q_mem q p;
              q1 = q\<lparr>q_byID := AList.delete mid (q_byID q)\<rparr>
          in if it_index it < 0 then None
             else (case it_loc it of
                 inReady \<Rightarrow> do {
                   (_, m, r) \<leftarrow> ready_remove (q_mem q1, q_ready q1) (nat (it_index it));
                   Some (True, q1\<lparr>q_mem := m, q_ready := r\<rparr>)
                 }
               | inDelayed \<Rightarrow> do {
                   (_, m, d) \<leftarrow> delayed_remove (q_mem q1, q_delayed q1) (nat (it_index it));
                   Some (True, q1\<lparr>q_mem := m, q_delayed := d\<rparr>)
                 }))"

record View =
  vw_Ready :: "Message list"
  vw_Delayed :: "Message list"
  vw_ReadyTruncated :: bool
  vw_DelayedTruncated :: bool
  vw_ReadyLen :: nat
  vw_DelayedLen :: nat

definition orderedMessages ::
    "mem \<Rightarrow> ptr list \<Rightarrow> (item \<Rightarrow> item \<Rightarrow> bool) \<Rightarrow> int \<Rightarrow> Message list \<times> bool" where
  "orderedMessages m xs lessM limit =
     (if xs = [] then ([], False)
      else
        let srt = SortFunc (\<lambda>a b. if lessM (m a) (m b) then -1
                                     else if lessM (m b) (m a) then 1 else 0) xs;
            cut = limit > 0 \<and> int (length srt) > limit;
            kept = (if cut then take (nat limit) srt else srt)
        in (map (\<lambda>p. it_msg (m p)) kept, cut))"

definition Snapshot :: "FrankensteinQueue \<Rightarrow> go_time \<Rightarrow> int \<Rightarrow> (View \<times> FrankensteinQueue) option" where
  "Snapshot q now limit = do {
     q1 \<leftarrow> promoteLocked q now;
     let (ready, readyTruncated) =
       orderedMessages (q_mem q1) (rh_items (q_ready q1)) (readyHeap_less (Mode q1)) limit;
     let (delayed, delayedTruncated) =
       orderedMessages (q_mem q1) (dh_items (q_delayed q1)) delayedHeap_less limit;
     Some (\<lparr>vw_Ready = ready, vw_Delayed = delayed,
            vw_ReadyTruncated = readyTruncated, vw_DelayedTruncated = delayedTruncated,
            vw_ReadyLen = length (rh_items (q_ready q1)),
            vw_DelayedLen = length (dh_items (q_delayed q1))\<rparr>, q1)
   }"
section \<open>The representation invariant and the abstract contents\<close>

abbreviation ready_ptrs :: "FrankensteinQueue \<Rightarrow> ptr set" where
  "ready_ptrs q \<equiv> set (rh_items (q_ready q))"

abbreviation delayed_ptrs :: "FrankensteinQueue \<Rightarrow> ptr set" where
  "delayed_ptrs q \<equiv> set (dh_items (q_delayed q))"

definition index_ok :: "(string \<times> ptr) list \<Rightarrow> mem \<Rightarrow> ptr set \<Rightarrow> bool" where
  "index_ok ix m P \<longleftrightarrow> distinct (map fst ix) \<and>
     (\<forall>mid p. map_of ix mid = Some p \<longleftrightarrow> p \<in> P \<and> m_ID (it_msg (m p)) = mid)"

definition q_inv :: "FrankensteinQueue \<Rightarrow> bool" where
  "q_inv q \<longleftrightarrow>
     heap_good inReady (ready_lt (Mode q)) (q_mem q) (rh_items (q_ready q)) \<and>
     heap_good inDelayed delayed_lt (q_mem q) (dh_items (q_delayed q)) \<and>
     ready_ptrs q \<inter> delayed_ptrs q = {} \<and>
     (\<forall>p \<in> ready_ptrs q \<union> delayed_ptrs q. p < q_next_ptr q) \<and>
     index_ok (q_byID q) (q_mem q) (ready_ptrs q \<union> delayed_ptrs q)"

definition q_abs :: "FrankensteinQueue \<Rightarrow> string \<rightharpoonup> entry" where
  "q_abs q = (\<lambda>mid. map_option (\<lambda>p. entry_of (q_mem q p)) (map_of (q_byID q) mid))"

lemma q_invD:
  assumes "q_inv q"
  shows "heap_good inReady (ready_lt (Mode q)) (q_mem q) (rh_items (q_ready q))"
    and "heap_good inDelayed delayed_lt (q_mem q) (dh_items (q_delayed q))"
    and "ready_ptrs q \<inter> delayed_ptrs q = {}"
    and "p \<in> ready_ptrs q \<union> delayed_ptrs q \<Longrightarrow> p < q_next_ptr q"
    and "index_ok (q_byID q) (q_mem q) (ready_ptrs q \<union> delayed_ptrs q)"
  using assms by (auto simp: q_inv_def)

lemma heap_good_distinct: "heap_good here lt m xs \<Longrightarrow> distinct xs"
  by (simp add: heap_good_def slots_ok_def)

lemma heap_good_cong_lt: "heap_good here lt m xs \<Longrightarrow> lt = lt' \<Longrightarrow> heap_good here lt' m xs"
  by simp

lemma index_ok_same: "index_ok ix m P \<Longrightarrow> same_entries Q m m' \<Longrightarrow> index_ok ix m' P"
  by (simp add: index_ok_def same_entriesD)

lemma index_ok_update:
  assumes "index_ok ix m P" "map_of ix mid = None" "p \<notin> P" "m_ID (it_msg (m' p)) = mid"
    and "\<And>p'. p' \<in> P \<Longrightarrow> it_msg (m' p') = it_msg (m p')"
  shows "index_ok (AList.update mid p ix) m' (insert p P)"
  using assms unfolding index_ok_def
  by (auto simp: AList.update_conv' AList.distinct_update)

lemma index_ok_delete:
  assumes "index_ok ix m P" "map_of ix mid = Some p"
  shows "index_ok (AList.delete mid ix) m (P - {p})"
proof -
  have uniq: "map_of ix mid' = Some p' \<longleftrightarrow> p' \<in> P \<and> m_ID (it_msg (m p')) = mid'" for mid' p'
    using assms(1) by (simp add: index_ok_def)
  have "map_of (AList.delete mid ix) mid' = Some p' \<longleftrightarrow>
      p' \<in> P - {p} \<and> m_ID (it_msg (m p')) = mid'" for mid' p'
    using assms(2) uniq [of mid' p'] uniq [of mid p'] uniq [of mid p]
    by (auto simp: AList.delete_conv' simp del: map_of_eq_Some_iff)
  then show ?thesis
    using assms(1) unfolding index_ok_def by (simp add: AList.distinct_delete)
qed

lemma index_ok_value: "index_ok ix m P \<Longrightarrow> p \<in> P \<Longrightarrow> map_of ix (m_ID (it_msg (m p))) = Some p"
  by (simp add: index_ok_def)

lemma q_abs_eq:
  assumes "q_inv q"
  shows "q_abs q mid = Some e \<longleftrightarrow>
    (\<exists>p \<in> ready_ptrs q \<union> delayed_ptrs q. entry_of (q_mem q p) = e \<and> m_ID (fst e) = mid)"
  using q_invD(5) [OF assms] unfolding index_ok_def q_abs_def by auto

lemma ran_q_abs:
  "q_inv q \<Longrightarrow> ran (q_abs q) = (\<lambda>p. entry_of (q_mem q p)) ` (ready_ptrs q \<union> delayed_ptrs q)"
  by (auto simp: ran_def q_abs_eq image_iff Bex_def) metis+

lemma dom_q_abs: "dom (q_abs q) = fst ` set (q_byID q)"
  by (auto simp: q_abs_def dom_def map_of_eq_None_iff)

lemma Len_card: "q_inv q \<Longrightarrow> Len q = card (dom (q_abs q))"
  using q_invD(5) by (simp add: Len_def dom_q_abs index_ok_def distinct_card [of "map fst _", simplified])

lemma card_ptrs:
  assumes "q_inv q"
  shows "Len q = length (rh_items (q_ready q)) + length (dh_items (q_delayed q))"
proof -
  let ?P = "ready_ptrs q \<union> delayed_ptrs q"
  have ix: "index_ok (q_byID q) (q_mem q) ?P" using assms by (rule q_invD)
  have "inj_on (\<lambda>p. m_ID (it_msg (q_mem q p))) ?P"
    using index_ok_value [OF ix] by (metis (no_types, lifting) inj_onI option.inject)
  moreover have "(\<lambda>p. m_ID (it_msg (q_mem q p))) ` ?P = fst ` set (q_byID q)"
    unfolding dom_map_of_conv_image_fst [symmetric] dom_def using ix
    by (auto simp: index_ok_def simp del: map_of_eq_Some_iff)
  ultimately have "bij_betw (\<lambda>p. m_ID (it_msg (q_mem q p))) ?P (fst ` set (q_byID q))"
    by (simp add: bij_betw_def)
  then have "card ?P = card (fst ` set (q_byID q))" by (rule bij_betw_same_card)
  moreover have "card (fst ` set (q_byID q)) = length (q_byID q)"
    using ix distinct_card [of "map fst (q_byID q)"] by (simp add: index_ok_def)
  ultimately show ?thesis
    using heap_good_distinct [OF q_invD(1) [OF assms]] heap_good_distinct [OF q_invD(2) [OF assms]]
      q_invD(3) [OF assms] by (simp add: Len_def card_Un_disjoint distinct_card)
qed

section \<open>Promotion\<close>

text \<open>One round of the loop: the front of the delayed heap moves to the ready heap.\<close>

lemma promote_step:
  assumes r: "heap_good inReady (ready_lt (rh_mode r)) m (rh_items r)" and d: "heap_good inDelayed delayed_lt m (dh_items d)"
    and disj: "set (rh_items r) \<inter> set (dh_items d) = {}" and front: "dh_items d = front # rest"
  shows "\<exists>m1 d1 m2 r1. delayed_pop (m, d) = Some (front, m1, d1) \<and> ready_push (m1, r) front = Some (m2, r1) \<and>
    rh_mode r1 = rh_mode r \<and> heap_good inReady (ready_lt (rh_mode r)) m2 (rh_items r1) \<and>
    heap_good inDelayed delayed_lt m2 (dh_items d1) \<and> length (dh_items d1) < length (dh_items d) \<and>
    set (rh_items r1) = insert front (set (rh_items r)) \<and> set (dh_items d1) = set (dh_items d) - {front} \<and>
    same_entries (set (rh_items r) \<union> set (dh_items d)) m m2"
proof -
  obtain m1 d1 where p1: "delayed_pop (m, d) = Some (front, m1, d1)"
      "heap_good inDelayed delayed_lt m1 (dh_items d1)"
      "set (dh_items d1) = set (dh_items d) - {front}" "length (dh_items d1) < length (dh_items d)"
      "same_entries (set (dh_items d)) m m1"
    using delayed_pop_ok [OF d] front by auto
  have "heap_good inReady (ready_lt (rh_mode r)) m1 (rh_items r)"
    using heap_good_frame [OF r p1(5)] disj by (simp add: Int_commute)
  moreover have "front \<notin> set (rh_items r)"
    using disj front by auto
  ultimately obtain m2 r1 where p2: "ready_push (m1, r) front = Some (m2, r1)"
      "rh_mode r1 = rh_mode r" "heap_good inReady (ready_lt (rh_mode r)) m2 (rh_items r1)"
      "set (rh_items r1) = insert front (set (rh_items r))"
      "same_entries (insert front (set (rh_items r))) m1 m2"
    using ready_push_ok [of r "rh_mode r" m1 front] by auto
  have "heap_good inDelayed delayed_lt m2 (dh_items d1)"
    using heap_good_frame [OF p1(2) p2(5)] p1(3) disj by auto
  moreover have "same_entries (set (rh_items r) \<union> set (dh_items d)) m m2"
    using same_entries_trans [OF p1(5) p2(5)] front by (auto elim!: same_entries_mono)
  ultimately show ?thesis
    using p1 p2 by auto
qed

lemma promote_loop_spec:
  assumes "heap_good inReady (ready_lt (rh_mode r)) m (rh_items r)"
    and "heap_good inDelayed delayed_lt m (dh_items d)"
    and "set (rh_items r) \<inter> set (dh_items d) = {}"
  shows "\<exists>m' r' d'. promote_loop now m r d = Some (m', r', d') \<and> rh_mode r' = rh_mode r \<and>
    heap_good inReady (ready_lt (rh_mode r)) m' (rh_items r') \<and>
    heap_good inDelayed delayed_lt m' (dh_items d') \<and>
    same_entries (set (rh_items r) \<union> set (dh_items d)) m m' \<and>
    set (rh_items r') = set (rh_items r) \<union> {p \<in> set (dh_items d). Available (it_msg (m p)) now} \<and>
    set (dh_items d') = {p \<in> set (dh_items d). \<not> Available (it_msg (m p)) now}"
  using assms
proof (induction "length (dh_items d)" arbitrary: m r d rule: less_induct)
  case less
  show ?case
  proof (cases "dh_items d")
    case Nil
    then show ?thesis
      using less.prems by (simp add: promote_loop.simps [of now m r d] same_entries_refl)
  next
    case (Cons front rest)
    show ?thesis
    proof (cases "Available (it_msg (m front)) now")
      case False
      have "\<not> Available (it_msg (m p)) now" if "p \<in> set (dh_items d)" for p
        using dh.root_least [OF less.prems(2) that] False Cons
        by (auto simp: delayed_lt_lex lex_lt_def Available_iff split: if_splits)
      then have "{p \<in> set (dh_items d). Available (it_msg (m p)) now} = {}"
        and "{p \<in> set (dh_items d). \<not> Available (it_msg (m p)) now} = set (dh_items d)"
        by auto
      moreover have "promote_loop now m r d = Some (m, r, d)"
        using False Cons by (simp add: promote_loop.simps [of now m r d])
      ultimately show ?thesis
        using less.prems same_entries_refl by auto
    next
      case True
      obtain m1 d1 m2 r1 where st: "delayed_pop (m, d) = Some (front, m1, d1)" "ready_push (m1, r) front = Some (m2, r1)"
          "rh_mode r1 = rh_mode r" "heap_good inReady (ready_lt (rh_mode r)) m2 (rh_items r1)"
          "heap_good inDelayed delayed_lt m2 (dh_items d1)" "length (dh_items d1) < length (dh_items d)"
          "set (rh_items r1) = insert front (set (rh_items r))" "set (dh_items d1) = set (dh_items d) - {front}"
          "same_entries (set (rh_items r) \<union> set (dh_items d)) m m2"
        using promote_step [OF less.prems Cons] by blast
      have disj: "set (rh_items r1) \<inter> set (dh_items d1) = {}"
        using st(7,8) less.prems(3) by auto
      obtain m' r' d' where ih: "promote_loop now m2 r1 d1 = Some (m', r', d')"
          "rh_mode r' = rh_mode r1" "heap_good inReady (ready_lt (rh_mode r1)) m' (rh_items r')"
          "heap_good inDelayed delayed_lt m' (dh_items d')"
          "same_entries (set (rh_items r1) \<union> set (dh_items d1)) m2 m'"
          "set (rh_items r') = set (rh_items r1) \<union> {p \<in> set (dh_items d1). Available (it_msg (m2 p)) now}"
          "set (dh_items d') = {p \<in> set (dh_items d1). \<not> Available (it_msg (m2 p)) now}"
        using less.hyps [OF st(6), of r1 m2] st(3,4,5) disj by auto
      have fr: "front \<in> set (dh_items d)" using Cons by simp
      have msg: "it_msg (m2 p) = it_msg (m p)" for p
        using same_entriesD(2) [OF st(9)] .
      have "same_entries (set (rh_items r) \<union> set (dh_items d)) m m'"
        using same_entries_trans [OF st(9) ih(5)] st(7,8) fr by (auto elim!: same_entries_mono)
      moreover have "promote_loop now m r d = Some (m', r', d')"
        using st(1,2) ih(1) Cons True by (simp add: promote_loop.simps [of now m r d])
      ultimately show ?thesis
        using ih st(3,7,8) True fr by (auto simp: msg)
    qed
  qed
qed
text \<open>
  What promotion does to a queue: nothing to its contents, and every delayed message that has
  matured moves over to the ready heap.
\<close>

definition promoted :: "FrankensteinQueue \<Rightarrow> go_time \<Rightarrow> FrankensteinQueue \<Rightarrow> bool" where
  "promoted q now q1 \<longleftrightarrow> q_inv q1 \<and> q_abs q1 = q_abs q \<and> Mode q1 = Mode q \<and>
     q_nextOrder q1 = q_nextOrder q \<and> q_byID q1 = q_byID q \<and>
     (\<forall>p. entry_of (q_mem q1 p) = entry_of (q_mem q p)) \<and>
     ready_ptrs q1 = ready_ptrs q \<union> {p \<in> delayed_ptrs q. Available (it_msg (q_mem q p)) now} \<and>
     delayed_ptrs q1 = {p \<in> delayed_ptrs q. \<not> Available (it_msg (q_mem q p)) now}"

lemma promoteLocked_ok:
  assumes "q_inv q"
  shows "\<exists>q1. promoteLocked q now = Some q1 \<and> promoted q now q1"
proof -
  note inv = q_invD [OF assms]
  obtain m r d where l: "promote_loop now (q_mem q) (q_ready q) (q_delayed q) = Some (m, r, d)"
      "rh_mode r = Mode q" "heap_good inReady (ready_lt (Mode q)) m (rh_items r)"
      "heap_good inDelayed delayed_lt m (dh_items d)"
      "same_entries (ready_ptrs q \<union> delayed_ptrs q) (q_mem q) m"
      "set (rh_items r) = ready_ptrs q \<union> {p \<in> delayed_ptrs q. Available (it_msg (q_mem q p)) now}"
      "set (dh_items d) = {p \<in> delayed_ptrs q. \<not> Available (it_msg (q_mem q p)) now}"
    using promote_loop_spec [OF inv(1) [unfolded Mode_def] inv(2,3), of now] unfolding Mode_def by blast
  let ?q1 = "q\<lparr>q_mem := m, q_ready := r, q_delayed := d\<rparr>"
  have un: "set (rh_items r) \<union> set (dh_items d) = ready_ptrs q \<union> delayed_ptrs q"
    using l(6,7) by auto
  have "q_inv ?q1"
    unfolding q_inv_def using l inv(3,4) un index_ok_same [OF inv(5) l(5)]
    by (auto simp: Mode_def)
  moreover have "q_abs ?q1 = q_abs q"
    using l(5) by (simp add: q_abs_def same_entriesD)
  ultimately have "promoted q now ?q1"
    using l by (simp add: promoted_def same_entriesD Mode_def)
  then show ?thesis using l(1) by (auto simp: promoteLocked_def)
qed

text \<open>
  The clock contract: everything in the ready heap had matured at time \<open>t\<close>.  Promotion at a later
  \<open>now\<close> then leaves exactly the visible messages in the ready heap.
\<close>

definition matured :: "FrankensteinQueue \<Rightarrow> go_time \<Rightarrow> bool" where
  "matured q t \<longleftrightarrow> (\<forall>p \<in> ready_ptrs q. Available (it_msg (q_mem q p)) t)"

definition visible :: "(string \<rightharpoonup> entry) \<Rightarrow> go_time \<Rightarrow> entry set" where
  "visible c now = {e \<in> ran c. m_AvailableAt (fst e) \<le> now}"

definition hidden :: "(string \<rightharpoonup> entry) \<Rightarrow> go_time \<Rightarrow> entry set" where
  "hidden c now = {e \<in> ran c. now < m_AvailableAt (fst e)}"

lemma matured_mono: "matured q t \<Longrightarrow> t \<le> now \<Longrightarrow> matured q now"
  by (auto simp: matured_def Available_iff)

lemma promoted_matured:
  assumes "promoted q now q1" "matured q t" "t \<le> now"
  shows "matured q1 now"
  using assms matured_mono [OF assms(2,3)] unfolding promoted_def matured_def
  by (metis (no_types, lifting) Un_iff entry_of_simps(1) mem_Collect_eq)

lemma promoted_visible:
  assumes "q_inv q" "promoted q now q1" "matured q t" "t \<le> now"
  shows "(\<lambda>p. entry_of (q_mem q1 p)) ` ready_ptrs q1 = visible (q_abs q) now"
    and "(\<lambda>p. entry_of (q_mem q1 p)) ` delayed_ptrs q1 = hidden (q_abs q) now"
proof -
  have m: "it_msg (q_mem q1 p) = it_msg (q_mem q p)" for p
    using assms(2) by (metis entry_of_simps(1) promoted_def)
  have r: "m_AvailableAt (it_msg (q_mem q1 p)) \<le> now" if "p \<in> ready_ptrs q1" for p
    using promoted_matured [OF assms(2-4)] that by (simp add: matured_def Available_iff)
  have d: "now < m_AvailableAt (it_msg (q_mem q1 p))" if "p \<in> delayed_ptrs q1" for p
    using assms(2) that m by (auto simp: promoted_def Available_iff)
  have ran: "ran (q_abs q) = (\<lambda>p. entry_of (q_mem q1 p)) ` (ready_ptrs q1 \<union> delayed_ptrs q1)"
    using ran_q_abs [of q1] assms(2) by (simp add: promoted_def)
  show "(\<lambda>p. entry_of (q_mem q1 p)) ` ready_ptrs q1 = visible (q_abs q) now"
    unfolding visible_def ran by (rule filter_image_left [symmetric]) (use r d in force)+
  show "(\<lambda>p. entry_of (q_mem q1 p)) ` delayed_ptrs q1 = hidden (q_abs q) now"
    unfolding hidden_def ran by (rule filter_image_right [symmetric]) (use r d in force)+
qed

section \<open>The selection rule\<close>

text \<open>
  The rule of the documentation, over the abstract contents: among the visible messages the
  highest priority, then the smallest (FIFO) or largest (LIFO) sequence number, then the arrival
  counter in the same direction.
\<close>

definition best :: "QueueMode \<Rightarrow> entry set \<Rightarrow> entry \<Rightarrow> bool" where
  "best mode S e \<longleftrightarrow> e \<in> S \<and> (\<forall>e' \<in> S. \<not> ready_lt mode e' e)"

lemma best_priority: "best mode S e \<Longrightarrow> e' \<in> S \<Longrightarrow> m_Priority (fst e') \<le> m_Priority (fst e)"
  by (force simp: best_def ready_lt_lex lex_lt_def split: if_splits)

lemma best_seq:
  "best mode S e \<Longrightarrow> e' \<in> S \<Longrightarrow> m_Priority (fst e') = m_Priority (fst e) \<Longrightarrow>
     (if mode = ModeLIFO then m_Seq (fst e') \<le> m_Seq (fst e) else m_Seq (fst e) \<le> m_Seq (fst e'))"
  by (force simp: best_def ready_lt_lex lex_lt_def word_less_def word_le_def word_uint_eq_iff
      split: if_splits)

lemma best_unique:
  assumes "best mode S e" "best mode S e'" "inj_on snd S"
  shows "e = e'"
  using assms ready_lt_total [of e e' mode] unfolding best_def inj_on_def by blast

section \<open>What each operation does\<close>

lemma NewFrankensteinQueue_ok:
  assumes "NewFrankensteinQueue mode = Inr q"
  shows "q_inv q \<and> q_abs q = Map.empty \<and> Mode q = mode \<and> q_nextOrder q = 0 \<and> matured q t"
  using assms
  by (auto simp: NewFrankensteinQueue_def q_inv_def q_abs_def heap_good_def slots_ok_def heap_order_def
      index_ok_def matured_def Mode_def split: if_splits)

lemma Push_ok:
  assumes "q_inv q"
  shows "\<exists>q'. Push q msg = Some q' \<and> q_inv q' \<and> Mode q' = Mode q \<and>
    q_abs q' = (if m_ID msg \<in> dom (q_abs q) then q_abs q
                else (q_abs q)(m_ID msg \<mapsto> (msg, q_nextOrder q))) \<and>
    q_nextOrder q' = (if m_ID msg \<in> dom (q_abs q) then q_nextOrder q else q_nextOrder q + 1) \<and>
    (matured q t \<longrightarrow> matured q' t)"
proof (cases "map_of (q_byID q) (m_ID msg)")
  case (Some p)
  then have "m_ID msg \<in> dom (q_abs q)" by (auto simp: q_abs_def)
  with Some assms show ?thesis by (simp add: Push_def)
next
  case None
  note inv = q_invD [OF assms]
  let ?p = "q_next_ptr q" and ?it = "zero_item\<lparr>it_msg := msg, it_order := q_nextOrder q\<rparr>"
  let ?m1 = "(q_mem q)(?p := ?it)"
  have fresh: "?p \<notin> ready_ptrs q \<union> delayed_ptrs q" using inv(4) by blast
  have same1: "heap_good here lt ?m1 xs" if "heap_good here lt (q_mem q) xs" "?p \<notin> set xs" for here lt xs
    using that unfolding heap_good_def heap_order_def slots_ok_def
    by (auto simp: in_set_conv_nth par_bound)
  obtain m d where p1: "delayed_push (?m1, q_delayed q) ?p = Some (m, d)"
      "heap_good inDelayed delayed_lt m (dh_items d)" "set (dh_items d) = insert ?p (delayed_ptrs q)"
      "same_entries (insert ?p (delayed_ptrs q)) ?m1 m"
    using delayed_push_ok [OF same1 [OF inv(2)], of ?p] fresh by auto
  have ready: "heap_good inReady (ready_lt (Mode q)) m (rh_items (q_ready q))"
    using heap_good_frame [OF same1 [OF inv(1)] p1(4)] fresh inv(3) by auto
  have ent: "entry_of (m p) = (if p = ?p then (msg, q_nextOrder q) else entry_of (q_mem q p))" for p
    using same_entriesD(1) [OF p1(4)] by (simp add: entry_of_def)
  then have msgs: "it_msg (m p) = (if p = ?p then msg else it_msg (q_mem q p))" for p
    by (metis entry_of_simps(1) fst_conv)
  let ?q' = "q\<lparr>q_mem := m, q_next_ptr := Suc ?p, q_delayed := d, q_nextOrder := q_nextOrder q + 1,
      q_byID := AList.update (m_ID msg) ?p (q_byID q)\<rparr>"
  have "index_ok (AList.update (m_ID msg) ?p (q_byID q)) m (insert ?p (ready_ptrs q \<union> delayed_ptrs q))"
    using fresh by (intro index_ok_update [OF inv(5) None]) (auto simp: msgs)
  then have "q_inv ?q'"
    unfolding q_inv_def using p1 ready inv(3,4) fresh by (auto simp: Mode_def less_Suc_eq)
  moreover have "q_abs ?q' = (q_abs q)(m_ID msg \<mapsto> (msg, q_nextOrder q))"
  proof
    fix mid
    have "p \<noteq> ?p" if "map_of (q_byID q) mid = Some p" for p
      using inv(5) that fresh unfolding index_ok_def by blast
    then show "q_abs ?q' mid = ((q_abs q)(m_ID msg \<mapsto> (msg, q_nextOrder q))) mid"
      by (cases "map_of (q_byID q) mid") (auto simp: q_abs_def AList.update_conv' ent)
  qed
  moreover have "m_ID msg \<notin> dom (q_abs q)" using None by (auto simp: q_abs_def)
  moreover have "matured q t \<longrightarrow> matured ?q' t"
    using fresh by (auto simp: matured_def msgs)
  ultimately show ?thesis
    using p1(1) None by (simp add: Push_def Mode_def Let_def)
qed
text \<open>Taking one pointer out of a heap and its ID out of the index.\<close>

lemma q_abs_delete:
  assumes "\<And>p'. entry_of (m' p') = entry_of (m p')"
  shows "(\<lambda>mid. map_option (\<lambda>p'. entry_of (m' p')) (map_of (AList.delete k ix) mid))
    = (\<lambda>mid. map_option (\<lambda>p'. entry_of (m p')) (map_of ix mid))(k := None)"
  by (auto simp: AList.delete_conv' assms)

text \<open>
  Taking an item out of one of the heaps and out of the index: what both \<^verbatim>\<open>Pop\<close> and \<^verbatim>\<open>Remove\<close> come down to.
\<close>

lemma ready_taken:
  assumes "q_inv q" "map_of (q_byID q) mid = Some p" "p \<in> ready_ptrs q" "rh_mode r = Mode q"
    and "heap_good inReady (ready_lt (Mode q)) m (rh_items r)" "set (rh_items r) = ready_ptrs q - {p}"
    and "same_entries (ready_ptrs q) (q_mem q) m"
    and "q' = q\<lparr>q_byID := AList.delete mid (q_byID q), q_mem := m, q_ready := r\<rparr>"
  shows "q_inv q' \<and> Mode q' = Mode q \<and> q_abs q' = (q_abs q)(mid := None) \<and> (matured q t \<longrightarrow> matured q' t)"
proof -
  note inv = q_invD [OF assms(1)]
  have "heap_good inDelayed delayed_lt m (dh_items (q_delayed q))"
    using heap_good_frame [OF inv(2) assms(7) inv(3)] .
  moreover have "ready_ptrs q \<union> delayed_ptrs q - {p} = set (rh_items r) \<union> delayed_ptrs q"
    using assms(3,6) inv(3) by auto
  moreover have "index_ok (AList.delete mid (q_byID q)) m (ready_ptrs q \<union> delayed_ptrs q - {p})"
    using index_ok_same [OF index_ok_delete [OF inv(5) assms(2)] assms(7)] .
  ultimately have "q_inv q'"
    unfolding q_inv_def assms(8) using assms(4-6) inv(3,4) by (auto simp: Mode_def)
  moreover have "q_abs q' = (q_abs q)(mid := None)"
    unfolding q_abs_def assms(8) using q_abs_delete [of m "q_mem q"] same_entriesD(1) [OF assms(7)] by simp
  moreover have "matured q t \<longrightarrow> matured q' t"
    using assms(6,8) same_entriesD(2) [OF assms(7)] by (auto simp: matured_def)
  ultimately show ?thesis
    using assms(4,8) by (simp add: Mode_def)
qed

lemma delayed_taken:
  assumes "q_inv q" "map_of (q_byID q) mid = Some p" "p \<in> delayed_ptrs q"
    and "heap_good inDelayed delayed_lt m (dh_items d)" "set (dh_items d) = delayed_ptrs q - {p}"
    and "same_entries (delayed_ptrs q) (q_mem q) m"
    and "q' = q\<lparr>q_byID := AList.delete mid (q_byID q), q_mem := m, q_delayed := d\<rparr>"
  shows "q_inv q' \<and> Mode q' = Mode q \<and> q_abs q' = (q_abs q)(mid := None) \<and> (matured q t \<longrightarrow> matured q' t)"
proof -
  note inv = q_invD [OF assms(1)]
  have "heap_good inReady (ready_lt (Mode q)) m (rh_items (q_ready q))"
    using heap_good_frame [OF inv(1) assms(6)] inv(3) by (simp add: Int_commute)
  moreover have "ready_ptrs q \<union> delayed_ptrs q - {p} = ready_ptrs q \<union> set (dh_items d)"
    using assms(3,5) inv(3) by auto
  moreover have "index_ok (AList.delete mid (q_byID q)) m (ready_ptrs q \<union> delayed_ptrs q - {p})"
    using index_ok_same [OF index_ok_delete [OF inv(5) assms(2)] assms(6)] .
  ultimately have "q_inv q'"
    unfolding q_inv_def assms(7) using assms(4,5) inv(3,4) by (auto simp: Mode_def)
  moreover have "q_abs q' = (q_abs q)(mid := None)"
    unfolding q_abs_def assms(7) using q_abs_delete [of m "q_mem q"] same_entriesD(1) [OF assms(6)] by simp
  moreover have "matured q t \<longrightarrow> matured q' t"
    using assms(7) same_entriesD(2) [OF assms(6)] by (auto simp: matured_def)
  ultimately show ?thesis
    using assms(7) by (simp add: Mode_def)
qed

lemma Pop_ok:
  assumes "q_inv q" "matured q t" "t \<le> now"
  shows "\<exists>r q'. Pop q now = Some (r, q') \<and> q_inv q' \<and> Mode q' = Mode q \<and> matured q' now \<and>
    q_nextOrder q' = q_nextOrder q \<and>
    (case r of
       None \<Rightarrow> visible (q_abs q) now = {} \<and> q_abs q' = q_abs q
     | Some msg \<Rightarrow> (\<exists>ord. q_abs q (m_ID msg) = Some (msg, ord) \<and>
           best (Mode q) (visible (q_abs q) now) (msg, ord)) \<and>
         q_abs q' = (q_abs q)(m_ID msg := None))"
proof -
  obtain q1 where q1: "promoteLocked q now = Some q1" "promoted q now q1"
    using promoteLocked_ok [OF assms(1)] by blast
  note pr = q1(2) [unfolded promoted_def]
  note inv = q_invD [OF conjunct1 [OF pr]]
  note vis = promoted_visible(1) [OF assms(1) q1(2) assms(2,3)]
  have mat1: "matured q1 now" using promoted_matured [OF q1(2) assms(2,3)] .
  show ?thesis
  proof (cases "rh_items (q_ready q1) = []")
    case True
    then show ?thesis
      using q1 pr vis mat1 by (simp add: Pop_def)
  next
    case False
    let ?p = "rh_items (q_ready q1) ! 0" and ?msg = "it_msg (q_mem q1 (rh_items (q_ready q1) ! 0))"
    have pin: "?p \<in> ready_ptrs q1" using False by simp
    obtain m r where pop: "ready_pop (q_mem q1, q_ready q1) = Some (?p, m, r)" "rh_mode r = Mode q1"
        "heap_good inReady (ready_lt (Mode q1)) m (rh_items r)"
        "set (rh_items r) = ready_ptrs q1 - {?p}" "same_entries (ready_ptrs q1) (q_mem q1) m"
      using ready_pop_ok [of "q_ready q1" "Mode q1" "q_mem q1"] inv(1) False by (auto simp: Mode_def)
    let ?q' = "q1\<lparr>q_byID := AList.delete (m_ID ?msg) (q_byID q1), q_mem := m, q_ready := r\<rparr>"
    have msgp: "it_msg (m ?p) = ?msg" using same_entriesD(2) [OF pop(5)] .
    have ix: "map_of (q_byID q1) (m_ID ?msg) = Some ?p"
      using index_ok_value [OF inv(5)] pin by simp
    note taken = ready_taken [OF conjunct1 [OF pr] ix pin pop(2-5) refl]
    have "q_abs q (m_ID ?msg) = Some (?msg, it_order (q_mem q1 ?p))"
      using pr ix by (metis (no_types, lifting) entry_of_def option.simps(9) q_abs_def)
    moreover have "best (Mode q) (visible (q_abs q) now) (entry_of (q_mem q1 ?p))"
      using rh.root_least [OF inv(1)] pin pr unfolding best_def vis [symmetric] by auto
    moreover have "Pop q now = Some (Some ?msg, ?q')"
      using q1(1) pop(1) False msgp by (simp add: Pop_def Let_def)
    ultimately show ?thesis
      using taken [of now] mat1 pr by (auto simp: entry_of_def)
  qed
qed

lemma Peek_ok:
  assumes "q_inv q" "matured q t" "t \<le> now"
  shows "\<exists>r q'. Peek q now = Some (r, q') \<and> q_inv q' \<and> matured q' now \<and> q_abs q' = q_abs q \<and>
    map_option fst (Pop q now) = Some r"
proof -
  obtain q1 where q1: "promoteLocked q now = Some q1" "promoted q now q1"
    using promoteLocked_ok [OF assms(1)] by blast
  note pr = q1(2) [unfolded promoted_def]
  note inv = q_invD [OF conjunct1 [OF pr]]
  have mat1: "matured q1 now" using promoted_matured [OF q1(2) assms(2,3)] .
  show ?thesis
  proof (cases "rh_items (q_ready q1)")
    case Nil
    then show ?thesis using q1 pr mat1 by (simp add: Peek_def Pop_def)
  next
    case (Cons p ps)
    then obtain m r where pop: "ready_pop (q_mem q1, q_ready q1) = Some (p, m, r)"
        "same_entries (ready_ptrs q1) (q_mem q1) m"
      using ready_pop_ok [of "q_ready q1" "Mode q1" "q_mem q1"] inv(1) by (auto simp: Mode_def)
    then have "it_msg (m p) = it_msg (q_mem q1 p)" by (simp add: same_entriesD)
    with Cons pop(1) q1(1) pr mat1 show ?thesis
      by (simp add: Peek_def Pop_def Let_def)
  qed
qed

lemma inj_on_entries:
  assumes "q_inv q"
  shows "inj_on (\<lambda>p. entry_of (q_mem q p)) (ready_ptrs q \<union> delayed_ptrs q)"
  using index_ok_value [OF q_invD(5) [OF assms]]
  by (metis (no_types, lifting) entry_of_simps(1) inj_onI option.inject)

lemma AvailableLen_ok:
  assumes "q_inv q" "matured q t" "t \<le> now"
  shows "\<exists>q'. AvailableLen q now = Some (card (visible (q_abs q) now), q') \<and> q_inv q' \<and>
    matured q' now \<and> q_abs q' = q_abs q \<and> Mode q' = Mode q"
proof -
  obtain q1 where q1: "promoteLocked q now = Some q1" "promoted q now q1"
    using promoteLocked_ok [OF assms(1)] by blast
  note pr = q1(2) [unfolded promoted_def]
  have inv1: "q_inv q1" using pr by blast
  have "length (rh_items (q_ready q1)) = card (ready_ptrs q1)"
    using heap_good_distinct [OF q_invD(1) [OF inv1]] by (simp add: distinct_card)
  also have "\<dots> = card ((\<lambda>p. entry_of (q_mem q1 p)) ` ready_ptrs q1)"
    using inj_on_entries [OF inv1] by (intro card_image [symmetric]) (auto elim: inj_on_subset)
  also have "\<dots> = card (visible (q_abs q) now)"
    by (simp add: promoted_visible(1) [OF assms(1) q1(2) assms(2,3)])
  finally show ?thesis
    using q1 pr promoted_matured [OF q1(2) assms(2,3)] by (simp add: AvailableLen_def)
qed

lemma slot_position:
  assumes "heap_good here lt m xs" "p \<in> set xs"
  shows "it_loc (m p) = here \<and> 0 \<le> it_index (m p) \<and> nat (it_index (m p)) < length xs \<and>
    xs ! nat (it_index (m p)) = p"
  using assms by (auto simp: heap_good_def slots_ok_def in_set_conv_nth)

lemma Remove_ok:
  assumes "q_inv q"
  shows "\<exists>q'. Remove q mid = Some (mid \<in> dom (q_abs q), q') \<and> q_inv q' \<and> Mode q' = Mode q \<and>
    q_nextOrder q' = q_nextOrder q \<and> q_abs q' = (q_abs q)(mid := None) \<and> (matured q t \<longrightarrow> matured q' t)"
proof (cases "map_of (q_byID q) mid")
  case None
  then have "mid \<notin> dom (q_abs q)" "(q_abs q)(mid := None) = q_abs q" by (auto simp: q_abs_def)
  with None assms show ?thesis by (simp add: Remove_def)
next
  case (Some p)
  note inv = q_invD [OF assms]
  have p: "p \<in> ready_ptrs q \<union> delayed_ptrs q" "m_ID (it_msg (q_mem q p)) = mid"
    using inv(5) Some unfolding index_ok_def by blast+
  have dom: "mid \<in> dom (q_abs q)" using Some by (auto simp: q_abs_def)
  show ?thesis
  proof (cases "p \<in> ready_ptrs q")
    case True
    note pos = slot_position [OF inv(1) True]
    obtain m r where rm: "ready_remove (q_mem q, q_ready q) (nat (it_index (q_mem q p))) = Some (p, m, r)"
        "rh_mode r = Mode q" "heap_good inReady (ready_lt (Mode q)) m (rh_items r)"
        "set (rh_items r) = ready_ptrs q - {p}" "same_entries (ready_ptrs q) (q_mem q) m"
      using ready_remove_ok [of "q_ready q" "Mode q" "q_mem q" "nat (it_index (q_mem q p))"] inv(1) pos
      by (auto simp: Mode_def)
    have "Remove q mid = Some (True, q\<lparr>q_byID := AList.delete mid (q_byID q), q_mem := m, q_ready := r\<rparr>)"
      using Some pos rm(1) by (simp add: Remove_def Let_def)
    then show ?thesis
      using dom ready_taken [OF assms Some True rm(2-5) refl, of t] by simp
  next
    case False
    then have pd: "p \<in> delayed_ptrs q" using p(1) by blast
    note pos = slot_position [OF inv(2) pd]
    obtain m d where rm: "delayed_remove (q_mem q, q_delayed q) (nat (it_index (q_mem q p))) = Some (p, m, d)"
        "heap_good inDelayed delayed_lt m (dh_items d)"
        "set (dh_items d) = delayed_ptrs q - {p}" "same_entries (delayed_ptrs q) (q_mem q) m"
      using delayed_remove_ok [OF inv(2), of "nat (it_index (q_mem q p))"] pos by auto
    have "Remove q mid = Some (True, q\<lparr>q_byID := AList.delete mid (q_byID q), q_mem := m, q_delayed := d\<rparr>)"
      using Some pos rm(1) by (simp add: Remove_def Let_def)
    then show ?thesis
      using dom delayed_taken [OF assms Some pd rm(2-4) refl, of t] by simp
  qed
qed
section \<open>Snapshots\<close>

text \<open>
  \<open>in_order lt S es\<close>: the list \<open>es\<close> enumerates \<open>S\<close> without repetition, sorted by \<open>lt\<close>.
\<close>

definition in_order :: "(entry \<Rightarrow> entry \<Rightarrow> bool) \<Rightarrow> entry set \<Rightarrow> entry list \<Rightarrow> bool" where
  "in_order lt S es \<longleftrightarrow> set es = S \<and> distinct es \<and> sorted_wrt (\<lambda>a b. \<not> lt b a) es"

lemma in_order_card: "in_order lt S es \<Longrightarrow> length es = card S"
  by (auto simp: in_order_def distinct_card)

lemma in_order_unique:
  assumes "weak_order lt" "in_order lt S es" "in_order lt S es'"
    and "\<And>a b. a \<in> S \<Longrightarrow> b \<in> S \<Longrightarrow> a \<noteq> b \<Longrightarrow> lt a b \<or> lt b a"
  shows "es = es'"
  using assms by (intro weak_order.sorted_unique [of lt])
    (auto simp: in_order_def set_eq_iff_mset_eq_distinct [symmetric])

definition limited :: "int \<Rightarrow> 'a list \<Rightarrow> 'a list" where
  "limited limit xs = (if limit > 0 then take (nat limit) xs else xs)"

lemma orderedMessages_ok:
  assumes "weak_order lt" "\<And>a b. lessM a b = lt (entry_of a) (entry_of b)"
    and "distinct xs" "inj_on (\<lambda>p. entry_of (m p)) (set xs)"
  shows "\<exists>es. in_order lt ((\<lambda>p. entry_of (m p)) ` set xs) es \<and>
    orderedMessages m xs lessM limit = (map fst (limited limit es), limit > 0 \<and> int (length es) > limit)"
proof -
  let ?e = "\<lambda>p. entry_of (m p)"
  let ?cmp = "\<lambda>a b. if lessM (m a) (m b) then -1 else if lessM (m b) (m a) then 1 else (0::int)"
  let ?ps = "SortFunc ?cmp xs"
  have neg: "?cmp a b < 0 \<longleftrightarrow> lt (?e a) (?e b)" for a b
    by (simp add: assms(2))
  have "sorted_wrt (\<lambda>a b. \<not> lt (?e b) (?e a)) ?ps"
    by (rule weak_order.SortFunc_sorted [OF weak_order_inv_image [OF assms(1)]]) (rule neg)
  then have "in_order lt (?e ` set xs) (map ?e ?ps)"
    using assms(3,4) by (simp add: in_order_def sorted_wrt_map distinct_map)
  moreover have "orderedMessages m xs lessM limit =
      (map fst (limited limit (map ?e ?ps)), limit > 0 \<and> int (length (map ?e ?ps)) > limit)"
    by (auto simp: orderedMessages_def Let_def limited_def take_map not_less)
  ultimately show ?thesis by blast
qed

lemma Snapshot_ok:
  assumes "q_inv q" "matured q t" "t \<le> now"
  shows "\<exists>v q' rs ds. Snapshot q now limit = Some (v, q') \<and>
    q_inv q' \<and> matured q' now \<and> q_abs q' = q_abs q \<and> Mode q' = Mode q \<and>
    in_order (ready_lt (Mode q)) (visible (q_abs q) now) rs \<and>
    in_order delayed_lt (hidden (q_abs q) now) ds \<and>
    vw_Ready v = map fst (limited limit rs) \<and> vw_Delayed v = map fst (limited limit ds) \<and>
    vw_ReadyLen v = length rs \<and> vw_DelayedLen v = length ds \<and>
    vw_ReadyTruncated v = (limit > 0 \<and> int (length rs) > limit) \<and>
    vw_DelayedTruncated v = (limit > 0 \<and> int (length ds) > limit)"
proof -
  obtain q1 where q1: "promoteLocked q now = Some q1" "promoted q now q1"
    using promoteLocked_ok [OF assms(1)] by blast
  note pr = q1(2) [unfolded promoted_def]
  note inv = q_invD [OF conjunct1 [OF pr]]
  note vis = promoted_visible [OF assms(1) q1(2) assms(2,3)]
  have inj: "inj_on (\<lambda>p. entry_of (q_mem q1 p)) (ready_ptrs q1)"
      "inj_on (\<lambda>p. entry_of (q_mem q1 p)) (delayed_ptrs q1)"
    using inj_on_entries [of q1] pr by (auto elim: inj_on_subset)
  have modes: "Mode q1 = Mode q" using pr by blast
  obtain rs where rs: "in_order (ready_lt (Mode q)) (visible (q_abs q) now) rs"
      "orderedMessages (q_mem q1) (rh_items (q_ready q1)) (readyHeap_less (Mode q)) limit =
        (map fst (limited limit rs), limit > 0 \<and> int (length rs) > limit)"
    using orderedMessages_ok [OF weak_order_ready less_via_entries(1) heap_good_distinct [OF inv(1)] inj(1)]
    unfolding vis by blast
  obtain ds where ds: "in_order delayed_lt (hidden (q_abs q) now) ds"
      "orderedMessages (q_mem q1) (dh_items (q_delayed q1)) delayedHeap_less limit =
        (map fst (limited limit ds), limit > 0 \<and> int (length ds) > limit)"
    using orderedMessages_ok [OF weak_order_delayed less_via_entries(2) heap_good_distinct [OF inv(2)] inj(2)]
    unfolding vis by blast
  have "length (rh_items (q_ready q1)) = length rs" "length (dh_items (q_delayed q1)) = length ds"
    using in_order_card [OF rs(1)] in_order_card [OF ds(1)] inj
      heap_good_distinct [OF inv(1)] heap_good_distinct [OF inv(2)]
    unfolding vis [symmetric] by (simp_all add: card_image distinct_card)
  then show ?thesis
    using q1(1) pr promoted_matured [OF q1(2) assms(2,3)] rs ds
    by (auto simp: Snapshot_def modes Let_def)
qed

lemma Snapshot_total:
  assumes "q_inv q" "Snapshot q now limit = Some (v, q')" "q_inv q'" "q_abs q' = q_abs q"
  shows "vw_ReadyLen v + vw_DelayedLen v = Len q"
proof -
  have "vw_ReadyLen v + vw_DelayedLen v = Len q'"
    using assms(2) card_ptrs [OF assms(3)]
    by (auto simp: Snapshot_def bind_eq_Some_conv Let_def case_prod_beta)
  then show ?thesis using assms by (simp add: Len_card)
qed

section \<open>Draining the ready heap\<close>

fun drain :: "nat \<Rightarrow> FrankensteinQueue \<Rightarrow> go_time \<Rightarrow> Message list option" where
  "drain 0 q now = Some []"
| "drain (Suc n) q now =
     (case Pop q now of
        None \<Rightarrow> None
      | Some (None, _) \<Rightarrow> Some []
      | Some (Some msg, q') \<Rightarrow> map_option ((#) msg) (drain n q' now))"

lemma finite_ran_q_abs: "q_inv q \<Longrightarrow> finite (ran (q_abs q))"
  by (simp add: ran_q_abs)

lemma finite_visible [simp]: "q_inv q \<Longrightarrow> finite (visible (q_abs q) now)"
  by (simp add: visible_def finite_ran_q_abs)

lemma q_abs_key: "q_inv q \<Longrightarrow> q_abs q mid = Some e \<Longrightarrow> m_ID (fst e) = mid"
  by (auto simp: q_abs_eq)

lemma visible_delete:
  assumes "q_inv q" "q_abs q (m_ID msg) = Some (msg, ord)"
  shows "visible ((q_abs q)(m_ID msg := None)) now = visible (q_abs q) now - {(msg, ord)}"
  using ran_delete [of "q_abs q" "m_ID msg" _ "\<lambda>e. m_ID (fst e)", OF assms(2)] q_abs_key [OF assms(1)]
  by (auto simp: visible_def)

lemma drain_ok:
  assumes "q_inv q" "matured q t" "t \<le> now" "card (visible (q_abs q) now) \<le> n"
  shows "\<exists>es. drain n q now = Some (map fst es) \<and> in_order (ready_lt (Mode q)) (visible (q_abs q) now) es"
  using assms
proof (induction n arbitrary: q t)
  case 0
  then show ?case by (simp add: in_order_def)
next
  case (Suc n)
  obtain r q' where pop: "Pop q now = Some (r, q')" "q_inv q'" "Mode q' = Mode q" "matured q' now"
      "case r of None \<Rightarrow> visible (q_abs q) now = {} \<and> q_abs q' = q_abs q
       | Some msg \<Rightarrow> (\<exists>ord. q_abs q (m_ID msg) = Some (msg, ord) \<and>
           best (Mode q) (visible (q_abs q) now) (msg, ord)) \<and> q_abs q' = (q_abs q)(m_ID msg := None)"
    using Pop_ok [OF Suc.prems(1-3)] by blast
  show ?case
  proof (cases r)
    case None
    with pop show ?thesis by (auto simp: in_order_def)
  next
    case (Some msg)
    then obtain ord where o: "q_abs q (m_ID msg) = Some (msg, ord)"
        "best (Mode q) (visible (q_abs q) now) (msg, ord)" "q_abs q' = (q_abs q)(m_ID msg := None)"
      using pop(5) by auto
    have vis': "visible (q_abs q') now = visible (q_abs q) now - {(msg, ord)}"
      unfolding o(3) by (rule visible_delete [OF Suc.prems(1) o(1)])
    have mem: "(msg, ord) \<in> visible (q_abs q) now" using o(2) by (simp add: best_def)
    then have "card (visible (q_abs q') now) \<le> n"
      using Suc.prems(1,4) by (simp add: vis')
    then obtain es where es: "drain n q' now = Some (map fst es)"
        "in_order (ready_lt (Mode q)) (visible (q_abs q') now) es"
      using Suc.IH [OF pop(2,4) order_refl] pop(3) by auto
    have "in_order (ready_lt (Mode q)) (visible (q_abs q) now) ((msg, ord) # es)"
      using es(2) mem o(2) unfolding in_order_def vis' best_def by auto
    with es(1) Some pop(1) show ?thesis
      by (intro exI [of _ "(msg, ord) # es"]) simp
  qed
qed

text \<open>
  Arrival counters: pairwise different and below the next one to assign.  \<open>Push\<close> keeps this until
  the 64-bit counter wraps around; the other operations keep it always (\<open>Engine_Props\<close>, where it is
  shown of every run with fewer than 2^64 pushes).
\<close>

definition orders_fresh :: "FrankensteinQueue \<Rightarrow> bool" where
  "orders_fresh q \<longleftrightarrow> inj_on snd (ran (q_abs q)) \<and> (\<forall>e \<in> ran (q_abs q). snd e < q_nextOrder q)"

lemma orders_fresh_Push:
  assumes "q_inv q" "orders_fresh q" "q_nextOrder q \<noteq> - 1" "Push q msg = Some q'"
  shows "orders_fresh q'"
proof -
  have q': "q_abs q' = (if m_ID msg \<in> dom (q_abs q) then q_abs q
        else (q_abs q)(m_ID msg \<mapsto> (msg, q_nextOrder q)))"
      "q_nextOrder q' = (if m_ID msg \<in> dom (q_abs q) then q_nextOrder q else q_nextOrder q + 1)"
    using Push_ok [OF assms(1), of msg] assms(4) by auto
  have "q_nextOrder q < q_nextOrder q + 1"
    using assms(3) by (rule word_less_succ)
  moreover have "ran q'' = insert (msg, q_nextOrder q) (ran (q_abs q))"
    if "m_ID msg \<notin> dom (q_abs q)" "q'' = (q_abs q)(m_ID msg \<mapsto> (msg, q_nextOrder q))" for q''
    unfolding that(2) by (rule ran_map_upd) (use that(1) in blast)
  ultimately show ?thesis
    using assms(2) q' by (cases "m_ID msg \<in> dom (q_abs q)")
      (auto simp: orders_fresh_def simp del: ran_map_upd intro: less_trans)
qed

end
