(* ===== verification/Engine_Props.thy ===== *)
theory Engine_Props
  imports Engine
begin

text \<open>
  The properties of the in-memory queue: its operations refine a map from IDs to messages, the
  selection rule is the documented one, snapshots list messages in delivery order, and no
  sequence of calls under a non-decreasing clock makes an operation panic.
\<close>

section \<open>Runs of the engine\<close>

text \<open>
  \<open>engine_reach mode t q\<close>: the queue \<open>q\<close> results from a new queue of the given mode by calls in any
  order, and \<open>t\<close> is the latest time a call has carried.  Each call is atomic under the queue's
  mutex, so this covers every interleaving of concurrent callers whose clock does not run
  backwards.
\<close>

inductive engine_reach :: "QueueMode \<Rightarrow> go_time \<Rightarrow> FrankensteinQueue \<Rightarrow> bool" where
  new: "NewFrankensteinQueue mode = Inr q \<Longrightarrow> engine_reach mode t q"
| push: "engine_reach mode t q \<Longrightarrow> Push q msg = Some q' \<Longrightarrow> engine_reach mode t q'"
| pop: "engine_reach mode t q \<Longrightarrow> t \<le> now \<Longrightarrow> Pop q now = Some (r, q') \<Longrightarrow> engine_reach mode now q'"
| peek: "engine_reach mode t q \<Longrightarrow> t \<le> now \<Longrightarrow> Peek q now = Some (r, q') \<Longrightarrow> engine_reach mode now q'"
| available: "engine_reach mode t q \<Longrightarrow> t \<le> now \<Longrightarrow> AvailableLen q now = Some (n, q') \<Longrightarrow>
    engine_reach mode now q'"
| snapshot: "engine_reach mode t q \<Longrightarrow> t \<le> now \<Longrightarrow> Snapshot q now limit = Some (v, q') \<Longrightarrow>
    engine_reach mode now q'"
| remove: "engine_reach mode t q \<Longrightarrow> Remove q mid = Some (b, q') \<Longrightarrow> engine_reach mode t q'"

lemma Peek_mode: "Peek q now = Some (r, q') \<Longrightarrow> q_inv q \<Longrightarrow> Mode q' = Mode q"
  using promoteLocked_ok [of q now]
  by (auto simp: Peek_def promoted_def split: list.splits)

lemma engine_reach_inv: "engine_reach mode t q \<Longrightarrow> q_inv q \<and> matured q t \<and> Mode q = mode"
proof (induction rule: engine_reach.induct)
  case (new mode q t)
  then show ?case using NewFrankensteinQueue_ok by blast
next
  case (push mode t q msg q')
  then show ?case using Push_ok [of q msg t] by auto
next
  case (pop mode t q now r q')
  then show ?case using Pop_ok [of q t now] by auto
next
  case (peek mode t q now r q')
  then show ?case using Peek_ok [of q t now] Peek_mode [of q now r q'] by auto
next
  case (available mode t q now n q')
  then show ?case using AvailableLen_ok [of q t now] by auto
next
  case (snapshot mode t q now limit v q')
  then show ?case using Snapshot_ok [of q t now limit] by auto
next
  case (remove mode t q mid b q')
  then show ?case using Remove_ok [of q mid t] by auto
qed

text \<open>
  The same runs with the number of \<open>Push\<close> calls counted: \<open>engine_run mode n t q\<close> says that \<open>n\<close> of
  the calls that led to \<open>q\<close> were pushes, refused duplicates included.
\<close>

inductive engine_run :: "QueueMode \<Rightarrow> nat \<Rightarrow> go_time \<Rightarrow> FrankensteinQueue \<Rightarrow> bool" where
  new: "NewFrankensteinQueue mode = Inr q \<Longrightarrow> engine_run mode 0 t q"
| push: "engine_run mode n t q \<Longrightarrow> Push q msg = Some q' \<Longrightarrow> engine_run mode (Suc n) t q'"
| pop: "engine_run mode n t q \<Longrightarrow> t \<le> now \<Longrightarrow> Pop q now = Some (r, q') \<Longrightarrow> engine_run mode n now q'"
| peek: "engine_run mode n t q \<Longrightarrow> t \<le> now \<Longrightarrow> Peek q now = Some (r, q') \<Longrightarrow> engine_run mode n now q'"
| available: "engine_run mode n t q \<Longrightarrow> t \<le> now \<Longrightarrow> AvailableLen q now = Some (l, q') \<Longrightarrow>
    engine_run mode n now q'"
| snapshot: "engine_run mode n t q \<Longrightarrow> t \<le> now \<Longrightarrow> Snapshot q now limit = Some (v, q') \<Longrightarrow>
    engine_run mode n now q'"
| remove: "engine_run mode n t q \<Longrightarrow> Remove q mid = Some (b, q') \<Longrightarrow> engine_run mode n t q'"

lemma engine_run_reach: "engine_run mode n t q \<Longrightarrow> engine_reach mode t q"
  by (induction rule: engine_run.induct) (auto intro: engine_reach.intros)

lemma engine_reach_run: "engine_reach mode t q \<Longrightarrow> \<exists>n. engine_run mode n t q"
  by (induction rule: engine_reach.induct) (blast intro: engine_run.intros)+

text \<open>
  No operation but \<open>Push\<close> touches the arrival counter or adds an entry, so freshness of the
  counters survives every call.
\<close>

lemma orders_fresh_shrink:
  assumes "orders_fresh q" "ran (q_abs q') \<subseteq> ran (q_abs q)" "q_nextOrder q' = q_nextOrder q"
  shows "orders_fresh q'"
  using assms unfolding orders_fresh_def by (metis inj_on_subset subsetD)

lemma promotion_keeps_order:
  assumes "q_inv q" "promoteLocked q now = Some q'"
  shows "q_nextOrder q' = q_nextOrder q \<and> q_abs q' = q_abs q"
  using promoteLocked_ok [OF assms(1), of now] assms(2) by (auto simp: promoted_def)

lemma read_calls_promote:
  "Peek q now = Some (r, q') \<Longrightarrow> promoteLocked q now = Some q'"
  "AvailableLen q now = Some (l, q') \<Longrightarrow> promoteLocked q now = Some q'"
  "Snapshot q now limit = Some (v, q') \<Longrightarrow> promoteLocked q now = Some q'"
  by (cases "promoteLocked q now";
      auto simp: Peek_def AvailableLen_def Snapshot_def split: list.splits prod.splits)+

lemma orders_fresh_read:
  assumes "q_inv q" "orders_fresh q" "promoteLocked q now = Some q'"
  shows "orders_fresh q' \<and> q_nextOrder q' = q_nextOrder q"
  using promotion_keeps_order [OF assms(1,3)] orders_fresh_shrink [OF assms(2)] by simp

lemma orders_fresh_Pop:
  assumes "q_inv q" "matured q t" "t \<le> now" "orders_fresh q" "Pop q now = Some (r, q')"
  shows "orders_fresh q' \<and> q_nextOrder q' = q_nextOrder q"
proof -
  have "q_nextOrder q' = q_nextOrder q" "ran (q_abs q') \<subseteq> ran (q_abs q)"
    using Pop_ok [OF assms(1-3)] assms(5)
    by (auto simp: ran_def split: option.splits if_splits)
  with orders_fresh_shrink [OF assms(4)] show ?thesis by simp
qed

lemma orders_fresh_Remove:
  assumes "q_inv q" "orders_fresh q" "Remove q mid = Some (b, q')"
  shows "orders_fresh q' \<and> q_nextOrder q' = q_nextOrder q"
proof -
  have "q_nextOrder q' = q_nextOrder q" "ran (q_abs q') \<subseteq> ran (q_abs q)"
    using Remove_ok [OF assms(1), of mid] assms(3) by (auto simp: ran_def split: if_splits)
  with orders_fresh_shrink [OF assms(2)] show ?thesis by simp
qed

lemma orders_fresh_new: "NewFrankensteinQueue mode = Inr q \<Longrightarrow> orders_fresh q"
  using NewFrankensteinQueue_ok by (simp add: orders_fresh_def)

lemma orders_fresh_push_step:
  assumes "q_inv q" "orders_fresh q" "unat (q_nextOrder q) \<le> n" "Suc n < 2 ^ 64" "Push q msg = Some q'"
  shows "orders_fresh q' \<and> unat (q_nextOrder q') \<le> Suc n"
proof -
  have "q_nextOrder q \<noteq> - 1"
    using assms(3,4) by (auto simp: unsigned_minus_1_eq_mask mask_eq_exp_minus_1)
  moreover have "q_nextOrder q' \<in> {q_nextOrder q, q_nextOrder q + 1}"
    using Push_ok [OF assms(1), of msg] assms(5) by auto
  moreover have "unat (q_nextOrder q + 1) \<le> Suc (unat (q_nextOrder q))"
    by (simp add: unat_word_ariths)
  ultimately show ?thesis
    using orders_fresh_Push [OF assms(1,2) _ assms(5)] assms(3) by auto
qed

lemma engine_run_fresh:
  "engine_run mode n t q \<Longrightarrow> n < 2 ^ 64 \<Longrightarrow> orders_fresh q \<and> unat (q_nextOrder q) \<le> n"
proof (induction rule: engine_run.induct)
  case (new mode q t)
  then show ?case using orders_fresh_new NewFrankensteinQueue_ok by auto
next
  case (push mode n t q msg q')
  then show ?case
    using orders_fresh_push_step [of q n msg q'] engine_reach_inv [OF engine_run_reach [OF push.hyps(1)]]
    by simp
next
  case (pop mode n t q now r q')
  then show ?case
    using orders_fresh_Pop [of q t now r q'] engine_reach_inv [OF engine_run_reach [OF pop.hyps(1)]]
    by simp
next
  case (peek mode n t q now r q')
  then show ?case
    using orders_fresh_read [OF _ _ read_calls_promote(1) [OF peek.hyps(3)]]
      engine_reach_inv [OF engine_run_reach [OF peek.hyps(1)]] by simp
next
  case (available mode n t q now l q')
  then show ?case
    using orders_fresh_read [OF _ _ read_calls_promote(2) [OF available.hyps(3)]]
      engine_reach_inv [OF engine_run_reach [OF available.hyps(1)]] by simp
next
  case (snapshot mode n t q now limit v q')
  then show ?case
    using orders_fresh_read [OF _ _ read_calls_promote(3) [OF snapshot.hyps(3)]]
      engine_reach_inv [OF engine_run_reach [OF snapshot.hyps(1)]] by simp
next
  case (remove mode n t q mid b q')
  then show ?case
    using orders_fresh_Remove [of q mid b q'] engine_reach_inv [OF engine_run_reach [OF remove.hyps(1)]]
    by simp
qed

text \<open>A small run for the witnesses: two messages of equal priority and one delayed.\<close>

definition ex_msg :: "string \<Rightarrow> uint64 \<Rightarrow> int \<Rightarrow> go_time \<Rightarrow> Message" where
  "ex_msg mid sq pri avail = \<lparr>m_ID = mid, m_Seq = sq, m_Payload = ''x'', m_Priority = pri,
     m_EnqueuedAt = 0, m_AvailableAt = avail, m_Status = StatusPending\<rparr>"

definition ex_queue :: "QueueMode \<Rightarrow> FrankensteinQueue option" where
  "ex_queue mode =
     (case NewFrankensteinQueue mode of
        Inl _ \<Rightarrow> None
      | Inr q \<Rightarrow> do {
          q1 \<leftarrow> Push q (ex_msg ''a'' 1 5 0);
          q2 \<leftarrow> Push q1 (ex_msg ''b'' 2 5 0);
          Push q2 (ex_msg ''c'' 3 9 100)
        })"

lemma ex_queue_reach:
  assumes "ex_queue mode = Some q"
  shows "engine_reach mode t q"
proof -
  obtain q0 q1 q2 where q: "NewFrankensteinQueue mode = Inr q0" "Push q0 (ex_msg ''a'' 1 5 0) = Some q1"
      "Push q1 (ex_msg ''b'' 2 5 0) = Some q2" "Push q2 (ex_msg ''c'' 3 9 100) = Some q"
    using assms by (auto simp: ex_queue_def bind_eq_Some_conv split: sum.splits)
  show ?thesis
    by (rule engine_reach.push [OF engine_reach.push [OF engine_reach.push [OF engine_reach.new]]]) (rule q)+
qed

lemma ex_queue_exists:
  assumes "Valid mode"
  shows "\<exists>q. ex_queue mode = Some q"
proof -
  obtain q where q: "NewFrankensteinQueue mode = Inr q"
    using assms by (simp add: NewFrankensteinQueue_def)
  then have "q_inv q" using NewFrankensteinQueue_ok by blast
  then obtain q1 q2 q3 where "Push q (ex_msg ''a'' 1 5 0) = Some q1"
      "Push q1 (ex_msg ''b'' 2 5 0) = Some q2" "Push q2 (ex_msg ''c'' 3 9 100) = Some q3"
    using Push_ok by metis
  with q show ?thesis by (simp add: ex_queue_def)
qed

lemma ex_queue_LIFO: "\<exists>q. ex_queue ModeLIFO = Some q \<and> engine_reach ModeLIFO 0 q"
  using ex_queue_exists [of ModeLIFO] ex_queue_reach by (auto simp: Valid_def)

section \<open>Properties\<close>

text \<open>
  C1: in every reachable queue, \<open>Pop\<close> never panics; it returns nothing exactly when no stored
  message is visible at \<open>now\<close>, and then changes no contents; otherwise it returns a stored visible
  message that the documented rule puts first - highest priority, then smallest sequence number
  in FIFO mode and largest in LIFO mode - and removes that message and no other.
\<close>

theorem pop_selection_rule:
  assumes "engine_reach mode t q" "t \<le> now"
  shows "\<exists>r q'. Pop q now = Some (r, q') \<and>
    (case r of
       None \<Rightarrow> visible (q_abs q) now = {} \<and> q_abs q' = q_abs q
     | Some msg \<Rightarrow>
         (\<exists>ord. q_abs q (m_ID msg) = Some (msg, ord)) \<and> m_AvailableAt msg \<le> now \<and>
         (\<forall>e \<in> visible (q_abs q) now.
            m_Priority (fst e) < m_Priority msg \<or>
            m_Priority (fst e) = m_Priority msg \<and>
              (if mode = ModeLIFO then m_Seq (fst e) \<le> m_Seq msg else m_Seq msg \<le> m_Seq (fst e))) \<and>
         q_abs q' = (q_abs q)(m_ID msg := None))"
proof -
  have q: "q_inv q" "matured q t" "Mode q = mode"
    using engine_reach_inv [OF assms(1)] by auto
  obtain r q' where r: "Pop q now = Some (r, q')"
      "case r of None \<Rightarrow> visible (q_abs q) now = {} \<and> q_abs q' = q_abs q
       | Some msg \<Rightarrow> (\<exists>ord. q_abs q (m_ID msg) = Some (msg, ord) \<and>
           best (Mode q) (visible (q_abs q) now) (msg, ord)) \<and> q_abs q' = (q_abs q)(m_ID msg := None)"
    using Pop_ok [OF q(1,2) assms(2)] by blast
  show ?thesis
  proof (cases r)
    case None
    with r show ?thesis by auto
  next
    case (Some msg)
    with r obtain ord where o: "q_abs q (m_ID msg) = Some (msg, ord)"
        "best mode (visible (q_abs q) now) (msg, ord)" "q_abs q' = (q_abs q)(m_ID msg := None)"
      using q(3) by auto
    have "m_AvailableAt msg \<le> now"
      using o(2) by (auto simp: best_def visible_def)
    moreover have "m_Priority (fst e) < m_Priority msg \<or> m_Priority (fst e) = m_Priority msg \<and>
        (if mode = ModeLIFO then m_Seq (fst e) \<le> m_Seq msg else m_Seq msg \<le> m_Seq (fst e))"
        if "e \<in> visible (q_abs q) now" for e
      using best_priority [OF o(2) that] best_seq [OF o(2) that] by auto
    ultimately show ?thesis using r(1) Some o(1,3) by auto
  qed
qed

theorem pop_selection_rule_witness:
  "\<exists>q msg q'. engine_reach ModeLIFO 0 q \<and> Pop q 50 = Some (Some msg, q') \<and> m_ID msg = ''b'' \<and>
     (\<exists>ord. q_abs q (m_ID msg) = Some (msg, ord)) \<and> q_abs q' = (q_abs q)(m_ID msg := None)"
proof -
  obtain q where q: "ex_queue ModeLIFO = Some q" "engine_reach ModeLIFO 0 q"
    using ex_queue_LIFO by blast
  have "map_option (\<lambda>q. map_option fst (Pop q 50)) (ex_queue ModeLIFO)
      = Some (Some (Some (ex_msg ''b'' 2 5 0)))"
    by code_simp
  then obtain q' where "Pop q 50 = Some (Some (ex_msg ''b'' 2 5 0), q')"
    using q(1) by auto
  with pop_selection_rule [OF q(2), of 50] q(2) show ?thesis
    by (intro exI [of _ q] exI [of _ "ex_msg ''b'' 2 5 0"] exI [of _ q']) (auto simp: ex_msg_def)
qed

text \<open>
  C2: no call of the engine panics: from any queue reached under a non-decreasing clock, every
  operation returns.
\<close>

theorem engine_never_panics:
  assumes "engine_reach mode t q" "t \<le> now"
  shows "Push q msg \<noteq> None \<and> Pop q now \<noteq> None \<and> Peek q now \<noteq> None \<and> AvailableLen q now \<noteq> None \<and>
    Remove q mid \<noteq> None \<and> Snapshot q now limit \<noteq> None"
proof -
  have q: "q_inv q" "matured q t"
    using engine_reach_inv [OF assms(1)] by auto
  have "Push q msg \<noteq> None" using Push_ok [OF q(1), of msg t] by auto
  moreover have "Pop q now \<noteq> None" using Pop_ok [OF q assms(2)] by auto
  moreover have "Peek q now \<noteq> None" using Peek_ok [OF q assms(2)] by auto
  moreover have "AvailableLen q now \<noteq> None" using AvailableLen_ok [OF q assms(2)] by auto
  moreover have "Remove q mid \<noteq> None" using Remove_ok [OF q(1), of mid t] by auto
  moreover have "Snapshot q now limit \<noteq> None" using Snapshot_ok [OF q assms(2), of limit] by auto
  ultimately show ?thesis by simp
qed

theorem engine_never_panics_witness:
  "\<exists>q. engine_reach ModeLIFO 0 q \<and> Pop q 50 \<noteq> None \<and> Remove q ''c'' \<noteq> None \<and> Snapshot q 50 1 \<noteq> None"
proof -
  obtain q where "engine_reach ModeLIFO 0 q" using ex_queue_LIFO by blast
  with engine_never_panics [OF this, of 50 _ "''c''" 1] show ?thesis by auto
qed

text \<open>
  C3: \<open>Push\<close> refines insertion into a map: a new ID is stored with the next arrival counter, an ID
  already present leaves the queue as it is, and the new message is hidden or visible by its
  \<open>AvailableAt\<close> alone.
\<close>

theorem push_refines_insert:
  assumes "engine_reach mode t q"
  shows "\<exists>q'. Push q msg = Some q' \<and> engine_reach mode t q' \<and>
    q_abs q' = (if m_ID msg \<in> dom (q_abs q) then q_abs q
                else (q_abs q)(m_ID msg \<mapsto> (msg, q_nextOrder q))) \<and>
    Len q' = (if m_ID msg \<in> dom (q_abs q) then Len q else Len q + 1)"
proof -
  have q: "q_inv q" using engine_reach_inv [OF assms] by auto
  obtain q' where q': "Push q msg = Some q'" "q_inv q'"
      "q_abs q' = (if m_ID msg \<in> dom (q_abs q) then q_abs q
         else (q_abs q)(m_ID msg \<mapsto> (msg, q_nextOrder q)))"
    using Push_ok [OF q, of msg] by blast
  have "Len q' = (if m_ID msg \<in> dom (q_abs q) then Len q else Len q + 1)"
    using q'(3) by (simp add: Len_card [OF q'(2)] Len_card [OF q] dom_q_abs insert_absorb)
  with q' engine_reach.push [OF assms q'(1)] show ?thesis by blast
qed

theorem push_refines_insert_witness:
  "\<exists>q q'. engine_reach ModeLIFO 0 q \<and> ''d'' \<notin> dom (q_abs q) \<and>
     Push q (ex_msg ''d'' 4 0 0) = Some q' \<and> Len q' = Len q + 1"
proof -
  obtain q where q: "ex_queue ModeLIFO = Some q" "engine_reach ModeLIFO 0 q"
    using ex_queue_LIFO by blast
  have "map_option (\<lambda>q. map_of (q_byID q) ''d'') (ex_queue ModeLIFO) = Some None"
    by code_simp
  then have "''d'' \<notin> dom (q_abs q)" using q(1) by (auto simp: q_abs_def)
  moreover obtain q' where "Push q (ex_msg ''d'' 4 0 0) = Some q'"
      "Len q' = (if m_ID (ex_msg ''d'' 4 0 0) \<in> dom (q_abs q) then Len q else Len q + 1)"
    using push_refines_insert [OF q(2), of "ex_msg ''d'' 4 0 0"] by blast
  ultimately show ?thesis using q(2) by (auto simp: ex_msg_def)
qed

text \<open>
  C4: \<open>Remove\<close> trusts the heap and the position an item records about itself, and they are right:
  it removes exactly the message with the given ID, whichever heap holds it, reports whether there
  was one, and leaves every other message in place.
\<close>

theorem remove_deletes_exactly:
  assumes "engine_reach mode t q"
  shows "\<exists>q'. Remove q mid = Some (mid \<in> dom (q_abs q), q') \<and> engine_reach mode t q' \<and>
    q_abs q' = (q_abs q)(mid := None)"
proof -
  have q: "q_inv q" using engine_reach_inv [OF assms] by auto
  from Remove_ok [OF q, of mid] show ?thesis
    using engine_reach.remove [OF assms] by blast
qed

theorem remove_deletes_exactly_witness:
  "\<exists>q q'. engine_reach ModeLIFO 0 q \<and> Remove q ''c'' = Some (True, q') \<and>
     q_abs q' = (q_abs q)(''c'' := None)"
proof -
  obtain q where q: "ex_queue ModeLIFO = Some q" "engine_reach ModeLIFO 0 q"
    using ex_queue_LIFO by blast
  have "map_option (\<lambda>q. map_option fst (Remove q ''c'')) (ex_queue ModeLIFO) = Some (Some True)"
    by code_simp
  then obtain q' where "Remove q ''c'' = Some (True, q')" using q(1) by auto
  with remove_deletes_exactly [OF q(2), of "''c''"] q(2) show ?thesis by auto
qed

text \<open>
  C5: the list of ready messages a snapshot shows is exactly what popping until the queue has
  nothing to offer returns, in that order, for every queue whose arrival counter has not wrapped.
\<close>

theorem snapshot_is_delivery_order:
  assumes "engine_reach mode t q" "t \<le> now" "orders_fresh q"
  shows "\<exists>v q'. Snapshot q now 0 = Some (v, q') \<and> drain (Len q) q now = Some (vw_Ready v)"
proof -
  have q: "q_inv q" "matured q t" "Mode q = mode"
    using engine_reach_inv [OF assms(1)] by auto
  obtain v q' rs where v: "Snapshot q now 0 = Some (v, q')" "vw_Ready v = map fst rs"
      "in_order (ready_lt (Mode q)) (visible (q_abs q) now) rs" "vw_ReadyLen v = length rs"
      "q_inv q'" "q_abs q' = q_abs q"
    using Snapshot_ok [OF q(1,2) assms(2), of 0] by (auto simp: limited_def)
  have "card (visible (q_abs q) now) \<le> Len q"
    using Snapshot_total [OF q(1) v(1,5,6)] in_order_card [OF v(3)] v(4) by simp
  then obtain es where es: "drain (Len q) q now = Some (map fst es)"
      "in_order (ready_lt (Mode q)) (visible (q_abs q) now) es"
    using drain_ok [OF q(1,2) assms(2)] by blast
  have "es = rs"
    using assms(3)
    by (intro in_order_unique [OF weak_order_ready es(2) v(3)] ready_lt_total)
      (auto simp: orders_fresh_def inj_on_def visible_def)
  with v es show ?thesis by auto
qed

text \<open>
  C6: a snapshot lists the visible messages by the selection rule and the hidden ones by maturity,
  each cut to the limit, with truncation flags and totals that describe the whole queue, and it
  consumes nothing.
\<close>

theorem snapshot_contents:
  assumes "engine_reach mode t q" "t \<le> now"
  shows "\<exists>v q' rs ds. Snapshot q now limit = Some (v, q') \<and> engine_reach mode now q' \<and>
    q_abs q' = q_abs q \<and>
    in_order (ready_lt mode) (visible (q_abs q) now) rs \<and>
    in_order delayed_lt (hidden (q_abs q) now) ds \<and>
    vw_Ready v = map fst (if limit > 0 then take (nat limit) rs else rs) \<and>
    vw_Delayed v = map fst (if limit > 0 then take (nat limit) ds else ds) \<and>
    vw_ReadyTruncated v = (limit > 0 \<and> int (length rs) > limit) \<and>
    vw_DelayedTruncated v = (limit > 0 \<and> int (length ds) > limit) \<and>
    vw_ReadyLen v = card (visible (q_abs q) now) \<and> vw_DelayedLen v = card (hidden (q_abs q) now) \<and>
    vw_ReadyLen v + vw_DelayedLen v = Len q"
proof -
  have q: "q_inv q" "matured q t" "Mode q = mode"
    using engine_reach_inv [OF assms(1)] by auto
  obtain v q' rs ds where s: "Snapshot q now limit = Some (v, q')" "q_inv q'" "q_abs q' = q_abs q"
      "in_order (ready_lt mode) (visible (q_abs q) now) rs" "in_order delayed_lt (hidden (q_abs q) now) ds"
      "vw_Ready v = map fst (limited limit rs)" "vw_Delayed v = map fst (limited limit ds)"
      "vw_ReadyLen v = length rs" "vw_DelayedLen v = length ds"
      "vw_ReadyTruncated v = (limit > 0 \<and> int (length rs) > limit)"
      "vw_DelayedTruncated v = (limit > 0 \<and> int (length ds) > limit)"
    using Snapshot_ok [OF q(1,2) assms(2), of limit] q(3) by blast
  have "vw_ReadyLen v + vw_DelayedLen v = Len q"
    using s(1,2,3) by (rule Snapshot_total [OF q(1)])
  with s in_order_card [OF s(4)] in_order_card [OF s(5)] engine_reach.snapshot [OF assms s(1)]
  show ?thesis
    unfolding limited_def
    by (intro exI [of _ v] exI [of _ q'] exI [of _ rs] exI [of _ ds]) simp
qed

theorem snapshot_contents_witness:
  "\<exists>q v q'. engine_reach ModeLIFO 0 q \<and> Snapshot q 50 1 = Some (v, q') \<and>
     map m_ID (vw_Ready v) = [''b''] \<and> map m_ID (vw_Delayed v) = [''c''] \<and>
     vw_ReadyTruncated v \<and> \<not> vw_DelayedTruncated v \<and>
     vw_ReadyLen v = 2 \<and> vw_DelayedLen v = 1 \<and> vw_ReadyLen v + vw_DelayedLen v = Len q"
proof -
  obtain q where q: "ex_queue ModeLIFO = Some q" "engine_reach ModeLIFO 0 q"
    using ex_queue_LIFO by blast
  have "map_option (\<lambda>q. map_option (\<lambda>(v, _). (map m_ID (vw_Ready v), map m_ID (vw_Delayed v),
      vw_ReadyTruncated v, vw_DelayedTruncated v, vw_ReadyLen v, vw_DelayedLen v)) (Snapshot q 50 1))
      (ex_queue ModeLIFO) = Some (Some ([''b''], [''c''], True, False, 2, 1))"
    by code_simp
  moreover obtain v q' where "Snapshot q 50 1 = Some (v, q')" "vw_ReadyLen v + vw_DelayedLen v = Len q"
    using snapshot_contents [OF q(2), of 50 1] by auto
  ultimately show ?thesis using q by auto
qed

text \<open>
  C7: \<open>Peek\<close> shows the message \<open>Pop\<close> would return for the same \<open>now\<close> and leaves the contents alone.
\<close>

theorem peek_shows_next_pop:
  assumes "engine_reach mode t q" "t \<le> now"
  shows "\<exists>r q' q''. Peek q now = Some (r, q') \<and> Pop q now = Some (r, q'') \<and> q_abs q' = q_abs q"
proof -
  have q: "q_inv q" "matured q t"
    using engine_reach_inv [OF assms(1)] by auto
  from Peek_ok [OF q assms(2)] show ?thesis by auto
qed

theorem peek_shows_next_pop_witness:
  "\<exists>q r q' q''. engine_reach ModeLIFO 0 q \<and> Peek q 50 = Some (r, q') \<and> Pop q 50 = Some (r, q'')"
proof -
  obtain q where "engine_reach ModeLIFO 0 q" using ex_queue_LIFO by blast
  with peek_shows_next_pop [OF this, of 50] show ?thesis by auto
qed

text \<open>
  C8: after any sequence of calls with fewer than 2^64 pushes - pops, removals, peeks, counts and
  snapshots in any order between them - the arrival counters of the stored messages are pairwise
  different, lie below the next counter to assign, and that one is at most the number of pushes;
  so both comparators are total on the stored messages and the heaps' order leaves no ties.
\<close>

theorem arrival_orders_stay_distinct:
  assumes "engine_run mode n t q" "n < 2 ^ 64"
  shows "orders_fresh q \<and> unat (q_nextOrder q) \<le> n \<and>
    (\<forall>a \<in> ran (q_abs q). \<forall>b \<in> ran (q_abs q). a \<noteq> b \<longrightarrow>
       snd a \<noteq> snd b \<and> (ready_lt mode a b \<or> ready_lt mode b a) \<and> (delayed_lt a b \<or> delayed_lt b a))"
proof -
  have fresh: "orders_fresh q" "unat (q_nextOrder q) \<le> n"
    using engine_run_fresh [OF assms] by auto
  then have "snd a \<noteq> snd b" if "a \<in> ran (q_abs q)" "b \<in> ran (q_abs q)" "a \<noteq> b" for a b
    using that by (auto simp: orders_fresh_def inj_on_def)
  with fresh show ?thesis
    using ready_lt_total delayed_lt_total by blast
qed

lemma ex_queue_run:
  assumes "ex_queue mode = Some q"
  shows "engine_run mode 3 t q"
proof -
  obtain q0 q1 q2 where q: "NewFrankensteinQueue mode = Inr q0" "Push q0 (ex_msg ''a'' 1 5 0) = Some q1"
      "Push q1 (ex_msg ''b'' 2 5 0) = Some q2" "Push q2 (ex_msg ''c'' 3 9 100) = Some q"
    using assms by (auto simp: ex_queue_def bind_eq_Some_conv split: sum.splits)
  have "engine_run mode (Suc (Suc (Suc 0))) t q"
    by (rule engine_run.push [OF engine_run.push [OF engine_run.push [OF engine_run.new]]]) (rule q)+
  then show ?thesis by (simp add: numeral_3_eq_3)
qed

lemma ex_queue_fresh: "ex_queue mode = Some q \<Longrightarrow> orders_fresh q"
  using engine_run_fresh [OF ex_queue_run, of mode q] by simp

theorem snapshot_is_delivery_order_witness:
  "\<exists>q v q'. engine_reach ModeLIFO 0 q \<and> Snapshot q 200 0 = Some (v, q') \<and>
     drain (Len q) q 200 = Some (vw_Ready v) \<and> map m_ID (vw_Ready v) = [''c'', ''b'', ''a'']"
proof -
  obtain q where q: "ex_queue ModeLIFO = Some q" "engine_reach ModeLIFO 0 q"
    using ex_queue_LIFO by blast
  have "map_option (\<lambda>q. map_option (\<lambda>(v, _). map m_ID (vw_Ready v)) (Snapshot q 200 0))
      (ex_queue ModeLIFO) = Some (Some [''c'', ''b'', ''a''])"
    by code_simp
  with snapshot_is_delivery_order [OF q(2) _ ex_queue_fresh [OF q(1)], of 200] q show ?thesis
    by auto
qed

theorem arrival_orders_stay_distinct_witness:
  "\<exists>q r q'. engine_run ModeLIFO 3 0 q \<and> Pop q 50 = Some (r, q') \<and> engine_run ModeLIFO 3 50 q' \<and>
     Len q' = 2 \<and> orders_fresh q' \<and> unat (q_nextOrder q') \<le> 3"
proof -
  obtain q where q: "ex_queue ModeLIFO = Some q"
    using ex_queue_LIFO by blast
  have "map_option (\<lambda>q. map_option (\<lambda>(_, q'). Len q') (Pop q 50)) (ex_queue ModeLIFO) = Some (Some 2)"
    by code_simp
  then obtain r q' where p: "Pop q 50 = Some (r, q')" "Len q' = 2"
    using q by auto
  then have "engine_run ModeLIFO 3 50 q'"
    using engine_run.pop [OF ex_queue_run [OF q, of 0] _ p(1)] by simp
  with arrival_orders_stay_distinct [OF this] p ex_queue_run [OF q] show ?thesis
    by auto
qed

end
