(* ===== verification/Utf8.thy ===== *)
theory Utf8
  imports Prelude
begin

text \<open>
  UTF-8 as package \<^verbatim>\<open>unicode/utf8\<close> defines it: decoding one rune at the head of a byte string
  (an ill-formed sequence is the replacement character of width 1), encoding one rune, and the
  byte string that results when every ill-formed byte is replaced.  \<^verbatim>\<open>encoding/json\<close> passes
  strings through these functions in both directions.
\<close>

type_synonym rune = nat

definition byte :: "char \<Rightarrow> nat" where "byte c = of_char c"
definition chr :: "nat \<Rightarrow> char" where "chr n = char_of n"

lemma byte_chr [simp]: "n < 256 \<Longrightarrow> byte (chr n) = n"
  by (simp add: byte_def chr_def)

lemma chr_byte [simp]: "chr (byte c) = c"
  by (simp add: byte_def chr_def)

lemma byte_less [simp]: "byte c < 256"
  by (simp add: byte_def)

lemma byte_inj [simp]: "byte c = byte d \<longleftrightarrow> c = d"
  by (simp add: byte_def)

definition RuneError :: rune where "RuneError = 0xFFFD"

definition cont :: "nat \<Rightarrow> bool" where
  "cont b \<longleftrightarrow> 0x80 \<le> b \<and> b \<le> 0xBF"

fun DecodeRune :: "bytes \<Rightarrow> rune \<times> nat" where
  "DecodeRune [] = (RuneError, 0)"
| "DecodeRune (c # s) =
    (let b0 = byte c in
     if b0 < 0x80 then (b0, 1)
     else if 0xC2 \<le> b0 \<and> b0 \<le> 0xDF then
       (case s of
          c1 # _ \<Rightarrow> if cont (byte c1) then ((b0 - 0xC0) * 64 + (byte c1 - 0x80), 2)
                    else (RuneError, 1)
        | _ \<Rightarrow> (RuneError, 1))
     else if 0xE0 \<le> b0 \<and> b0 \<le> 0xEF then
       (case s of
          c1 # c2 # _ \<Rightarrow>
            if cont (byte c1) \<and> cont (byte c2) \<and>
               (b0 = 0xE0 \<longrightarrow> 0xA0 \<le> byte c1) \<and> (b0 = 0xED \<longrightarrow> byte c1 \<le> 0x9F)
            then ((b0 - 0xE0) * 4096 + (byte c1 - 0x80) * 64 + (byte c2 - 0x80), 3)
            else (RuneError, 1)
        | _ \<Rightarrow> (RuneError, 1))
     else if 0xF0 \<le> b0 \<and> b0 \<le> 0xF4 then
       (case s of
          c1 # c2 # c3 # _ \<Rightarrow>
            if cont (byte c1) \<and> cont (byte c2) \<and> cont (byte c3) \<and>
               (b0 = 0xF0 \<longrightarrow> 0x90 \<le> byte c1) \<and> (b0 = 0xF4 \<longrightarrow> byte c1 \<le> 0x8F)
            then ((b0 - 0xF0) * 262144 + (byte c1 - 0x80) * 4096 + (byte c2 - 0x80) * 64
                  + (byte c3 - 0x80), 4)
            else (RuneError, 1)
        | _ \<Rightarrow> (RuneError, 1))
     else (RuneError, 1))"

definition surrogate :: "rune \<Rightarrow> bool" where
  "surrogate r \<longleftrightarrow> 0xD800 \<le> r \<and> r \<le> 0xDFFF"

definition EncodeRune :: "rune \<Rightarrow> bytes" where
  "EncodeRune r0 =
    (let r = (if surrogate r0 \<or> r0 > 0x10FFFF then RuneError else r0) in
     if r < 0x80 then [chr r]
     else if r < 0x800 then [chr (0xC0 + r div 64), chr (0x80 + r mod 64)]
     else if r < 0x10000 then
       [chr (0xE0 + r div 4096), chr (0x80 + r div 64 mod 64), chr (0x80 + r mod 64)]
     else [chr (0xF0 + r div 262144), chr (0x80 + r div 4096 mod 64),
           chr (0x80 + r div 64 mod 64), chr (0x80 + r mod 64)])"

definition ill_formed :: "bytes \<Rightarrow> bool" where
  "ill_formed s \<longleftrightarrow> DecodeRune s = (RuneError, 1)"

lemma DecodeRune_width:
  assumes "s \<noteq> []"
  shows "1 \<le> snd (DecodeRune s)" and "snd (DecodeRune s) \<le> length s"
  using assms by (cases s; auto simp: Let_def split: list.split if_split)+

lemma DecodeRune_ascii: "byte c < 0x80 \<Longrightarrow> DecodeRune (c # s) = (byte c, 1)"
  by simp

lemma ill_formed_ascii: "byte c < 0x80 \<Longrightarrow> \<not> ill_formed (c # s)"
  by (simp add: ill_formed_def RuneError_def)

declare DecodeRune.simps(2) [simp del]

lemma DecodeRune_cases:
  assumes "s \<noteq> []"
  obtains (ill) "ill_formed s"
  | (one) c t where "s = c # t" "byte c < 0x80" "DecodeRune s = (byte c, 1)"
  | (two) c d t where "s = c # d # t" "0xC2 \<le> byte c" "byte c \<le> 0xDF" "cont (byte d)"
      "DecodeRune s = ((byte c - 0xC0) * 64 + (byte d - 0x80), 2)"
  | (three) c d e t where "s = c # d # e # t" "0xE0 \<le> byte c" "byte c \<le> 0xEF"
      "cont (byte d)" "cont (byte e)"
      "byte c = 0xE0 \<longrightarrow> 0xA0 \<le> byte d" "byte c = 0xED \<longrightarrow> byte d \<le> 0x9F"
      "DecodeRune s = ((byte c - 0xE0) * 4096 + (byte d - 0x80) * 64 + (byte e - 0x80), 3)"
  | (four) c d e f t where "s = c # d # e # f # t" "0xF0 \<le> byte c" "byte c \<le> 0xF4"
      "cont (byte d)" "cont (byte e)" "cont (byte f)"
      "byte c = 0xF0 \<longrightarrow> 0x90 \<le> byte d" "byte c = 0xF4 \<longrightarrow> byte d \<le> 0x8F"
      "DecodeRune s = ((byte c - 0xF0) * 262144 + (byte d - 0x80) * 4096 + (byte e - 0x80) * 64
          + (byte f - 0x80), 4)"
proof -
  obtain c s' where s: "s = c # s'"
    using assms by (cases s) auto
  consider "byte c < 0x80" | "0x80 \<le> byte c" "byte c < 0xC2" | "0xC2 \<le> byte c" "byte c \<le> 0xDF"
    | "0xE0 \<le> byte c" "byte c \<le> 0xEF" | "0xF0 \<le> byte c" "byte c \<le> 0xF4" | "0xF4 < byte c"
    by linarith
  then show thesis
  proof cases
    case 1
    then show ?thesis
      using one s by (simp add: DecodeRune.simps)
  next
    case 2
    then show ?thesis
      using ill s by (simp add: ill_formed_def DecodeRune.simps)
  next
    case 3
    show ?thesis
    proof (cases "\<exists>d t. s' = d # t \<and> cont (byte d)")
      case True
      then show ?thesis
        using two s 3 by (auto simp: DecodeRune.simps)
    next
      case False
      then have "ill_formed s"
        using s 3 by (cases s') (auto simp: ill_formed_def DecodeRune.simps)
      then show ?thesis
        by (rule ill)
    qed
  next
    case 4
    show ?thesis
    proof (cases "\<exists>d e t. s' = d # e # t \<and> cont (byte d) \<and> cont (byte e) \<and>
        (byte c = 0xE0 \<longrightarrow> 0xA0 \<le> byte d) \<and> (byte c = 0xED \<longrightarrow> byte d \<le> 0x9F)")
      case True
      then show ?thesis
        using three s 4 by (auto simp: DecodeRune.simps)
    next
      case False
      then have "ill_formed s"
        using s 4 by (auto simp: ill_formed_def DecodeRune.simps Let_def split: list.split)
      then show ?thesis
        by (rule ill)
    qed
  next
    case 5
    show ?thesis
    proof (cases "\<exists>d e f t. s' = d # e # f # t \<and> cont (byte d) \<and> cont (byte e) \<and> cont (byte f) \<and>
        (byte c = 0xF0 \<longrightarrow> 0x90 \<le> byte d) \<and> (byte c = 0xF4 \<longrightarrow> byte d \<le> 0x8F)")
      case True
      then show ?thesis
        using four s 5 by (auto simp: DecodeRune.simps)
    next
      case False
      then have "ill_formed s"
        using s 5 by (auto simp: ill_formed_def DecodeRune.simps Let_def split: list.split)
      then show ?thesis
        by (rule ill)
    qed
  next
    case 6
    then show ?thesis
      using ill s by (simp add: ill_formed_def DecodeRune.simps)
  qed
qed

text \<open>A well-formed sequence is what its rune is encoded as.\<close>

lemma chr_eqI: "m = byte d \<Longrightarrow> chr m = d"
  by simp

lemma encode_two:
  assumes "0xC2 \<le> b" "b \<le> 0xDF" "cont d"
  shows "EncodeRune ((b - 0xC0) * 64 + (d - 0x80)) = [chr b, chr d]"
proof -
  obtain x y where "b = 0xC0 + x" "d = 0x80 + y" "2 \<le> x" "x < 32" "y < 64"
    using assms by (auto simp: cont_def dest!: le_Suc_ex)
  then show ?thesis
    by (simp add: EncodeRune_def surrogate_def)
qed

lemma digit64:
  assumes "w < (64 :: nat)"
  shows "(w + 64 * k) div 64 = k" and "(w + 64 * k) mod 64 = w"
  using assms by simp_all

lemma encode_three:
  assumes "0xE0 \<le> b" "b \<le> 0xEF" "cont d" "cont e"
    and "b = 0xE0 \<longrightarrow> 0xA0 \<le> d" "b = 0xED \<longrightarrow> d \<le> 0x9F"
  shows "EncodeRune ((b - 0xE0) * 4096 + (d - 0x80) * 64 + (e - 0x80)) = [chr b, chr d, chr e]"
proof -
  obtain x y z where eq: "b = 0xE0 + x" "d = 0x80 + y" "e = 0x80 + z" "x < 16" "y < 64" "z < 64"
    using assms by (auto simp: cont_def dest!: le_Suc_ex)
  define r where "r = z + 64 * (y + 64 * x)"
  have sum: "x * 4096 + y * 64 + z = r"
    by (simp add: r_def)
  have r: "r \<ge> 0x800" "r < 0x10000"
    using eq assms(5) by (auto simp: r_def)
  have "x = 13 \<longrightarrow> y \<le> 31"
    using eq assms(6) by auto
  then have "\<not> surrogate r"
    using eq(4-) unfolding surrogate_def r_def by (cases x "13 :: nat" rule: linorder_cases) auto
  have "r div 64 = y + 64 * x" "r mod 64 = z"
    using eq(4-) by (simp_all only: r_def digit64)
  then have "r div 4096 = x" "r div 64 mod 64 = y" "r mod 64 = z"
    using eq(4-) div_mult2_eq [of r 64 64] by simp_all
  with \<open>\<not> surrogate r\<close> show ?thesis
    using r eq by (simp add: EncodeRune_def sum)
qed

lemma encode_four:
  assumes "0xF0 \<le> b" "b \<le> 0xF4" "cont d" "cont e" "cont f"
    and "b = 0xF0 \<longrightarrow> 0x90 \<le> d" "b = 0xF4 \<longrightarrow> d \<le> 0x8F"
  shows "EncodeRune ((b - 0xF0) * 262144 + (d - 0x80) * 4096 + (e - 0x80) * 64 + (f - 0x80))
    = [chr b, chr d, chr e, chr f]"
proof -
  obtain x y z w where eq: "b = 0xF0 + x" "d = 0x80 + y" "e = 0x80 + z" "f = 0x80 + w"
      "x < 5" "y < 64" "z < 64" "w < 64"
    using assms by (auto simp: cont_def dest!: le_Suc_ex)
  define r where "r = w + 64 * (z + 64 * (y + 64 * x))"
  have sum: "x * 262144 + y * 4096 + z * 64 + w = r"
    by (simp add: r_def)
  have r: "r \<ge> 0x10000" "r \<le> 0x10FFFF" "\<not> surrogate r"
    using eq assms(6,7) by (auto simp: r_def surrogate_def)
  have 1: "r div 64 = z + 64 * (y + 64 * x)" "r mod 64 = w"
    using eq(5-) by (simp_all only: r_def digit64)
  have 2: "r div 64 div 64 = y + 64 * x" "r div 64 mod 64 = z"
    using eq(5-) by (simp_all only: 1 digit64)
  have 3: "r div 64 div 64 div 64 = x" "r div 64 div 64 mod 64 = y"
    using eq(5-) by (simp_all add: 2)
  have "r div 262144 = r div 64 div 64 div 64" "r div 4096 = r div 64 div 64"
    by (simp_all flip: div_mult2_eq)
  with 1 2 3 have "r div 262144 = x" "r div 4096 mod 64 = y" "r div 64 mod 64 = z" "r mod 64 = w"
    by simp_all
  then show ?thesis
    using r eq by (simp add: EncodeRune_def sum)
qed

lemma EncodeRune_DecodeRune:
  assumes "s \<noteq> []" and "\<not> ill_formed s"
  shows "EncodeRune (fst (DecodeRune s)) = take (snd (DecodeRune s)) s"
  using assms(1)
proof (cases rule: DecodeRune_cases)
  case ill
  with assms(2) show ?thesis by simp
next
  case (one c t)
  then show ?thesis by (simp add: EncodeRune_def surrogate_def)
next
  case (two c d t)
  then show ?thesis by (simp add: encode_two)
next
  case (three c d e t)
  then show ?thesis by (simp add: encode_three)
next
  case (four c d e f t)
  then show ?thesis by (simp add: encode_four)
qed

text \<open>Byte strings that are well-formed throughout, and the replacement of ill-formed bytes.\<close>

lemma drop_rune_shorter [simp]: "length (drop (snd (DecodeRune (c # s))) (c # s)) < length (c # s)"
  using DecodeRune_width [of "c # s"] by simp

function valid_utf8 :: "bytes \<Rightarrow> bool" where
  "valid_utf8 [] = True"
| "valid_utf8 (c # s) =
    (\<not> ill_formed (c # s) \<and> valid_utf8 (drop (snd (DecodeRune (c # s))) (c # s)))"
  by pat_completeness auto
termination
  by (relation "measure length") (simp, unfold in_measure, rule drop_rune_shorter)

function ToValidUTF8 :: "bytes \<Rightarrow> bytes" where
  "ToValidUTF8 [] = []"
| "ToValidUTF8 (c # s) =
    EncodeRune (fst (DecodeRune (c # s))) @
    ToValidUTF8 (drop (snd (DecodeRune (c # s))) (c # s))"
  by pat_completeness auto
termination
  by (relation "measure length") (simp, unfold in_measure, rule drop_rune_shorter)

lemma ToValidUTF8_valid: "valid_utf8 s \<Longrightarrow> ToValidUTF8 s = s"
proof (induction s rule: ToValidUTF8.induct)
  case (2 c s)
  then have "ToValidUTF8 (c # s) =
      take (snd (DecodeRune (c # s))) (c # s) @ drop (snd (DecodeRune (c # s))) (c # s)"
    using EncodeRune_DecodeRune [of "c # s"] by simp
  then show ?case
    by (metis append_take_drop_id)
qed simp

lemma valid_utf8_ascii: "(\<And>c. c \<in> set s \<Longrightarrow> byte c < 0x80) \<Longrightarrow> valid_utf8 s"
  by (induction s) (auto simp: DecodeRune_ascii ill_formed_ascii)

end
