(* ===== verification/Json.thy ===== *)
theory Json
  imports Utf8 "HOL-Library.Code_Target_Nat"
begin

text \<open>
  The part of \<^verbatim>\<open>encoding/json\<close> and \<^verbatim>\<open>strconv\<close> the program relies on, byte for byte: the scanner
  as the byte-driven automaton with a parse stack that the library implements, here extended with
  the value it has read; string escaping with the HTML-safe table and its inverse; decimal
  integers; and the name folding with which object keys are matched to struct fields.

  The facts the log rests on are that an encoded object scans back to its members, that no
  encoding contains a line break, and that a proper prefix of an object is never accepted.
\<close>

section \<open>Decimal integers\<close>

definition is_digit :: "char \<Rightarrow> bool" where
  "is_digit c \<longleftrightarrow> 48 \<le> byte c \<and> byte c \<le> 57"

definition digit :: "nat \<Rightarrow> char" where "digit n = chr (48 + n)"

definition digit_val :: "char \<Rightarrow> nat" where "digit_val c = byte c - 48"

fun dec :: "nat \<Rightarrow> bytes" where
  "dec n = (if n < 10 then [digit n] else dec (n div 10) @ [digit (n mod 10)])"

declare dec.simps [simp del]

definition dec_val :: "bytes \<Rightarrow> nat" where
  "dec_val s = foldl (\<lambda>a c. 10 * a + digit_val c) 0 s"

definition Itoa :: "int \<Rightarrow> bytes" where
  "Itoa i = (if i < 0 then CHR ''-'' # dec (nat (- i)) else dec (nat i))"

definition ParseUint :: "bytes \<Rightarrow> uint64 option" where
  "ParseUint s =
    (if s \<noteq> [] \<and> list_all is_digit s \<and> dec_val s < 2 ^ 64 then Some (of_nat (dec_val s)) else None)"

definition ParseInt :: "bytes \<Rightarrow> int option" where
  "ParseInt s =
    (let neg = (case s of c # _ \<Rightarrow> c = CHR ''-'' | [] \<Rightarrow> False);
         ds = (case s of c # t \<Rightarrow> if c = CHR ''-'' \<or> c = CHR ''+'' then t else s | [] \<Rightarrow> s)
     in if ds = [] \<or> \<not> list_all is_digit ds then None
        else let n = int (dec_val ds) in
             if neg then (if n \<le> 2 ^ 63 then Some (- n) else None)
             else (if n < 2 ^ 63 then Some n else None))"

definition int64_range :: "int \<Rightarrow> bool" where
  "int64_range i \<longleftrightarrow> - (2 ^ 63) \<le> i \<and> i < 2 ^ 63"

lemma is_digit_digit [simp]: "n < 10 \<Longrightarrow> is_digit (digit n)"
  by (simp add: is_digit_def digit_def)

lemma digit_val_digit [simp]: "n < 10 \<Longrightarrow> digit_val (digit n) = n"
  by (simp add: digit_val_def digit_def)

lemma dec_digits: "list_all is_digit (dec n)"
  by (induction n rule: dec.induct) (subst dec.simps, auto)

lemma dec_nonempty [simp]: "dec n \<noteq> []"
  by (subst dec.simps) simp

lemma dec_val_append: "dec_val (s @ [c]) = 10 * dec_val s + digit_val c"
  by (simp add: dec_val_def)

lemma dec_val_dec [simp]: "dec_val (dec n) = n"
proof (induction n rule: dec.induct)
  case (1 n)
  show ?case
  proof (cases "n < 10")
    case True
    then show ?thesis
      by (subst dec.simps) (simp add: dec_val_def)
  next
    case False
    then have "dec_val (dec n) = 10 * dec_val (dec (n div 10)) + n mod 10"
      by (subst dec.simps) (simp add: dec_val_append)
    with 1 [OF False] show ?thesis
      by simp
  qed
qed

lemma dec_hd: "0 < n \<Longrightarrow> digit_val (hd (dec n)) \<noteq> 0 \<and> is_digit (hd (dec n))"
proof (induction n rule: dec.induct)
  case (1 n)
  show ?case
  proof (cases "n < 10")
    case True
    then show ?thesis
      using 1 by (subst (1 2) dec.simps) simp
  next
    case False
    moreover have "hd (dec n) = hd (dec (n div 10))"
      using False by (subst dec.simps) (simp add: hd_append)
    ultimately show ?thesis
      using 1 by simp
  qed
qed

lemma ParseUint_dec: "ParseUint (dec (unat w)) = Some w"
  using unsigned_less [of w, where ?'a = nat] by (simp add: ParseUint_def dec_digits)

lemma not_digit [simp]: "\<not> is_digit (CHR ''-'')" "\<not> is_digit (CHR ''+'')"
  by (simp_all add: is_digit_def byte_def)

lemma dec_not_sign: "dec n = c # s \<Longrightarrow> is_digit c"
  using dec_digits [of n] by simp

lemma ParseInt_Itoa: "int64_range i \<Longrightarrow> ParseInt (Itoa i) = Some i"
proof (cases "i < 0")
  case True
  assume "int64_range i"
  with True show ?thesis
    by (simp add: ParseInt_def Itoa_def dec_digits int64_range_def Let_def)
next
  case False
  assume range: "int64_range i"
  obtain c s where cs: "dec (nat i) = c # s"
    using dec_nonempty [of "nat i"] by (cases "dec (nat i)") auto
  then have "c \<noteq> CHR ''-''" "c \<noteq> CHR ''+''" "list_all is_digit (c # s)" "dec_val (c # s) = nat i"
    using dec_not_sign not_digit dec_digits dec_val_dec by metis+
  then show ?thesis
    using False range cs by (simp add: ParseInt_def Itoa_def int64_range_def Let_def)
qed

lemma ParseInt_Itoa_range: "ParseInt (Itoa i) = (if int64_range i then Some i else None)"
proof (cases "int64_range i")
  case False
  obtain c s where cs: "dec (nat i) = c # s"
    using dec_nonempty [of "nat i"] by (cases "dec (nat i)") auto
  then have "c \<noteq> CHR ''-''" "c \<noteq> CHR ''+''" "list_all is_digit (c # s)" "dec_val (c # s) = nat i"
    using dec_not_sign not_digit dec_digits dec_val_dec by metis+
  then show ?thesis
    using False cs by (auto simp: ParseInt_def Itoa_def dec_digits int64_range_def Let_def)
qed (simp add: ParseInt_Itoa)

section \<open>The scanner\<close>

abbreviation (input) dq :: char where "dq \<equiv> CHR 0x22"
abbreviation (input) bs :: char where "bs \<equiv> CHR 0x5C"

datatype json =
    JNull
  | JBool bool
  | JNum bytes
  | JStr bytes
  | JArr "json list"
  | JObj "(bytes \<times> json) list"

text \<open>
  A string value and an object key keep the bytes between the quotes as they stand in the text:
  a \<^verbatim>\<open>time.Time\<close> field is decoded from these raw bytes, a string field from their unquoting.
\<close>

datatype frame =
    ObjectKey "(bytes \<times> json) list" bytes
  | ObjectValue "(bytes \<times> json) list" bytes
  | ArrayValue "json list"

datatype scan_state =
    BeginValue | BeginValueOrEmpty | BeginStringOrEmpty | BeginString
  | EndValue | EndTop json
  | InString bytes | InStringEsc bytes | InStringEscU bytes nat
  | Neg bytes | Digits1 bytes | Digit0 bytes | Dot bytes | Dot0 bytes
  | Exp bytes | ExpSign bytes | Exp0 bytes
  | Lit bytes json

type_synonym scan = "scan_state \<times> frame list"

definition maxNestingDepth :: nat where "maxNestingDepth = 10000"

definition isSpace :: "char \<Rightarrow> bool" where
  "isSpace c \<longleftrightarrow> c = CHR '' '' \<or> c = CHR 0x09 \<or> c = CHR 0x0D \<or> c = CHR 0x0A"

definition is_hex :: "char \<Rightarrow> bool" where
  "is_hex c \<longleftrightarrow> is_digit c \<or> 97 \<le> byte c \<and> byte c \<le> 102 \<or> 65 \<le> byte c \<and> byte c \<le> 70"

fun finish :: "json \<Rightarrow> frame list \<Rightarrow> scan" where
  "finish v [] = (EndTop v, [])"
| "finish v (ObjectKey ms k # stk) =
    (EndValue, ObjectKey ms (case v of JStr r \<Rightarrow> r | _ \<Rightarrow> k) # stk)"
| "finish v (ObjectValue ms k # stk) = (EndValue, ObjectValue (ms @ [(k, v)]) k # stk)"
| "finish v (ArrayValue vs # stk) = (EndValue, ArrayValue (vs @ [v]) # stk)"

fun stateEndValue :: "char \<Rightarrow> scan \<Rightarrow> scan option" where
  "stateEndValue c (EndTop v, stk) = (if isSpace c then Some (EndTop v, stk) else None)"
| "stateEndValue c (EndValue, f # stk) =
    (if isSpace c then Some (EndValue, f # stk)
     else case f of
       ObjectKey ms k \<Rightarrow> if c = CHR '':'' then Some (BeginValue, ObjectValue ms k # stk) else None
     | ObjectValue ms k \<Rightarrow>
         if c = CHR '','' then Some (BeginString, ObjectKey ms [] # stk)
         else if c = CHR ''}'' then Some (finish (JObj ms) stk)
         else None
     | ArrayValue vs \<Rightarrow>
         if c = CHR '','' then Some (BeginValue, ArrayValue vs # stk)
         else if c = CHR '']'' then Some (finish (JArr vs) stk)
         else None)"
| "stateEndValue c _ = None"

definition pushParseState :: "frame \<Rightarrow> scan_state \<Rightarrow> frame list \<Rightarrow> scan option" where
  "pushParseState f st stk =
    (if length (f # stk) \<le> maxNestingDepth then Some (st, f # stk) else None)"

definition stateBeginValue :: "char \<Rightarrow> frame list \<Rightarrow> scan option" where
  "stateBeginValue c stk =
    (if isSpace c then Some (BeginValue, stk)
     else if c = CHR ''{'' then pushParseState (ObjectKey [] []) BeginStringOrEmpty stk
     else if c = CHR ''['' then pushParseState (ArrayValue []) BeginValueOrEmpty stk
     else if c = dq then Some (InString [], stk)
     else if c = CHR ''-'' then Some (Neg [c], stk)
     else if c = CHR ''0'' then Some (Digit0 [c], stk)
     else if is_digit c then Some (Digits1 [c], stk)
     else if c = CHR ''t'' then Some (Lit ''rue'' (JBool True), stk)
     else if c = CHR ''f'' then Some (Lit ''alse'' (JBool False), stk)
     else if c = CHR ''n'' then Some (Lit ''ull'' JNull, stk)
     else None)"

definition stateBeginString :: "char \<Rightarrow> frame list \<Rightarrow> scan option" where
  "stateBeginString c stk =
    (if isSpace c then Some (BeginString, stk)
     else if c = dq then Some (InString [], stk)
     else None)"

definition state0 :: "bytes \<Rightarrow> char \<Rightarrow> frame list \<Rightarrow> scan option" where
  "state0 acc c stk =
    (if c = CHR ''.'' then Some (Dot (acc @ [c]), stk)
     else if c = CHR ''e'' \<or> c = CHR ''E'' then Some (Exp (acc @ [c]), stk)
     else stateEndValue c (finish (JNum acc) stk))"

definition stateESign :: "bytes \<Rightarrow> char \<Rightarrow> frame list \<Rightarrow> scan option" where
  "stateESign acc c stk = (if is_digit c then Some (Exp0 (acc @ [c]), stk) else None)"

fun step :: "char \<Rightarrow> scan \<Rightarrow> scan option" where
  "step c (BeginValue, stk) = stateBeginValue c stk"
| "step c (BeginValueOrEmpty, stk) =
    (if isSpace c then Some (BeginValueOrEmpty, stk)
     else if c = CHR '']'' then stateEndValue c (EndValue, stk)
     else stateBeginValue c stk)"
| "step c (BeginStringOrEmpty, stk) =
    (if isSpace c then Some (BeginStringOrEmpty, stk)
     else if c = CHR ''}'' then
       (case stk of
          ObjectKey ms k # stk' \<Rightarrow> stateEndValue c (EndValue, ObjectValue ms k # stk')
        | _ \<Rightarrow> None)
     else stateBeginString c stk)"
| "step c (BeginString, stk) = stateBeginString c stk"
| "step c (EndValue, stk) = stateEndValue c (EndValue, stk)"
| "step c (EndTop v, stk) = stateEndValue c (EndTop v, stk)"
| "step c (InString acc, stk) =
    (if c = dq then Some (finish (JStr acc) stk)
     else if c = bs then Some (InStringEsc (acc @ [c]), stk)
     else if byte c < 0x20 then None
     else Some (InString (acc @ [c]), stk))"
| "step c (InStringEsc acc, stk) =
    (if c \<in> set [CHR ''b'', CHR ''f'', CHR ''n'', CHR ''r'', CHR ''t'', bs, CHR ''/'', dq]
     then Some (InString (acc @ [c]), stk)
     else if c = CHR ''u'' then Some (InStringEscU (acc @ [c]) 3, stk)
     else None)"
| "step c (InStringEscU acc n, stk) =
    (if is_hex c
     then Some (case n of 0 \<Rightarrow> InString (acc @ [c]) | Suc n' \<Rightarrow> InStringEscU (acc @ [c]) n', stk)
     else None)"
| "step c (Neg acc, stk) =
    (if c = CHR ''0'' then Some (Digit0 (acc @ [c]), stk)
     else if is_digit c then Some (Digits1 (acc @ [c]), stk)
     else None)"
| "step c (Digits1 acc, stk) =
    (if is_digit c then Some (Digits1 (acc @ [c]), stk) else state0 acc c stk)"
| "step c (Digit0 acc, stk) = state0 acc c stk"
| "step c (Dot acc, stk) = (if is_digit c then Some (Dot0 (acc @ [c]), stk) else None)"
| "step c (Dot0 acc, stk) =
    (if is_digit c then Some (Dot0 (acc @ [c]), stk)
     else if c = CHR ''e'' \<or> c = CHR ''E'' then Some (Exp (acc @ [c]), stk)
     else stateEndValue c (finish (JNum acc) stk))"
| "step c (Exp acc, stk) =
    (if c = CHR ''+'' \<or> c = CHR ''-'' then Some (ExpSign (acc @ [c]), stk)
     else stateESign acc c stk)"
| "step c (ExpSign acc, stk) = stateESign acc c stk"
| "step c (Exp0 acc, stk) =
    (if is_digit c then Some (Exp0 (acc @ [c]), stk) else stateEndValue c (finish (JNum acc) stk))"
| "step c (Lit rest v, stk) =
    (case rest of
       [] \<Rightarrow> None
     | d # rest' \<Rightarrow>
         if c \<noteq> d then None
         else if rest' = [] then Some (finish v stk)
         else Some (Lit rest' v, stk))"

primrec run :: "bytes \<Rightarrow> scan \<Rightarrow> scan option" where
  "run [] sc = Some sc"
| "run (c # cs) sc = (case step c sc of None \<Rightarrow> None | Some sc' \<Rightarrow> run cs sc')"

definition scan_reset :: scan where "scan_reset = (BeginValue, [])"

text \<open>
  At the end of the input the scanner is fed one space: only then is a number known to be complete.
\<close>

definition scan_eof :: "scan \<Rightarrow> json option" where
  "scan_eof sc = (case step (CHR '' '') sc of Some (EndTop v, _) \<Rightarrow> Some v | _ \<Rightarrow> None)"

definition json_parse :: "bytes \<Rightarrow> json option" where
  "json_parse s = (case run s scan_reset of None \<Rightarrow> None | Some sc \<Rightarrow> scan_eof sc)"

definition json_Valid :: "bytes \<Rightarrow> bool" where
  "json_Valid s \<longleftrightarrow> json_parse s \<noteq> None"

section \<open>Strings\<close>

definition hex :: "nat \<Rightarrow> char" where
  "hex n = (if n < 10 then digit n else chr (87 + n))"

definition hex_val :: "char \<Rightarrow> nat" where
  "hex_val c =
    (if is_digit c then byte c - 48 else if 97 \<le> byte c then byte c - 87 else byte c - 55)"

definition html_safe :: "char \<Rightarrow> bool" where
  "html_safe c \<longleftrightarrow>
     0x20 \<le> byte c \<and> byte c < 0x80 \<and> c \<notin> set [dq, bs, CHR ''&'', CHR ''<'', CHR ''>'']"

definition escape_byte :: "char \<Rightarrow> bytes" where
  "escape_byte c =
    (if html_safe c then [c]
     else if c = bs \<or> c = dq then [bs, c]
     else if c = CHR 0x08 then [bs, CHR ''b'']
     else if c = CHR 0x0C then [bs, CHR ''f'']
     else if c = CHR 0x0A then [bs, CHR ''n'']
     else if c = CHR 0x0D then [bs, CHR ''r'']
     else if c = CHR 0x09 then [bs, CHR ''t'']
     else [bs, CHR ''u'', CHR ''0'', CHR ''0'', hex (byte c div 16), hex (byte c mod 16)])"

text \<open>What the encoder emits for the rune at the head of a non-empty string.\<close>

definition escape_rune :: "bytes \<Rightarrow> bytes" where
  "escape_rune s =
    (let (r, n) = DecodeRune s in
     if byte (hd s) < 0x80 then escape_byte (hd s)
     else if r = RuneError \<and> n = 1 then bs # ''ufffd''
     else if r = 0x2028 \<or> r = 0x2029 then bs # ''u202'' @ [hex (r mod 16)]
     else take n s)"

function escape :: "bytes \<Rightarrow> bytes" where
  "escape [] = []"
| "escape (c # s) =
    escape_rune (c # s) @ escape (drop (snd (DecodeRune (c # s))) (c # s))"
  by pat_completeness auto
termination
  by (relation "measure length") (simp, unfold in_measure, rule drop_rune_shorter)

definition json_quote :: "bytes \<Rightarrow> bytes" where
  "json_quote s = dq # escape s @ [dq]"

definition getu4 :: "bytes \<Rightarrow> nat option" where
  "getu4 s =
    (case s of
       b # u # h1 # h2 # h3 # h4 # _ \<Rightarrow>
         if b = bs \<and> u = CHR ''u'' \<and> is_hex h1 \<and> is_hex h2 \<and> is_hex h3 \<and> is_hex h4
         then Some (((hex_val h1 * 16 + hex_val h2) * 16 + hex_val h3) * 16 + hex_val h4)
         else None
     | _ \<Rightarrow> None)"

definition utf16_DecodeRune :: "nat \<Rightarrow> nat \<Rightarrow> rune" where
  "utf16_DecodeRune r1 r2 =
    (if 0xD800 \<le> r1 \<and> r1 < 0xDC00 \<and> 0xDC00 \<le> r2 \<and> r2 < 0xE000
     then (r1 - 0xD800) * 1024 + (r2 - 0xDC00) + 0x10000 else RuneError)"

text \<open>
  Unquoting the head of the bytes between two quotes: the output and how many bytes it takes.
  The scanner has already rejected every malformed escape.
\<close>

definition unquote_u4 :: "rune \<Rightarrow> bytes \<Rightarrow> bytes \<times> nat" where
  "unquote_u4 r s =
    (if surrogate r then
       (case getu4 (drop 6 s) of
          Some r1 \<Rightarrow> (let d = utf16_DecodeRune r r1 in
            if d \<noteq> RuneError then (EncodeRune d, 12) else (EncodeRune RuneError, 6))
        | None \<Rightarrow> (EncodeRune RuneError, 6))
     else (EncodeRune r, 6))"

definition unescape :: "char \<Rightarrow> char" where
  "unescape e =
    (if e = CHR ''b'' then CHR 0x08
     else if e = CHR ''f'' then CHR 0x0C
     else if e = CHR ''n'' then CHR 0x0A
     else if e = CHR ''r'' then CHR 0x0D
     else if e = CHR ''t'' then CHR 0x09
     else e)"

definition unquote_rune :: "bytes \<Rightarrow> bytes \<times> nat" where
  "unquote_rune s =
    (if s \<noteq> [] \<and> hd s = bs then
       (case getu4 s of
          Some r \<Rightarrow> unquote_u4 r s
        | None \<Rightarrow> (map unescape (take 1 (tl s)), 2))
     else (EncodeRune (fst (DecodeRune s)), max 1 (snd (DecodeRune s))))"

lemma unquote_rune_width: "1 \<le> snd (unquote_rune s)"
  by (simp add: unquote_rune_def unquote_u4_def Let_def split: option.split)

function unquote :: "bytes \<Rightarrow> bytes" where
  "unquote [] = []"
| "unquote (c # s) =
    fst (unquote_rune (c # s)) @ unquote (drop (snd (unquote_rune (c # s))) (c # s))"
  by pat_completeness auto
termination
proof (relation "measure length")
  show "(drop (snd (unquote_rune (c # s))) (c # s), c # s) \<in> measure length" for c s
    using unquote_rune_width [of "c # s"] by simp
qed simp

section \<open>Matching object keys to struct fields\<close>

text \<open>
  A key that is no field name is compared again after folding.  Every field name of the program
  is ASCII, and the only runes beyond ASCII that fold to an ASCII letter are U+017F (to S) and
  U+212A (to K).
\<close>

definition fold_ascii :: "char \<Rightarrow> char" where
  "fold_ascii c = (if 97 \<le> byte c \<and> byte c \<le> 122 then chr (byte c - 32) else c)"

fun foldName :: "bytes \<Rightarrow> bytes" where
  "foldName (a # b # c # s) =
    (if byte a = 0xC5 \<and> byte b = 0xBF then CHR ''S'' # foldName (c # s)
     else if byte a = 0xE2 \<and> byte b = 0x84 \<and> byte c = 0xAA then CHR ''K'' # foldName s
     else fold_ascii a # foldName (b # c # s))"
| "foldName [a, b] =
    (if byte a = 0xC5 \<and> byte b = 0xBF then ''S'' else [fold_ascii a, fold_ascii b])"
| "foldName [a] = [fold_ascii a]"
| "foldName [] = []"

definition field_for :: "bytes list \<Rightarrow> bytes \<Rightarrow> bytes option" where
  "field_for names key =
    (if key \<in> set names then Some key
     else List.find (\<lambda>n. foldName n = foldName key) names)"

section \<open>Reading back an encoded string\<close>

definition plain :: "char \<Rightarrow> bool" where
  "plain c \<longleftrightarrow> 0x20 \<le> byte c \<and> c \<noteq> dq \<and> c \<noteq> bs"

lemma run_append: "run (a @ b) sc = (case run a sc of None \<Rightarrow> None | Some sc' \<Rightarrow> run b sc')"
  by (induction a arbitrary: sc) (auto split: option.split)

lemma run_plain: "list_all plain s \<Longrightarrow> run s (InString acc, stk) = Some (InString (acc @ s), stk)"
  by (induction s arbitrary: acc) (auto simp: plain_def)

lemma hex_is_hex [simp]: "n < 16 \<Longrightarrow> is_hex (hex n)"
  by (auto simp: hex_def is_hex_def is_digit_def digit_def)

lemma hex_val_hex [simp]: "n < 16 \<Longrightarrow> hex_val (hex n) = n"
  by (auto simp: hex_def hex_val_def is_digit_def digit_def)

lemma nibble [simp]: "byte c div 16 < 16"
  by (rule less_mult_imp_div_less) simp

lemma run_u4:
  assumes "is_hex a" "is_hex b" "is_hex c" "is_hex d"
  shows "run [bs, CHR ''u'', a, b, c, d] (InString acc, stk)
    = Some (InString (acc @ [bs, CHR ''u'', a, b, c, d]), stk)"
  using assms by (simp add: numeral_eq_Suc)

text \<open>The encoder emits one of three shapes for a rune.\<close>

definition short_escape :: "char \<Rightarrow> bool" where
  "short_escape e \<longleftrightarrow> e \<in> set [CHR ''b'', CHR ''f'', CHR ''n'', CHR ''r'', CHR ''t'', bs, dq]"

lemma escape_byte_cases:
  assumes "byte c < 0x80"
  obtains (safe) "escape_byte c = [c]" "plain c"
  | (short) e where "escape_byte c = [bs, e]" "short_escape e" "unescape e = c"
  | (long) "escape_byte c = [bs, CHR ''u'', CHR ''0'', CHR ''0'', hex (byte c div 16), hex (byte c mod 16)]"
proof -
  consider "html_safe c" | "\<not> html_safe c" "c \<in> set [bs, dq, CHR 0x08, CHR 0x0C, CHR 0x0A, CHR 0x0D, CHR 0x09]"
    | "\<not> html_safe c" "c \<notin> set [bs, dq, CHR 0x08, CHR 0x0C, CHR 0x0A, CHR 0x0D, CHR 0x09]"
    by blast
  then show thesis
  proof cases
    case 1
    then show ?thesis
      using safe by (auto simp: escape_byte_def plain_def html_safe_def)
  next
    case 2
    then have "\<exists>e. escape_byte c = [bs, e] \<and> short_escape e \<and> unescape e = c"
      by (auto simp: escape_byte_def short_escape_def unescape_def html_safe_def byte_def)
    then show ?thesis
      using short by blast
  next
    case 3
    then show ?thesis
      using long by (simp add: escape_byte_def)
  qed
qed

lemma high_rune_bytes:
  assumes "s \<noteq> []" "0x80 \<le> byte (hd s)" "\<not> ill_formed s"
  shows "list_all (\<lambda>c. 0x80 \<le> byte c) (take (snd (DecodeRune s)) s)"
  using assms(1)
  by (cases rule: DecodeRune_cases) (use assms(2,3) in \<open>auto simp: cont_def\<close>)

lemma escape_rune_cases:
  assumes "s \<noteq> []"
  obtains (ascii) "byte (hd s) < 0x80" "escape_rune s = escape_byte (hd s)" "DecodeRune s = (byte (hd s), 1)"
  | (ill) "ill_formed s" "escape_rune s = bs # ''ufffd''"
  | (sep) r n where "DecodeRune s = (r, n)" "r = 0x2028 \<or> r = 0x2029" "escape_rune s = bs # ''u202'' @ [hex (r mod 16)]"
  | (high) "0x80 \<le> byte (hd s)" "\<not> ill_formed s" "escape_rune s = take (snd (DecodeRune s)) s"
proof (cases "byte (hd s) < 0x80")
  case True
  then show ?thesis
    using ascii assms by (cases s) (auto simp: escape_rune_def DecodeRune_ascii)
next
  case False
  obtain r n where rn: "DecodeRune s = (r, n)"
    by force
  consider "ill_formed s" | "\<not> ill_formed s" "r = 0x2028 \<or> r = 0x2029"
    | "\<not> ill_formed s" "\<not> (r = 0x2028 \<or> r = 0x2029)"
    by blast
  then show ?thesis
  proof cases
    case 1
    then show ?thesis
      using False rn by (intro ill) (simp_all add: escape_rune_def ill_formed_def)
  next
    case 2
    then show ?thesis
      using False rn by (intro sep [OF rn]) (auto simp: escape_rune_def ill_formed_def)
  next
    case 3
    then show ?thesis
      using False rn by (intro high) (auto simp: escape_rune_def ill_formed_def)
  qed
qed

lemma byte_literals [simp]:
  "byte (CHR 0x5C) = 0x5C" "byte (CHR 0x22) = 0x22" "byte (CHR ''u'') = 0x75" "byte (CHR ''0'') = 0x30"
  "byte (CHR ''2'') = 0x32" "byte (CHR ''f'') = 0x66" "byte (CHR ''d'') = 0x64"
  by (simp_all add: byte_def)

lemma hex_literals [simp]:
  "is_hex (CHR ''0'')" "is_hex (CHR ''2'')" "is_hex (CHR ''d'')" "is_hex (CHR ''f'')"
  "hex_val (CHR ''0'') = 0" "hex_val (CHR ''2'') = 2" "hex_val (CHR ''d'') = 13"
  "hex_val (CHR ''f'') = 15"
  by (simp_all add: is_hex_def hex_val_def is_digit_def)

lemma run_escape_byte:
  assumes "byte c < 0x80"
  shows "run (escape_byte c) (InString acc, stk) = Some (InString (acc @ escape_byte c), stk)"
  using assms
proof (cases rule: escape_byte_cases)
  case safe
  then show ?thesis by (simp add: plain_def)
next
  case (short e)
  then show ?thesis by (auto simp: short_escape_def)
next
  case long
  then show ?thesis
    using run_u4 by simp
qed

lemma high_plain: "0x80 \<le> byte c \<Longrightarrow> plain c"
  by (auto simp: plain_def)

lemma run_escape_rune:
  assumes "s \<noteq> []"
  shows "run (escape_rune s) (InString acc, stk) = Some (InString (acc @ escape_rune s), stk)"
  using assms
proof (cases rule: escape_rune_cases)
  case ascii
  then show ?thesis by (simp add: run_escape_byte)
next
  case ill
  then show ?thesis
    using run_u4 [of "CHR ''f''" "CHR ''f''" "CHR ''f''" "CHR ''d''"]
    by simp
next
  case (sep r n)
  then show ?thesis
    using run_u4 [of "CHR ''2''" "CHR ''0''" "CHR ''2''" "hex (r mod 16)"]
    by simp
next
  case high
  then have "list_all plain (escape_rune s)"
    using high_rune_bytes [OF assms] by (auto simp: list_all_iff intro: high_plain)
  then show ?thesis
    by (rule run_plain)
qed

lemma run_escape:
  "run (escape s) (InString acc, stk) = Some (InString (acc @ escape s), stk)"
  by (induction s arbitrary: acc rule: escape.induct) (simp_all add: run_append run_escape_rune)

text \<open>No encoding contains a control character, so none contains a line break.\<close>

lemma hex_printable [simp]: "n < 16 \<Longrightarrow> 0x20 \<le> byte (hex n)"
  by (auto simp: hex_def digit_def)

lemma escape_byte_printable:
  assumes "byte c < 0x80"
  shows "list_all (\<lambda>d. 0x20 \<le> byte d) (escape_byte c)"
  using assms
proof (cases rule: escape_byte_cases)
  case safe
  then show ?thesis by (simp add: plain_def)
next
  case (short e)
  then show ?thesis by (auto simp: short_escape_def byte_def)
next
  case long
  then show ?thesis by simp
qed

lemma escape_rune_printable:
  assumes "s \<noteq> []"
  shows "list_all (\<lambda>d. 0x20 \<le> byte d) (escape_rune s)"
  using assms
proof (cases rule: escape_rune_cases)
  case ascii
  then show ?thesis by (simp add: escape_byte_printable)
next
  case ill
  then show ?thesis by simp
next
  case (sep r n)
  then show ?thesis by (auto simp: hex_def digit_def)
next
  case high
  then show ?thesis
    using high_rune_bytes [OF assms] by (auto simp: list_all_iff)
qed

lemma escape_printable: "list_all (\<lambda>d. 0x20 \<le> byte d) (escape s)"
  by (induction s rule: escape.induct) (simp_all add: escape_rune_printable)

text \<open>Unquoting inverts escaping, up to the replacement of ill-formed bytes.\<close>

lemma DecodeRune_take:
  assumes "s \<noteq> []" "\<not> ill_formed s"
  shows "DecodeRune (take (snd (DecodeRune s)) s @ t) = DecodeRune s"
  using assms(1)
proof (cases rule: DecodeRune_cases)
  case ill
  then show ?thesis using assms by simp
qed (simp_all add: DecodeRune.simps)

lemma unquote_step:
  assumes "unquote_rune (p @ t) = (out, length p)" "p \<noteq> []"
  shows "unquote (p @ t) = out @ unquote t"
proof -
  obtain c s where cs: "p @ t = c # s"
    using assms(2) by (cases p) auto
  have "unquote (p @ t) = out @ unquote (drop (length p) (p @ t))"
    using assms(1) unfolding cs by simp
  then show ?thesis
    by simp
qed

lemma unquote_u4_step:
  assumes "is_hex a" "is_hex b" "is_hex c" "is_hex d"
    and "r = ((hex_val a * 16 + hex_val b) * 16 + hex_val c) * 16 + hex_val d" "\<not> surrogate r"
  shows "unquote ([bs, CHR ''u'', a, b, c, d] @ t) = EncodeRune r @ unquote t"
  using assms by (intro unquote_step) (simp_all add: unquote_rune_def getu4_def unquote_u4_def)

lemma unquote_escape_byte:
  assumes "byte c < 0x80"
  shows "unquote (escape_byte c @ t) = c # unquote t"
  using assms
proof (cases rule: escape_byte_cases)
  case safe
  then show ?thesis
    using assms
    by (simp add: unquote_rune_def plain_def DecodeRune_ascii EncodeRune_def surrogate_def)
next
  case (short e)
  then have "getu4 (bs # e # t) = None"
    by (auto simp: getu4_def short_escape_def split: list.split)
  with short show ?thesis
    using unquote_step [of "[bs, e]" t "[c]"] by (simp add: unquote_rune_def)
next
  case long
  have "EncodeRune (byte c) = [c]" "\<not> surrogate (byte c)"
    using assms by (simp_all add: EncodeRune_def surrogate_def)
  then show ?thesis
    using long
      unquote_u4_step [of "CHR ''0''" "CHR ''0''" "hex (byte c div 16)" "hex (byte c mod 16)" "byte c"]
    by simp
qed

lemma unquote_escape_rune:
  assumes "s \<noteq> []"
  shows "unquote (escape_rune s @ t) = EncodeRune (fst (DecodeRune s)) @ unquote t"
  using assms
proof (cases rule: escape_rune_cases)
  case ascii
  then show ?thesis
    by (simp add: unquote_escape_byte EncodeRune_def surrogate_def)
next
  case ill
  then show ?thesis
    using unquote_u4_step [of "CHR ''f''" "CHR ''f''" "CHR ''f''" "CHR ''d''" RuneError]
    by (simp add: ill_formed_def RuneError_def surrogate_def)
next
  case (sep r n)
  then show ?thesis
    using unquote_u4_step [of "CHR ''2''" "CHR ''0''" "CHR ''2''" "hex (r mod 16)" r]
    by (auto simp: surrogate_def)
next
  case high
  define p where "p = take (snd (DecodeRune s)) s"
  have len: "length p = snd (DecodeRune s)" "1 \<le> length p"
    using DecodeRune_width [OF assms] by (simp_all add: p_def)
  then have "hd (p @ t) = hd s" "p @ t \<noteq> []"
    using assms by (auto simp: p_def hd_take)
  moreover have "hd s \<noteq> bs"
    using high by auto
  moreover have "DecodeRune (p @ t) = DecodeRune s"
    unfolding p_def by (rule DecodeRune_take [OF assms high(2)])
  ultimately have "unquote_rune (p @ t) = (EncodeRune (fst (DecodeRune s)), length p)"
    using len by (simp add: unquote_rune_def)
  moreover have "p \<noteq> []"
    using len(2) by auto
  ultimately show ?thesis
    using unquote_step [of p t] high(3) by (simp add: p_def)
qed

lemma unquote_escape: "unquote (escape s) = ToValidUTF8 s"
  by (induction s rule: escape.induct) (simp_all add: unquote_escape_rune)

section \<open>Reading back an encoded object\<close>

text \<open>
  A text denotes a value when the scanner, wherever a value may begin, turns it into that value as
  soon as the byte that ends it arrives.  A text that opens \<open>d\<close> levels of objects and arrays needs
  that many levels left below the nesting limit.
\<close>

definition delimiter :: "char \<Rightarrow> bool" where
  "delimiter c \<longleftrightarrow> c = CHR '','' \<or> c = CHR ''}'' \<or> c = CHR '']'' \<or> c = CHR '' '' \<or> c = CHR 0x0A"

definition levels_left :: "nat \<Rightarrow> frame list \<Rightarrow> bool" where
  "levels_left d stk \<longleftrightarrow> d = 0 \<or> length stk + d \<le> maxNestingDepth"

definition denotes_in :: "nat \<Rightarrow> bytes \<Rightarrow> json \<Rightarrow> bool" where
  "denotes_in d t v \<longleftrightarrow>
    (\<forall>stk c. delimiter c \<longrightarrow> levels_left d stk \<longrightarrow>
       run (t @ [c]) (BeginValue, stk) = stateEndValue c (finish v stk))"

abbreviation denotes :: "bytes \<Rightarrow> json \<Rightarrow> bool" where
  "denotes \<equiv> denotes_in 0"

lemma delimiters [simp]:
  "delimiter (CHR '','')" "delimiter (CHR ''}'')" "delimiter (CHR '']'')" "delimiter (CHR '' '')"
  "delimiter (CHR 0x0A)"
  by (simp_all add: delimiter_def)

lemma levels_left_0 [simp]: "levels_left 0 stk"
  by (simp add: levels_left_def)

lemma levels_left_mono: "levels_left d stk \<Longrightarrow> d' \<le> d \<Longrightarrow> levels_left d' stk"
  by (auto simp: levels_left_def)

lemma levels_left_Cons: "levels_left (Suc d) stk \<Longrightarrow> levels_left d (f # stk)"
  by (auto simp: levels_left_def)

lemma denotes_in_mono: "denotes_in d t v \<Longrightarrow> d \<le> d' \<Longrightarrow> denotes_in d' t v"
  unfolding denotes_in_def using levels_left_mono by blast

lemma step_after_finish: "step c (finish v stk) = stateEndValue c (finish v stk)"
  by (cases "(v, stk)" rule: finish.cases) auto

lemma run_from_finish: "run [c] (finish v stk) = stateEndValue c (finish v stk)"
  by (simp add: step_after_finish split: option.split)

lemma denotes_string_body:
  assumes "\<And>acc stk. run body (InString acc, stk) = Some (InString (acc @ body), stk)"
  shows "denotes (dq # body @ [dq]) (JStr body)"
  using assms
  by (auto simp: denotes_in_def run_append stateBeginValue_def isSpace_def run_from_finish
      simp del: run.simps(2) finish.simps) (auto simp: stateBeginValue_def isSpace_def run_append step_after_finish split: option.split)

lemma denotes_quote: "denotes (json_quote s) (JStr (escape s))"
  unfolding json_quote_def by (rule denotes_string_body) (rule run_escape)

lemma denotes_plain: "list_all plain s \<Longrightarrow> denotes (dq # s @ [dq]) (JStr s)"
  by (rule denotes_string_body) (rule run_plain)

lemma run_digits:
  "list_all is_digit s \<Longrightarrow> run s (Digits1 acc, stk) = Some (Digits1 (acc @ s), stk)"
  by (induction s arbitrary: acc) auto

lemma number_end:
  assumes "delimiter c"
  shows "\<not> is_digit c" "c \<noteq> CHR ''.''" "c \<noteq> CHR ''e''" "c \<noteq> CHR ''E''"
  using assms by (auto simp: delimiter_def is_digit_def byte_def)

lemma not_digit_begin [simp]:
  "\<not> is_digit (CHR '' '')" "\<not> is_digit (CHR 0x09)" "\<not> is_digit (CHR 0x0A)" "\<not> is_digit (CHR 0x0D)"
  "\<not> is_digit (CHR ''{'')" "\<not> is_digit (CHR ''['')" "\<not> is_digit (CHR 0x22)"
  by (simp_all add: is_digit_def byte_def)

lemma digit_begin:
  assumes "is_digit c" "c \<noteq> CHR ''0''"
  shows "stateBeginValue c stk = Some (Digits1 [c], stk)"
proof -
  have "c \<noteq> CHR '' ''" "c \<noteq> CHR 0x09" "c \<noteq> CHR 0x0A" "c \<noteq> CHR 0x0D"
    "c \<noteq> CHR ''{''" "c \<noteq> CHR ''[''" "c \<noteq> CHR 0x22" "c \<noteq> CHR ''-''"
    using assms(1) not_digit_begin not_digit by metis+
  with assms show ?thesis
    by (simp add: stateBeginValue_def isSpace_def)
qed

lemma digit_begin_neg:
  assumes "is_digit c" "c \<noteq> CHR ''0''"
  shows "step c (Neg acc, stk) = Some (Digits1 (acc @ [c]), stk)"
  using assms by simp

lemma dec_cases:
  obtains "n = 0" "dec n = ''0''"
  | c s where "0 < n" "dec n = c # s" "is_digit c" "c \<noteq> CHR ''0''" "list_all is_digit s"
proof (cases "n = 0")
  case True
  then show ?thesis
    using that(1) by (simp add: dec.simps digit_def chr_eqI)
next
  case False
  moreover obtain c s where "dec n = c # s"
    using dec_nonempty [of n] by (cases "dec n") auto
  ultimately show ?thesis
    using that(2) [of c s] dec_hd [of n] dec_digits [of n] by (cases "c = CHR ''0''") (auto simp: digit_val_def)
qed

lemma denotes_dec: "denotes (dec n) (JNum (dec n))"
proof (cases rule: dec_cases [of n])
  case 1
  then show ?thesis
    by (auto simp: denotes_in_def stateBeginValue_def isSpace_def state0_def number_end split: option.split)
next
  case (2 c s)
  then show ?thesis
    by (auto simp: denotes_in_def digit_begin run_append run_digits state0_def number_end
        split: option.split)
qed

lemma denotes_Itoa: "denotes (Itoa i) (JNum (Itoa i))"
proof (cases "i < 0")
  case False
  then show ?thesis
    by (simp add: Itoa_def denotes_dec)
next
  case True
  then show ?thesis
  proof (cases rule: dec_cases [of "nat (- i)"])
    case 1
    with True show ?thesis by simp
  next
    case (2 c s)
    with True show ?thesis
      by (auto simp: Itoa_def denotes_in_def stateBeginValue_def isSpace_def run_append run_digits
          state0_def number_end split: option.split)
  qed
qed

definition member_text :: "bytes \<times> bytes \<Rightarrow> bytes" where
  "member_text f = dq # fst f @ dq # CHR '':'' # snd f"

fun members_text :: "(bytes \<times> bytes) list \<Rightarrow> bytes" where
  "members_text [] = []"
| "members_text [f] = member_text f"
| "members_text (f # fs) = member_text f @ CHR '','' # members_text fs"

definition object_text :: "(bytes \<times> bytes) list \<Rightarrow> bytes" where
  "object_text fs = CHR ''{'' # members_text fs @ ''}''"

definition member_ok_in :: "nat \<Rightarrow> bytes \<times> bytes \<Rightarrow> bytes \<times> json \<Rightarrow> bool" where
  "member_ok_in d f m \<longleftrightarrow> fst m = fst f \<and> list_all plain (fst f) \<and> denotes_in d (snd f) (snd m)"

abbreviation member_ok :: "bytes \<times> bytes \<Rightarrow> bytes \<times> json \<Rightarrow> bool" where
  "member_ok \<equiv> member_ok_in 0"

lemma run_member:
  assumes "member_ok_in d f m" "delimiter c" "st = BeginString \<or> st = BeginStringOrEmpty"
    and "levels_left (Suc d) stk \<or> d = 0"
  shows "run (member_text f @ [c]) (st, ObjectKey ms k # stk)
    = stateEndValue c (EndValue, ObjectValue (ms @ [m]) (fst f) # stk)"
proof -
  have "run (dq # fst f @ [dq, CHR '':'']) (st, ObjectKey ms k # stk) = Some (BeginValue, ObjectValue ms (fst f) # stk)"
    using assms(1,3) run_plain [of "fst f" "[]"]
    by (auto simp: member_ok_in_def stateBeginString_def isSpace_def run_append)
  moreover have "member_text f @ [c] = (dq # fst f @ [dq, CHR '':'']) @ (snd f @ [c])"
    by (simp add: member_text_def)
  ultimately have "run (member_text f @ [c]) (st, ObjectKey ms k # stk)
      = run (snd f @ [c]) (BeginValue, ObjectValue ms (fst f) # stk)"
    by (simp only: run_append [of "dq # fst f @ [dq, CHR '':'']"] option.case)
  also have "\<dots> = stateEndValue c (finish (snd m) (ObjectValue ms (fst f) # stk))"
    using assms(1,2,4) levels_left_Cons unfolding member_ok_in_def denotes_in_def by fastforce
  finally show ?thesis
    using assms(1) by (cases m) (simp add: member_ok_in_def)
qed

lemma run_members:
  assumes "list_all2 (member_ok_in d) fs ms" "fs \<noteq> []" "st = BeginString \<or> st = BeginStringOrEmpty"
    and "levels_left (Suc d) stk \<or> d = 0"
  shows "run (members_text fs @ ''}'') (st, ObjectKey ms0 k # stk) = Some (finish (JObj (ms0 @ ms)) stk)"
  using assms
proof (induction fs arbitrary: ms ms0 st k rule: members_text.induct)
  case (2 f)
  then obtain m where "ms = [m]" "member_ok_in d f m"
    by (auto simp: list_all2_Cons1)
  then show ?case
    using 2 run_member [of d f m "CHR ''}''"] by (simp add: isSpace_def)
next
  case (3 f g fs)
  then obtain m ms' where ms: "ms = m # ms'" "member_ok_in d f m" "list_all2 (member_ok_in d) (g # fs) ms'"
    by (auto simp: list_all2_Cons1)
  have "run (member_text f @ '','') (st, ObjectKey ms0 k # stk) = Some (BeginString, ObjectKey (ms0 @ [m]) [] # stk)"
    using run_member [OF ms(2) _ 3(4,5)] by (simp add: isSpace_def)
  moreover have "members_text (f # g # fs) @ ''}'' = (member_text f @ '','') @ (members_text (g # fs) @ ''}'')"
    by simp
  ultimately show ?case
    using 3(1) [OF ms(3), of BeginString "ms0 @ [m]" "[]"] 3(5) ms(1) by (simp only: run_append) simp
qed simp

lemma denotes_object:
  assumes "list_all2 (member_ok_in d) fs ms"
  shows "denotes_in (Suc d) (object_text fs) (JObj ms)"
  unfolding denotes_in_def
proof (intro allI impI)
  fix stk c
  assume "delimiter c" and lev: "levels_left (Suc d) stk"
  have first: "run (CHR ''{'' # t) (BeginValue, stk) = run t (BeginStringOrEmpty, ObjectKey [] [] # stk)" for t
    using lev by (simp add: stateBeginValue_def isSpace_def pushParseState_def levels_left_def)
  have "run (members_text fs @ ''}'') (BeginStringOrEmpty, ObjectKey [] [] # stk) = Some (finish (JObj ms) stk)"
  proof (cases "fs = []")
    case True
    then show ?thesis
      using assms by (simp add: isSpace_def)
  next
    case False
    then show ?thesis
      using run_members [OF assms, of BeginStringOrEmpty stk "[]" "[]"] lev by simp
  qed
  then have "run ((members_text fs @ ''}'') @ [c]) (BeginStringOrEmpty, ObjectKey [] [] # stk)
      = stateEndValue c (finish (JObj ms) stk)"
    by (simp only: run_append [of "members_text fs @ ''}''"] option.case run_from_finish)
  then show "run (object_text fs @ [c]) (BeginValue, stk) = stateEndValue c (finish (JObj ms) stk)"
    by (simp only: object_text_def append_Cons first)
qed

fun elements_text :: "bytes list \<Rightarrow> bytes" where
  "elements_text [] = []"
| "elements_text [t] = t"
| "elements_text (t # ts) = t @ CHR '','' # elements_text ts"

definition array_text :: "bytes list \<Rightarrow> bytes" where
  "array_text ts = CHR ''['' # elements_text ts @ '']''"

text \<open>
  The first element of an array is read from a state that also accepts the closing bracket; a
  text that begins like a value is read there as usual.
\<close>

definition value_head :: "bytes \<Rightarrow> bool" where
  "value_head t \<longleftrightarrow> t \<noteq> [] \<and> \<not> isSpace (hd t) \<and> hd t \<noteq> CHR '']''"

lemma run_element:
  assumes "denotes_in d t v" "value_head t" "delimiter c" "levels_left d stk"
    "st = BeginValue \<or> st = BeginValueOrEmpty"
  shows "run (t @ [c]) (st, stk) = stateEndValue c (finish v stk)"
proof -
  obtain a u where "t = a # u" "a \<noteq> CHR '']''" "\<not> isSpace a"
    using assms(2) by (cases t) (auto simp: value_head_def)
  then have "run (t @ [c]) (st, stk) = run (t @ [c]) (BeginValue, stk)"
    using assms(5) by auto
  then show ?thesis
    using assms(1,3,4) by (simp add: denotes_in_def)
qed

lemma run_elements:
  assumes "list_all2 (\<lambda>t v. denotes_in d t v \<and> value_head t) ts vs" "ts \<noteq> []"
    "st = BeginValue \<or> st = BeginValueOrEmpty" "levels_left (Suc d) stk"
  shows "run (elements_text ts @ '']'') (st, ArrayValue vs0 # stk) = Some (finish (JArr (vs0 @ vs)) stk)"
  using assms
proof (induction ts arbitrary: vs vs0 st rule: elements_text.induct)
  case (2 t)
  then obtain v where "vs = [v]" "denotes_in d t v" "value_head t"
    by (auto simp: list_all2_Cons1)
  then show ?case
    using 2 run_element [of d t v "CHR '']''"] levels_left_Cons by (simp add: isSpace_def)
next
  case (3 t u ts)
  then obtain v vs' where vs: "vs = v # vs'" "denotes_in d t v" "value_head t"
      "list_all2 (\<lambda>t v. denotes_in d t v \<and> value_head t) (u # ts) vs'"
    by (auto simp: list_all2_Cons1)
  have "run (t @ '','') (st, ArrayValue vs0 # stk) = Some (BeginValue, ArrayValue (vs0 @ [v]) # stk)"
    using run_element [OF vs(2,3) _ levels_left_Cons [OF 3(5)] 3(4)] by (simp add: isSpace_def)
  moreover have "elements_text (t # u # ts) @ '']'' = (t @ '','') @ (elements_text (u # ts) @ '']'')"
    by simp
  ultimately show ?case
    using 3(1) [OF vs(4), of BeginValue "vs0 @ [v]"] 3(5) vs(1) by (simp only: run_append) simp
qed simp

lemma denotes_array:
  assumes "list_all2 (\<lambda>t v. denotes_in d t v \<and> value_head t) ts vs"
  shows "denotes_in (Suc d) (array_text ts) (JArr vs)"
  unfolding denotes_in_def
proof (intro allI impI)
  fix stk c
  assume "delimiter c" and lev: "levels_left (Suc d) stk"
  have first: "run (CHR ''['' # t) (BeginValue, stk) = run t (BeginValueOrEmpty, ArrayValue [] # stk)" for t
    using lev by (simp add: stateBeginValue_def isSpace_def pushParseState_def levels_left_def)
  have "run (elements_text ts @ '']'') (BeginValueOrEmpty, ArrayValue [] # stk) = Some (finish (JArr vs) stk)"
  proof (cases "ts = []")
    case True
    then show ?thesis
      using assms by (simp add: isSpace_def)
  next
    case False
    then show ?thesis
      using run_elements [OF assms, of BeginValueOrEmpty stk "[]"] lev by simp
  qed
  then have "run ((elements_text ts @ '']'') @ [c]) (BeginValueOrEmpty, ArrayValue [] # stk)
      = stateEndValue c (finish (JArr vs) stk)"
    by (simp only: run_append [of "elements_text ts @ '']''"] option.case run_from_finish)
  then show "run (array_text ts @ [c]) (BeginValue, stk) = stateEndValue c (finish (JArr vs) stk)"
    by (simp only: array_text_def append_Cons first)
qed

lemma denotes_literal:
  "denotes ''true'' (JBool True)" "denotes ''false'' (JBool False)" "denotes ''null'' JNull"
  by (auto simp: denotes_in_def stateBeginValue_def isSpace_def is_digit_def byte_def step_after_finish
      split: option.split)

lemma json_parse_denotes:
  assumes "denotes_in d t v" "d \<le> maxNestingDepth"
  shows "json_parse t = Some v"
proof -
  have "run (t @ [CHR '' '']) scan_reset = Some (EndTop v, [])"
    using assms by (simp add: denotes_in_def levels_left_def scan_reset_def isSpace_def)
  then show ?thesis
    by (auto simp: json_parse_def scan_eof_def run_append split: option.splits)
qed

lemma json_parse_object:
  assumes "list_all2 member_ok fs ms"
  shows "json_parse (object_text fs) = Some (JObj ms)"
  using json_parse_denotes [OF denotes_object [OF assms]] by (simp add: maxNestingDepth_def)

section \<open>Torn objects\<close>

fun open_scan :: "scan \<Rightarrow> bool" where
  "open_scan (EndTop v, stk) \<longleftrightarrow> stk = []"
| "open_scan (st, stk) \<longleftrightarrow> stk \<noteq> []"

lemma open_finish [simp]: "open_scan (finish v stk)"
  by (cases "(v, stk)" rule: finish.cases) auto

lemma open_stateEndValue: "stateEndValue c sc = Some sc' \<Longrightarrow> open_scan sc \<Longrightarrow> open_scan sc'"
  by (cases "(c, sc)" rule: stateEndValue.cases) (auto split: if_splits frame.splits)

lemma open_begin:
  "stateBeginValue c stk = Some sc \<Longrightarrow> stk \<noteq> [] \<Longrightarrow> open_scan sc"
  "stateBeginString c stk = Some sc \<Longrightarrow> stk \<noteq> [] \<Longrightarrow> open_scan sc"
  "state0 acc c stk = Some sc \<Longrightarrow> stk \<noteq> [] \<Longrightarrow> open_scan sc"
  "stateESign acc c stk = Some sc \<Longrightarrow> stk \<noteq> [] \<Longrightarrow> open_scan sc"
  by (auto simp: stateBeginValue_def stateBeginString_def state0_def stateESign_def
      pushParseState_def dest: open_stateEndValue split: if_splits)

lemma open_step: "step c sc = Some sc' \<Longrightarrow> open_scan sc \<Longrightarrow> open_scan sc'"
  by (cases "(c, sc)" rule: step.cases)
    (auto dest: open_stateEndValue open_begin simp del: stateEndValue.simps
      split: if_splits list.splits frame.splits nat.splits)


lemma open_run: "run s sc = Some sc' \<Longrightarrow> open_scan sc \<Longrightarrow> open_scan sc'"
  by (induction s arbitrary: sc) (auto split: option.splits dest: open_step)

lemma space_keeps_stack:
  assumes "step (CHR '' '') (st, f # stk) = Some (st', stk')"
  shows "stk' \<noteq> []"
proof -
  have "stateEndValue (CHR '' '') (finish v (f # stk)) = Some (st', stk') \<Longrightarrow> stk' \<noteq> []"
    "finish v (f # stk) = (st', stk') \<Longrightarrow> stk' \<noteq> []" for v
    by (cases f; auto simp: isSpace_def)+
  then show ?thesis
    using assms
    by (cases "(CHR '' '', st, f # stk)" rule: step.cases)
      (auto simp: stateBeginValue_def stateBeginString_def state0_def stateESign_def isSpace_def
        is_digit_def is_hex_def split: if_splits list.splits)
qed

lemma run_after_top: "run s (EndTop v, stk) = Some sc \<Longrightarrow> list_all isSpace s"
  by (induction s) (auto split: if_splits)

text \<open>A text that opens an object is accepted only in the state after its closing brace.\<close>

lemma object_end:
  assumes "run (CHR ''{'' # p) scan_reset = Some sc" "scan_eof sc = Some v"
  shows "sc = (EndTop v, [])"
proof -
  have "run p (BeginStringOrEmpty, [ObjectKey [] []]) = Some sc"
    using assms(1)
    by (simp add: scan_reset_def stateBeginValue_def isSpace_def pushParseState_def maxNestingDepth_def)
  from open_run [OF this] have "open_scan sc"
    by simp
  moreover have "\<exists>u stk. sc = (EndTop u, stk) \<or> snd sc = []"
  proof (cases "snd sc")
    case (Cons f stk)
    then obtain w stk' where "step (CHR '' '') (fst sc, f # stk) = Some (EndTop w, stk')"
      using assms(2) by (cases sc) (auto simp: scan_eof_def split: option.splits scan_state.splits)
    moreover have "open_scan (EndTop w, stk')"
      using calculation open_step [of "CHR '' ''" "(fst sc, f # stk)"] \<open>open_scan sc\<close> Cons
      by (cases sc) force
    ultimately show ?thesis
      using space_keeps_stack [of "fst sc" f stk] by auto
  qed simp
  ultimately obtain u where "sc = (EndTop u, [])"
    by (cases sc rule: open_scan.cases) auto
  with assms(2) show ?thesis
    by (simp add: scan_eof_def isSpace_def)
qed

text \<open>
  A proper prefix of an accepted text that opens an object and ends with its closing brace is not
  accepted: what a write that was cut short leaves behind never parses.
\<close>

lemma json_parse_torn:
  assumes full: "json_parse (CHR ''{'' # p @ t @ ''}'') \<noteq> None"
  shows "json_parse (CHR ''{'' # p) = None"
proof (rule ccontr)
  assume "json_parse (CHR ''{'' # p) \<noteq> None"
  then obtain sc v where sc: "run (CHR ''{'' # p) scan_reset = Some sc" "scan_eof sc = Some v"
    unfolding json_parse_def by (auto split: option.splits)
  then have "sc = (EndTop v, [])"
    by (rule object_end)
  moreover have "run (t @ ''}'') sc \<noteq> None"
    using full sc(1) run_append [of "CHR ''{'' # p" "t @ ''}''" scan_reset]
    by (auto simp: json_parse_def split: option.splits)
  ultimately show False
    using run_after_top [of "t @ ''}''" v "[]"] by (auto simp: isSpace_def)
qed

lemma json_parse_object_end:
  assumes "json_parse t = Some v" "t = CHR ''{'' # p"
  shows "run t scan_reset = Some (EndTop v, [])"
  using assms object_end [of p] by (auto simp: json_parse_def split: option.splits)

lemma run_top_spaces: "list_all isSpace ws \<Longrightarrow> run ws (EndTop v, stk) = Some (EndTop v, stk)"
  by (induction ws) simp_all

lemma json_parse_trailing_space:
  assumes "json_parse t = Some v" "t = CHR ''{'' # p" "list_all isSpace ws"
  shows "json_parse (t @ ws) = Some v"
  using json_parse_object_end [OF assms(1,2)] run_top_spaces [OF assms(3), of v "[]"]
  by (simp add: json_parse_def run_append scan_eof_def isSpace_def)

end
