(* ===== verification/GoTime.thy ===== *)
theory GoTime
  imports Json
begin

text \<open>
  The part of package \<^verbatim>\<open>time\<close> the log goes through: the civil date of an instant, the RFC 3339
  text with nanoseconds that \<^verbatim>\<open>Time.MarshalJSON\<close> writes, and the parser behind
  \<^verbatim>\<open>Time.UnmarshalJSON\<close>.  The parser tries a fast path first and falls back to the general layout
  parser; every text the fast path accepts is parsed to the same instant by the general one, so
  only the latter is modelled.
\<close>

section \<open>Civil dates\<close>

definition nanos_per_sec :: int where "nanos_per_sec = 1000000000"
definition nanos_per_day :: int where "nanos_per_day = 86400 * nanos_per_sec"

definition isLeap :: "int \<Rightarrow> bool" where
  "isLeap y \<longleftrightarrow> y mod 4 = 0 \<and> (y mod 100 \<noteq> 0 \<or> y mod 400 = 0)"

definition days_before_year :: "int \<Rightarrow> int" where
  "days_before_year y = (y - 1) * 365 + (y - 1) div 4 - (y - 1) div 100 + (y - 1) div 400"

definition days_before_month :: "bool \<Rightarrow> nat list" where
  "days_before_month leap =
    (if leap then [0, 31, 60, 91, 121, 152, 182, 213, 244, 274, 305, 335]
     else [0, 31, 59, 90, 120, 151, 181, 212, 243, 273, 304, 334])"

definition daysIn :: "nat \<Rightarrow> int \<Rightarrow> nat" where
  "daysIn m y =
    (if m = 2 \<and> isLeap y then 29
     else [31, 28, 31, 30, 31, 30, 31, 31, 30, 31, 30, 31] ! (m - 1))"

text \<open>The day number of a date, day 0 being January 1 of year 1, and its inverse.\<close>

definition date_days :: "int \<Rightarrow> nat \<Rightarrow> nat \<Rightarrow> int" where
  "date_days y m d =
    days_before_year y + int (days_before_month (isLeap y) ! (m - 1)) + int d - 1"

definition year_day :: "int \<Rightarrow> int \<times> nat" where
  "year_day d =
    (let n400 = d div 146097; r400 = d mod 146097;
         n100 = min 3 (r400 div 36524); r100 = r400 - 36524 * n100;
         n4 = r100 div 1461; r4 = r100 mod 1461;
         n1 = min 3 (r4 div 365)
     in (400 * n400 + 100 * n100 + 4 * n4 + n1 + 1, nat (r4 - 365 * n1)))"

definition month_day :: "bool \<Rightarrow> nat \<Rightarrow> nat \<times> nat" where
  "month_day leap yday =
    (let m = length (filter (\<lambda>b. b \<le> yday) (days_before_month leap))
     in (m, yday - days_before_month leap ! (m - 1) + 1))"

definition civil :: "int \<Rightarrow> int \<times> nat \<times> nat" where
  "civil d = (let (y, yday) = year_day d; (m, dd) = month_day (isLeap y) yday in (y, m, dd))"

definition month_length :: "bool \<Rightarrow> nat \<Rightarrow> nat" where
  "month_length leap m = (if m = 2 \<and> leap then 29 else [31, 28, 31, 30, 31, 30, 31, 31, 30, 31, 30, 31] ! (m - 1))"

definition month_day_good :: "bool \<Rightarrow> nat \<Rightarrow> bool" where
  "month_day_good leap n \<longleftrightarrow> (case month_day leap n of (m, d) \<Rightarrow>
     1 \<le> m \<and> m \<le> 12 \<and> 1 \<le> d \<and> d \<le> month_length leap m \<and>
     days_before_month leap ! (m - 1) + d = n + 1)"

lemma month_day_leap: "n < 366 \<Longrightarrow> month_day_good True n"
proof -
  assume "n < 366"
  then consider "n < 31" | "31 \<le> n" "n < 60" | "60 \<le> n" "n < 91" | "91 \<le> n" "n < 121" | "121 \<le> n" "n < 152" | "152 \<le> n" "n < 182"
    | "182 \<le> n" "n < 213" | "213 \<le> n" "n < 244" | "244 \<le> n" "n < 274" | "274 \<le> n" "n < 305" | "305 \<le> n" "n < 335" | "335 \<le> n"
    by linarith
  then show ?thesis
    by cases (use \<open>n < 366\<close> in \<open>simp_all add: month_day_good_def month_day_def days_before_month_def
        month_length_def\<close>)
qed

lemma month_day_common: "n < 365 \<Longrightarrow> month_day_good False n"
proof -
  assume "n < 365"
  then consider "n < 31" | "31 \<le> n" "n < 59" | "59 \<le> n" "n < 90" | "90 \<le> n" "n < 120" | "120 \<le> n" "n < 151" | "151 \<le> n" "n < 181"
    | "181 \<le> n" "n < 212" | "212 \<le> n" "n < 243" | "243 \<le> n" "n < 273" | "273 \<le> n" "n < 304" | "304 \<le> n" "n < 334" | "334 \<le> n"
    by linarith
  then show ?thesis
    by cases (use \<open>n < 365\<close> in \<open>simp_all add: month_day_good_def month_day_def days_before_month_def
        month_length_def\<close>)
qed

text \<open>The last day of a four-year cycle falls into a leap year.\<close>

lemma isLeap_cycle_end:
  fixes a b c :: int
  assumes "y = 400 * a + 100 * b + 4 * c + 4" "0 \<le> c" "c \<le> 24" "c = 24 \<Longrightarrow> b = 3"
  shows "isLeap y"
proof -
  have "y = 4 * (100 * a + 25 * b + c + 1)"
    using assms(1) by simp
  then have mod4: "y mod 4 = 0"
    by simp
  show ?thesis
  proof (cases "c = 24")
    case True
    then have "y = 400 * (a + 1)"
      using assms(1,4) by simp
    with mod4 show ?thesis
      by (simp add: isLeap_def)
  next
    case False
    have "y = (4 * c + 4) + 100 * (4 * a + b)"
      using assms(1) by simp
    then have "y mod 100 = (4 * c + 4) mod 100"
      by (simp only: mod_mult_self2)
    also have "\<dots> = 4 * c + 4"
      using assms(2,3) False by simp
    finally show ?thesis
      using mod4 assms(2) by (simp add: isLeap_def)
  qed
qed

lemma year_day_ok:
  assumes "year_day d = (y, n)"
  shows "days_before_year y + int n = d" and "n < (if isLeap y then 366 else 365)"
proof -
  define a r400 where "a = d div 146097" and "r400 = d mod 146097"
  define b r100 where "b = min 3 (r400 div 36524)" and "r100 = r400 - 36524 * b"
  define c r4 where "c = r100 div 1461" and "r4 = r100 mod 1461"
  define e where "e = min 3 (r4 div 365)"
  have y: "y = 400 * a + 100 * b + 4 * c + e + 1" and n: "n = nat (r4 - 365 * e)"
    using assms unfolding year_day_def Let_def prod.inject a_def r400_def b_def r100_def c_def r4_def e_def
    by (elim conjE, simp only:)+
  have 400: "d = 146097 * a + r400" "0 \<le> r400" "r400 < 146097"
    by (simp_all add: a_def r400_def)
  have 100: "0 \<le> b" "b \<le> 3" "0 \<le> r100" "r100 \<le> 36524" "b < 3 \<Longrightarrow> r100 < 36524"
    using 400(2,3) unfolding b_def r100_def by (auto simp: min_def minus_mult_div_eq_mod [symmetric])
  have 4: "r100 = 1461 * c + r4" "0 \<le> r4" "r4 < 1461"
    by (simp_all add: c_def r4_def)
  then have c: "0 \<le> c" "c \<le> 24"
    using 100(3,4) by linarith+
  have 1: "0 \<le> e" "e \<le> 3" "0 \<le> r4 - 365 * e" "r4 - 365 * e \<le> 365" "e < 3 \<Longrightarrow> r4 - 365 * e < 365"
    using 4(2,3) unfolding e_def by (auto simp: min_def)
  have div4: "(y - 1) div 4 = 100 * a + 25 * b + c" and div100: "(y - 1) div 100 = 4 * a + b"
    and div400: "(y - 1) div 400 = a"
    unfolding y using 1 c 100 by auto
  have "days_before_year y = (y - 1) * 365 + (100 * a + 25 * b + c) - (4 * a + b) + a"
    by (simp only: days_before_year_def div4 div100 div400)
  then show "days_before_year y + int n = d"
    using 400(1) 4(1) 1(3) unfolding n y r100_def by simp
  have "isLeap y" if "r4 - 365 * e = 365"
  proof -
    have "e = 3"
      using 1 that by linarith
    then have "c = 24 \<Longrightarrow> b = 3"
      using that 4 100 by (cases "b = 3") auto
    then show ?thesis
      using y \<open>e = 3\<close> c by (intro isLeap_cycle_end [of _ a b c]) simp_all
  qed
  then show "n < (if isLeap y then 366 else 365)"
    using 1 n by (cases "r4 - 365 * e = 365") auto
qed

lemma civil_ok:
  assumes "civil d = (y, m, dd)"
  shows "1 \<le> m" "m \<le> 12" "1 \<le> dd" "dd \<le> daysIn m y" "date_days y m dd = d"
proof -
  obtain n where n: "year_day d = (y, n)" "month_day (isLeap y) n = (m, dd)"
    using assms by (auto simp: civil_def split: prod.splits)
  note yd = year_day_ok [OF n(1)]
  have good: "month_day_good (isLeap y) n"
    using yd(2) month_day_leap month_day_common by (cases "isLeap y") auto
  then have "days_before_month (isLeap y) ! (m - 1) + dd = n + 1"
    using n(2) by (simp add: month_day_good_def)
  then have "int (days_before_month (isLeap y) ! (m - 1)) + int dd = int n + 1"
    by linarith
  then show "date_days y m dd = d"
    using yd(1) by (simp add: date_days_def)
  show "1 \<le> m" "m \<le> 12" "1 \<le> dd" "dd \<le> daysIn m y"
    using good n(2) by (simp_all add: month_day_good_def month_length_def daysIn_def)
qed

section \<open>RFC 3339 texts\<close>

definition pad :: "nat \<Rightarrow> nat \<Rightarrow> bytes" where
  "pad w n = replicate (w - length (dec n)) (CHR ''0'') @ dec n"

text \<open>The fraction of a second: nine digits without trailing zeros, nothing for a whole second.\<close>

definition appendNano :: "nat \<Rightarrow> bytes" where
  "appendNano ns =
    (if ns = 0 then [] else CHR ''.'' # rev (dropWhile (\<lambda>c. c = CHR ''0'') (rev (pad 9 ns))))"

definition format_rfc3339 :: "go_time \<Rightarrow> bytes" where
  "format_rfc3339 t =
    (let (y, m, d) = civil (t div nanos_per_day);
         tod = t mod nanos_per_day;
         secs = nat (tod div nanos_per_sec)
     in pad 4 (nat y) @ ''-'' @ pad 2 m @ ''-'' @ pad 2 d @ ''T'' @
        pad 2 (secs div 3600) @ '':'' @ pad 2 (secs div 60 mod 60) @ '':'' @ pad 2 (secs mod 60) @
        appendNano (nat (tod mod nanos_per_sec)) @ ''Z'')"

definition year_of :: "go_time \<Rightarrow> int" where
  "year_of t = fst (civil (t div nanos_per_day))"

text \<open>\<^verbatim>\<open>Time.MarshalJSON\<close> of a UTC time: an error outside the years 0 to 9999.\<close>

definition time_MarshalJSON :: "go_time \<Rightarrow> bytes option" where
  "time_MarshalJSON t =
    (if 0 \<le> year_of t \<and> year_of t \<le> 9999 then Some (dq # format_rfc3339 t @ [dq]) else None)"

section \<open>Parsing RFC 3339 texts\<close>

fun skip :: "char \<Rightarrow> bytes \<Rightarrow> bytes option" where
  "skip c (d # s) = (if c = d then Some s else None)"
| "skip c [] = None"

fun getnum :: "bool \<Rightarrow> bytes \<Rightarrow> (nat \<times> bytes) option" where
  "getnum fixed (c # d # s) =
    (if \<not> is_digit c then None
     else if is_digit d then Some (digit_val c * 10 + digit_val d, s)
     else if fixed then None
     else Some (digit_val c, d # s))"
| "getnum fixed [c] = (if is_digit c \<and> \<not> fixed then Some (digit_val c, []) else None)"
| "getnum fixed [] = None"

definition getyear :: "bytes \<Rightarrow> (nat \<times> bytes) option" where
  "getyear s =
    (if length s \<ge> 4 \<and> list_all is_digit (take 4 s) then Some (dec_val (take 4 s), drop 4 s) else None)"

definition parseNanoseconds :: "bytes \<Rightarrow> nat \<times> bytes" where
  "parseNanoseconds s =
    (case s of
       c # d # _ \<Rightarrow>
         if (c = CHR ''.'' \<or> c = CHR '','') \<and> is_digit d
         then let ds = takeWhile is_digit (tl s); used = take 9 ds
              in (dec_val used * 10 ^ (9 - length used), dropWhile is_digit (tl s))
         else (0, s)
     | _ \<Rightarrow> (0, s))"

definition parse_zone :: "bytes \<Rightarrow> (int \<times> bytes) option" where
  "parse_zone s =
    (case s of
       [] \<Rightarrow> None
     | c # s' \<Rightarrow>
         if c = CHR ''Z'' then Some (0, s')
         else if length s < 6 \<or> s ! 3 \<noteq> CHR '':'' then None
         else do {
           (hr, _) \<leftarrow> getnum True (take 2 (drop 1 s));
           (mm, _) \<leftarrow> getnum True (take 2 (drop 4 s));
           if hr > 24 \<or> mm > 60 then None
           else if c = CHR ''+'' then Some (int ((hr * 60 + mm) * 60), drop 6 s)
           else if c = CHR ''-'' then Some (- int ((hr * 60 + mm) * 60), drop 6 s)
           else None
         })"

definition guard :: "bool \<Rightarrow> unit option" where
  "guard b = (if b then Some () else None)"

definition time_Parse :: "bytes \<Rightarrow> go_time option" where
  "time_Parse s0 = do {
     (year, s) \<leftarrow> getyear s0;
     s \<leftarrow> skip (CHR ''-'') s;
     (month, s) \<leftarrow> getnum True s;
     guard (1 \<le> month \<and> month \<le> 12);
     s \<leftarrow> skip (CHR ''-'') s;
     (day, s) \<leftarrow> getnum True s;
     s \<leftarrow> skip (CHR ''T'') s;
     (hour, s) \<leftarrow> getnum False s;
     guard (hour < 24);
     s \<leftarrow> skip (CHR '':'') s;
     (mins, s) \<leftarrow> getnum True s;
     guard (mins < 60);
     s \<leftarrow> skip (CHR '':'') s;
     (secs, s) \<leftarrow> getnum True s;
     guard (secs < 60);
     (nanos, s) \<leftarrow> Some (parseNanoseconds s);
     (offset, s) \<leftarrow> parse_zone s;
     guard (s = []);
     guard (1 \<le> day \<and> day \<le> daysIn month (int year));
     Some (date_days (int year) month day * nanos_per_day +
           (int ((hour * 60 + mins) * 60 + secs) - offset) * nanos_per_sec + int nanos)
   }"

section \<open>Round trip\<close>

lemma dec_length: "n < 10 ^ w \<Longrightarrow> 0 < w \<Longrightarrow> length (dec n) \<le> w"
proof (induction n arbitrary: w rule: dec.induct)
  case (1 n)
  show ?case
  proof (cases "n < 10")
    case True
    then show ?thesis
      using 1(3) by (subst dec.simps) simp
  next
    case False
    obtain v where v: "w = Suc v"
      using 1(3) by (cases w) auto
    have "0 < v"
      using False 1(2) v by (cases v) auto
    moreover have "n div 10 < 10 ^ v"
      using 1(2) v by (simp add: less_mult_imp_div_less mult.commute)
    ultimately show ?thesis
      using 1(1) [OF False] False v by (subst dec.simps) simp
  qed
qed

lemma zero_digit [simp]: "is_digit (CHR ''0'')" "digit_val (CHR ''0'') = 0"
  by (simp_all add: is_digit_def digit_val_def)

lemma pad_digits: "list_all is_digit (pad w n)"
  by (simp add: pad_def dec_digits list_all_iff[of _ "replicate _ _"])

lemma foldl_zeros: "foldl (\<lambda>a c. 10 * a + digit_val c) 0 (replicate k (CHR ''0'') @ s) = dec_val s"
  by (induction k) (simp_all add: dec_val_def)

lemma pad_val [simp]: "dec_val (pad w n) = n"
  using foldl_zeros by (simp add: pad_def dec_val_def [of "_ @ _"])

lemma pad_length: "n < 10 ^ w \<Longrightarrow> 0 < w \<Longrightarrow> length (pad w n) = w"
  using dec_length by (simp add: pad_def)

lemma getnum_pad: 
  assumes "n < 100" 
  shows "getnum fixed (pad 2 n @ s) = Some (n, s)"
proof -
  have "length (pad 2 n) = 2"
    using assms by (intro pad_length) simp_all
  then obtain c d where cd: "pad 2 n = [c, d]"
    by (auto simp: numeral_2_eq_2 length_Suc_conv)
  then show ?thesis
    using pad_digits [of 2 n] pad_val [of 2 n] by (simp add: dec_val_def)
qed

lemma getyear_pad: "n < 10000 \<Longrightarrow> getyear (pad 4 n @ s) = Some (n, s)"
  using pad_length [of n 4] by (simp add: getyear_def pad_digits)

lemma dec_val_zeros: "dec_val (s @ replicate k (CHR ''0'')) = dec_val s * 10 ^ k"
proof (induction k)
  case (Suc k)
  have "s @ replicate (Suc k) (CHR ''0'') = (s @ replicate k (CHR ''0'')) @ [CHR ''0'']"
    by (simp add: replicate_append_same)
  with Suc show ?case
    by (simp only: dec_val_append) simp
qed simp

lemma trim_right: "rev (dropWhile ((=) x) (rev xs)) @ replicate (length (takeWhile ((=) x) (rev xs))) x = xs"
proof -
  have "takeWhile ((=) x) ys = replicate (length (takeWhile ((=) x) ys)) x" for ys
    by (induction ys) auto
  then have "replicate (length (takeWhile ((=) x) (rev xs))) x = rev (takeWhile ((=) x) (rev xs))"
    by (metis rev_replicate)
  then show ?thesis
    by (metis rev_append rev_rev_ident takeWhile_dropWhile_id)
qed

lemma parseNanoseconds_appendNano:
  assumes "ns < 1000000000"
  shows "parseNanoseconds (appendNano ns @ ''Z'') = (ns, ''Z'')"
proof (cases "ns = 0")
  case False
  define ds k where "ds = rev (dropWhile ((=) (CHR ''0'')) (rev (pad 9 ns)))"
    and "k = length (takeWhile ((=) (CHR ''0'')) (rev (pad 9 ns)))"
  have split: "ds @ replicate k (CHR ''0'') = pad 9 ns"
    unfolding ds_def k_def by (rule trim_right)
  have len: "length ds + k = 9"
    using pad_length [of ns 9] assms arg_cong [OF split, of length] by simp
  have digits: "list_all is_digit ds"
    using pad_digits [of 9 ns] unfolding split [symmetric] by simp
  have val: "dec_val ds * 10 ^ k = ns"
    using pad_val [of 9 ns] unfolding split [symmetric] dec_val_zeros .
  have "ds \<noteq> []"
    using val False by (auto simp: dec_val_def)
  then obtain d ds' where ds: "ds = d # ds'"
    by (cases ds) auto
  have nano: "appendNano ns = CHR ''.'' # ds"
    using False by (simp add: appendNano_def ds_def eq_commute [of _ "CHR ''0''"])
  have "\<not> is_digit (CHR ''Z'')"
    by (simp add: is_digit_def byte_def)
  then have "takeWhile is_digit (ds @ ''Z'') = ds" "dropWhile is_digit (ds @ ''Z'') = ''Z''"
    using digits by (simp_all add: list_all_iff)
  moreover have "take 9 ds = ds" "9 - length ds = k"
    using len by simp_all
  ultimately show ?thesis
    using digits val ds by (simp add: parseNanoseconds_def nano Let_def)
qed (simp add: appendNano_def parseNanoseconds_def)

definition time_ok :: "go_time \<Rightarrow> bool" where
  "time_ok t \<longleftrightarrow> 0 \<le> year_of t \<and> year_of t \<le> 9999"

lemma civil_small:
  assumes "civil day = (y, m, d)"
  shows "m < 100" and "d < 100"
proof -
  note ok = civil_ok [OF assms]
  have "daysIn m y \<le> 31"
    using ok(1,2) by (auto simp: daysIn_def numeral_eq_Suc le_Suc_eq)
  then show "m < 100" "d < 100"
    using ok(2,4) by linarith+
qed

lemma time_Parse_format:
  assumes "time_ok t"
  shows "time_Parse (format_rfc3339 t) = Some t"
proof -
  define day tod where "day = t div nanos_per_day" and "tod = t mod nanos_per_day"
  define secs ns where "secs = nat (tod div nanos_per_sec)" and "ns = nat (tod mod nanos_per_sec)"
  obtain y m d where civil: "civil day = (y, m, d)"
    by (cases "civil day")
  note ok = civil_ok [OF civil]
  have y: "0 \<le> y" "nat y < 10000"
    using assms civil by (auto simp: time_ok_def year_of_def day_def)
  note small = civil_small [OF civil]
  have tod: "0 \<le> tod" "tod < nanos_per_day"
    by (simp_all add: tod_def nanos_per_day_def nanos_per_sec_def)
  then have secs: "secs < 86400" "ns < 1000000000"
    by (simp_all add: secs_def ns_def nanos_per_day_def nanos_per_sec_def nat_less_iff div_less_iff_less_mult)
  have sum: "(secs div 3600 * 60 + secs div 60 mod 60) * 60 + secs mod 60 = secs"
  proof -
    have "secs div 3600 = secs div 60 div 60"
      by (simp flip: div_mult2_eq)
    then have "secs div 3600 * 60 + secs div 60 mod 60 = secs div 60"
      by simp
    then show ?thesis
      by simp
  qed
  have "int secs * nanos_per_sec + int ns = tod"
    using tod by (simp add: secs_def ns_def nanos_per_sec_def pos_imp_zdiv_nonneg_iff)
  then have t: "day * nanos_per_day + int secs * nanos_per_sec + int ns = t"
    using div_mult_mod_eq [of t nanos_per_day] by (simp add: day_def tod_def add.assoc)
  have "format_rfc3339 t = pad 4 (nat y) @ ''-'' @ pad 2 m @ ''-'' @ pad 2 d @ ''T'' @
        pad 2 (secs div 3600) @ '':'' @ pad 2 (secs div 60 mod 60) @ '':'' @ pad 2 (secs mod 60) @
        appendNano ns @ ''Z''"
    using civil by (simp add: format_rfc3339_def Let_def day_def tod_def secs_def ns_def)
  moreover have "secs div 3600 < 24"
    using secs(1) by (simp add: div_less_iff_less_mult)
  ultimately show ?thesis
    using y small ok secs(2) t sum
    by (simp add: time_Parse_def getyear_pad getnum_pad guard_def parseNanoseconds_appendNano
        parse_zone_def del: of_nat_add of_nat_mult)
qed

lemma digit_plain: "is_digit c \<Longrightarrow> plain c"
  by (auto simp: is_digit_def plain_def)

lemma pad_plain: "list_all plain (pad w n)"
  using pad_digits [of w n] by (auto simp: list_all_iff intro: digit_plain)

lemma appendNano_plain: "list_all plain (appendNano ns)"
proof -
  have "set (appendNano ns) \<subseteq> insert (CHR ''.'') (set (pad 9 ns))"
    by (auto simp: appendNano_def dest: set_dropWhileD)
  moreover have "plain (CHR ''.'')"
    by (simp add: plain_def byte_def)
  ultimately show ?thesis
    using pad_plain [of 9 ns] by (auto simp: list_all_iff)
qed

lemma format_plain: "list_all plain (format_rfc3339 t)"
proof -
  have "plain (CHR ''-'')" "plain (CHR ''T'')" "plain (CHR '':'')" "plain (CHR ''Z'')"
    by (simp_all add: plain_def byte_def)
  then show ?thesis
    by (simp add: format_rfc3339_def pad_plain appendNano_plain Let_def split: prod.split)
qed

text \<open>\<^verbatim>\<open>Time.UnmarshalJSON\<close> on the raw bytes of a JSON string, and the round trip through it.\<close>

lemma time_MarshalJSON_ok:
  "time_ok t \<Longrightarrow> time_MarshalJSON t = Some (dq # format_rfc3339 t @ [dq])"
  by (simp add: time_MarshalJSON_def time_ok_def)

lemma time_MarshalJSON_None: "time_MarshalJSON t = None \<longleftrightarrow> \<not> time_ok t"
  by (simp add: time_MarshalJSON_def time_ok_def)

lemma denotes_time: "denotes (dq # format_rfc3339 t @ [dq]) (JStr (format_rfc3339 t))"
  by (rule denotes_plain) (rule format_plain)

end
