(* ===== verification/JsonStruct.thy ===== *)
theory JsonStruct
  imports GoTime
begin

text \<open>
  How \<^verbatim>\<open>encoding/json\<close> fills a struct from a value it has scanned: members in the order of the
  text, each key matched to a field name, a member that names no field skipped, and the decoding
  rules of the field types the program uses.  The struct is given by its list of JSON names and a
  function that stores a value in the named field; every struct of the program is an instance.
\<close>

section \<open>Decoding\<close>

datatype json_error = JSONSyntaxError | JSONDecodeError

text \<open>
  Decoding into a field gets the field's old value, which a \<^verbatim>\<open>null\<close> leaves as it is.
\<close>

definition decode_string :: "json \<Rightarrow> string \<Rightarrow> string option" where
  "decode_string v old = (case v of JNull \<Rightarrow> Some old | JStr raw \<Rightarrow> Some (unquote raw) | _ \<Rightarrow> None)"

definition decode_bool :: "json \<Rightarrow> bool \<Rightarrow> bool option" where
  "decode_bool v old = (case v of JNull \<Rightarrow> Some old | JBool b \<Rightarrow> Some b | _ \<Rightarrow> None)"

definition decode_int :: "json \<Rightarrow> int \<Rightarrow> int option" where
  "decode_int v old = (case v of JNull \<Rightarrow> Some old | JNum s \<Rightarrow> ParseInt s | _ \<Rightarrow> None)"

definition decode_uint :: "json \<Rightarrow> uint64 \<Rightarrow> uint64 option" where
  "decode_uint v old = (case v of JNull \<Rightarrow> Some old | JNum s \<Rightarrow> ParseUint s | _ \<Rightarrow> None)"

definition decode_time :: "json \<Rightarrow> go_time \<Rightarrow> go_time option" where
  "decode_time v old = (case v of JNull \<Rightarrow> Some old | JStr raw \<Rightarrow> time_Parse raw | _ \<Rightarrow> None)"

text \<open>A \<^verbatim>\<open>null\<close> sets a pointer field to nil; any other value is decoded into what it points to.\<close>

definition decode_ptr :: "(json \<Rightarrow> 'a \<Rightarrow> 'a option) \<Rightarrow> 'a \<Rightarrow> json \<Rightarrow> 'a option option" where
  "decode_ptr f zero v =
    (if v = JNull then Some None
     else case f v zero of None \<Rightarrow> None | Some x \<Rightarrow> Some (Some x))"

text \<open>A slice field is filled element by element, each decoded into a zero value.\<close>

primrec decode_elements :: "(json \<Rightarrow> 'a \<Rightarrow> 'a option) \<Rightarrow> 'a \<Rightarrow> json list \<Rightarrow> 'a list option" where
  "decode_elements f zero [] = Some []"
| "decode_elements f zero (v # vs) =
    (case f v zero of
       None \<Rightarrow> None
     | Some x \<Rightarrow> map_option (\<lambda>xs. x # xs) (decode_elements f zero vs))"

definition decode_slice :: "(json \<Rightarrow> 'a \<Rightarrow> 'a option) \<Rightarrow> 'a \<Rightarrow> json \<Rightarrow> 'a list option" where
  "decode_slice f zero v =
    (case v of JNull \<Rightarrow> Some [] | JArr vs \<Rightarrow> decode_elements f zero vs | _ \<Rightarrow> None)"

type_synonym 'a field_decoder = "bytes \<Rightarrow> json \<Rightarrow> 'a \<Rightarrow> 'a option"

definition decode_member :: "bytes list \<Rightarrow> 'a field_decoder \<Rightarrow> bytes \<times> json \<Rightarrow> 'a \<Rightarrow> 'a option" where
  "decode_member names field m x =
    (case field_for names (unquote (fst m)) of
       None \<Rightarrow> Some x
     | Some name \<Rightarrow> field name (snd m) x)"

primrec decode_members ::
  "bytes list \<Rightarrow> 'a field_decoder \<Rightarrow> (bytes \<times> json) list \<Rightarrow> 'a \<Rightarrow> 'a option" where
  "decode_members names field [] x = Some x"
| "decode_members names field (m # ms) x =
    (case decode_member names field m x of
       None \<Rightarrow> None
     | Some x' \<Rightarrow> decode_members names field ms x')"

definition decode_struct :: "bytes list \<Rightarrow> 'a field_decoder \<Rightarrow> json \<Rightarrow> 'a \<Rightarrow> 'a option" where
  "decode_struct names field v old =
    (case v of
       JNull \<Rightarrow> Some old
     | JObj ms \<Rightarrow> decode_members names field ms old
     | _ \<Rightarrow> None)"

definition unmarshal_struct ::
  "bytes list \<Rightarrow> 'a field_decoder \<Rightarrow> 'a \<Rightarrow> bytes \<Rightarrow> json_error + 'a" where
  "unmarshal_struct names field zero s =
    (case json_parse s of
       None \<Rightarrow> Inl JSONSyntaxError
     | Some v \<Rightarrow>
         (case decode_struct names field v zero of
            None \<Rightarrow> Inl JSONDecodeError
          | Some x \<Rightarrow> Inr x))"

lemmas decode_value_defs =
  decode_string_def decode_bool_def decode_int_def decode_uint_def decode_time_def decode_ptr_def

section \<open>What encoded members are decoded to\<close>

lemma decode_members_append:
  "decode_members names field (a @ b) x =
    (case decode_members names field a x of None \<Rightarrow> None | Some x' \<Rightarrow> decode_members names field b x')"
  by (induction a arbitrary: x) (auto split: option.split)

lemma unmarshal_struct_syntax:
  "unmarshal_struct names field zero s = Inl JSONSyntaxError \<longleftrightarrow> json_parse s = None"
  by (auto simp: unmarshal_struct_def split: option.split)

text \<open>
  A group of encoded members carries a struct to another when the texts denote members whose
  decoding turns the first into the second; \<open>d\<close> bounds how deep the texts nest.
\<close>

definition carries ::
  "bytes list \<Rightarrow> 'a field_decoder \<Rightarrow> nat \<Rightarrow> (bytes \<times> bytes) list \<Rightarrow> 'a \<Rightarrow> 'a \<Rightarrow> bool" where
  "carries names field d fs x x' \<longleftrightarrow>
    (\<exists>ms. list_all2 (member_ok_in d) fs ms \<and> decode_members names field ms x = Some x')"

lemma carries_Nil: "carries names field d [] x x"
  by (simp add: carries_def)

lemma carries_append:
  "carries names field d fs x x' \<Longrightarrow> carries names field d gs x' x'' \<Longrightarrow>
   carries names field d (fs @ gs) x x''"
  unfolding carries_def using list_all2_appendI by (fastforce simp: decode_members_append)

lemma member_ok_in_mono: "member_ok_in d f m \<Longrightarrow> d \<le> d' \<Longrightarrow> member_ok_in d' f m"
  by (auto simp: member_ok_in_def intro: denotes_in_mono)

lemma carries_mono: "carries names field d fs x x' \<Longrightarrow> d \<le> d' \<Longrightarrow> carries names field d' fs x x'"
  unfolding carries_def by (blast intro: list_all2_mono member_ok_in_mono)

lemma carries_struct:
  assumes "carries names field d fs x x'"
  shows "\<exists>v. denotes_in (Suc d) (object_text fs) v \<and> decode_struct names field v x = Some x'"
  using assms denotes_object by (fastforce simp: carries_def decode_struct_def)

lemma unmarshal_object:
  assumes "carries names field d fs zero x" "d < maxNestingDepth"
  shows "unmarshal_struct names field zero (object_text fs) = Inr x"
proof -
  obtain v where "denotes_in (Suc d) (object_text fs) v" "decode_struct names field v zero = Some x"
    using carries_struct [OF assms(1)] by blast
  then show ?thesis
    using json_parse_denotes [of "Suc d"] assms(2) by (auto simp: unmarshal_struct_def)
qed

lemma decode_elements_ok:
  assumes "list_all2 (\<lambda>v x. f v zero = Some x) vs xs"
  shows "decode_elements f zero vs = Some xs"
  using assms by (induction rule: list_all2_induct) simp_all

section \<open>Structs whose names are plain text\<close>

text \<open>
  The contract a struct's field names meet: a name is written between quotes as it stands, so its
  key in an encoded object is read back as the name.
\<close>

definition plain_name :: "bytes \<Rightarrow> bool" where
  "plain_name k \<longleftrightarrow> list_all plain k \<and> unquote k = k"

locale json_struct =
  fixes names :: "bytes list" and field :: "'a field_decoder"
  assumes names_plain: "list_all plain_name names"
begin

lemma decode_member_field: "k \<in> set names \<Longrightarrow> decode_member names field (k, v) x = field k v x"
  using names_plain by (auto simp: decode_member_def field_for_def list_all_iff plain_name_def)

lemma carries_one:
  assumes "k \<in> set names" "denotes_in d t v" "field k v x = Some x'"
  shows "carries names field d [(k, t)] x x'"
  unfolding carries_def
  by (rule exI [of _ "[(k, v)]"])
    (use assms names_plain in \<open>auto simp: member_ok_in_def decode_member_field list_all_iff plain_name_def\<close>)

lemma carries_Cons:
  assumes "k \<in> set names" "denotes_in d t v" "field k v x = Some x'" "carries names field d fs x' x''"
  shows "carries names field d ((k, t) # fs) x x''"
  using carries_append [OF carries_one [OF assms(1-3)] assms(4)] by simp

end

end
