(* ===== verification/LogEntry.thy ===== *)
theory LogEntry
  imports Model JsonStruct
begin

text \<open>
  One record of the log: the struct \<^verbatim>\<open>logEntry\<close> of \<^verbatim>\<open>src/pkg/storage/wal.go\<close> with the JSON text its
  field tags give it, \<^verbatim>\<open>json.Marshal\<close> in field order with \<^verbatim>\<open>omitempty\<close>, and \<^verbatim>\<open>json.Unmarshal\<close>
  with the decoding rules of each field's type.  The text of a record decodes to the record, with
  ill-formed UTF-8 in its strings replaced, and it holds no line break.
\<close>

section \<open>The record and its text\<close>

record logEntry =
  le_V :: int
  le_Op :: string
  le_Seq :: uint64
  le_TS :: go_time
  le_ID :: string
  le_MsgSeq :: uint64
  le_Payload :: string
  le_Priority :: "int option"
  le_EnqueuedAt :: "go_time option"
  le_AvailableAt :: "go_time option"
  le_Status :: Status

definition zero_entry :: logEntry where
  "zero_entry = \<lparr>le_V = 0, le_Op = [], le_Seq = 0, le_TS = 0, le_ID = [], le_MsgSeq = 0,
     le_Payload = [], le_Priority = None, le_EnqueuedAt = None, le_AvailableAt = None,
     le_Status = []\<rparr>"

definition omit_string :: "bytes \<Rightarrow> bytes \<Rightarrow> (bytes \<times> bytes) list" where
  "omit_string name s = (if s = [] then [] else [(name, json_quote s)])"

definition omit_uint :: "bytes \<Rightarrow> uint64 \<Rightarrow> (bytes \<times> bytes) list" where
  "omit_uint name w = (if w = 0 then [] else [(name, dec (unat w))])"

definition omit_int :: "bytes \<Rightarrow> int option \<Rightarrow> (bytes \<times> bytes) list" where
  "omit_int name v = (case v of None \<Rightarrow> [] | Some i \<Rightarrow> [(name, Itoa i)])"

definition omit_time :: "bytes \<Rightarrow> go_time option \<Rightarrow> (bytes \<times> bytes) list option" where
  "omit_time name v =
    (case v of
       None \<Rightarrow> Some []
     | Some t \<Rightarrow> (case time_MarshalJSON t of None \<Rightarrow> None | Some b \<Rightarrow> Some [(name, b)]))"

definition Marshal :: "logEntry \<Rightarrow> bytes option" where
  "Marshal e = do {
     ts \<leftarrow> time_MarshalJSON (le_TS e);
     enqueued \<leftarrow> omit_time ''enqueued_at'' (le_EnqueuedAt e);
     available \<leftarrow> omit_time ''available_at'' (le_AvailableAt e);
     Some (object_text
       ([(''v'', Itoa (le_V e)), (''op'', json_quote (le_Op e)), (''seq'', dec (unat (le_Seq e))),
         (''ts'', ts)] @
        omit_string ''id'' (le_ID e) @ omit_uint ''msg_seq'' (le_MsgSeq e) @
        omit_string ''payload'' (le_Payload e) @ omit_int ''priority'' (le_Priority e) @
        enqueued @ available @ omit_string ''status'' (le_Status e)))
   }"

section \<open>Decoding\<close>

definition field_names :: "bytes list" where
  "field_names = [''v'', ''op'', ''seq'', ''ts'', ''id'', ''msg_seq'', ''payload'', ''priority'',
     ''enqueued_at'', ''available_at'', ''status'']"

definition decode_field :: "bytes \<Rightarrow> json \<Rightarrow> logEntry \<Rightarrow> logEntry option" where
  "decode_field name v e =
    (if name = ''v'' then map_option (\<lambda>x. e\<lparr>le_V := x\<rparr>) (decode_int v (le_V e))
     else if name = ''op'' then map_option (\<lambda>x. e\<lparr>le_Op := x\<rparr>) (decode_string v (le_Op e))
     else if name = ''seq'' then map_option (\<lambda>x. e\<lparr>le_Seq := x\<rparr>) (decode_uint v (le_Seq e))
     else if name = ''ts'' then map_option (\<lambda>x. e\<lparr>le_TS := x\<rparr>) (decode_time v (le_TS e))
     else if name = ''id'' then map_option (\<lambda>x. e\<lparr>le_ID := x\<rparr>) (decode_string v (le_ID e))
     else if name = ''msg_seq'' then map_option (\<lambda>x. e\<lparr>le_MsgSeq := x\<rparr>) (decode_uint v (le_MsgSeq e))
     else if name = ''payload'' then map_option (\<lambda>x. e\<lparr>le_Payload := x\<rparr>) (decode_string v (le_Payload e))
     else if name = ''priority'' then map_option (\<lambda>x. e\<lparr>le_Priority := x\<rparr>) (decode_ptr decode_int 0 v)
     else if name = ''enqueued_at'' then
       map_option (\<lambda>x. e\<lparr>le_EnqueuedAt := x\<rparr>) (decode_ptr decode_time 0 v)
     else if name = ''available_at'' then
       map_option (\<lambda>x. e\<lparr>le_AvailableAt := x\<rparr>) (decode_ptr decode_time 0 v)
     else if name = ''status'' then map_option (\<lambda>x. e\<lparr>le_Status := x\<rparr>) (decode_string v (le_Status e))
     else Some e)"

definition Unmarshal :: "bytes \<Rightarrow> json_error + logEntry" where
  "Unmarshal = unmarshal_struct field_names decode_field zero_entry"

lemma Unmarshal_syntax: "Unmarshal s = Inl JSONSyntaxError \<longleftrightarrow> json_parse s = None"
  by (simp add: Unmarshal_def unmarshal_struct_syntax)

interpretation le: json_struct field_names decode_field
  by unfold_locales code_simp

section \<open>Round trip\<close>

definition normal_entry :: "logEntry \<Rightarrow> logEntry" where
  "normal_entry e = e\<lparr>le_Op := ToValidUTF8 (le_Op e), le_ID := ToValidUTF8 (le_ID e),
     le_Payload := ToValidUTF8 (le_Payload e), le_Status := ToValidUTF8 (le_Status e)\<rparr>"

definition entry_range :: "logEntry \<Rightarrow> bool" where
  "entry_range e \<longleftrightarrow> int64_range (le_V e) \<and> (case le_Priority e of None \<Rightarrow> True | Some i \<Rightarrow> int64_range i)"

abbreviation field_key :: "bytes \<Rightarrow> bool" where
  "field_key k \<equiv> k \<in> set field_names"

abbreviation entry_carries :: "(bytes \<times> bytes) list \<Rightarrow> logEntry \<Rightarrow> logEntry \<Rightarrow> bool" where
  "entry_carries \<equiv> carries field_names decode_field 0"

lemma field_key [simp]:
  "field_key ''v''" "field_key ''op''" "field_key ''seq''" "field_key ''ts''" "field_key ''id''"
  "field_key ''msg_seq''" "field_key ''payload''" "field_key ''priority''"
  "field_key ''enqueued_at''" "field_key ''available_at''" "field_key ''status''"
  by (simp_all add: field_names_def)

lemmas decode_entry_defs = decode_field_def decode_value_defs

lemma carries_omit_string:
  assumes "field_key k" "\<And>raw. decode_field k (JStr raw) e = Some (f (unquote raw))" "f [] = e"
  shows "entry_carries (omit_string k s) e (f (ToValidUTF8 s))"
  using assms le.carries_one [OF assms(1) denotes_quote, of s e]
  by (auto simp: omit_string_def carries_Nil unquote_escape)

lemma carries_omit_uint:
  assumes "field_key k" "\<And>q w. ParseUint q = Some w \<Longrightarrow> decode_field k (JNum q) e = Some (f w)" "f 0 = e"
  shows "entry_carries (omit_uint k w) e (f w)"
  using assms le.carries_one [OF assms(1) denotes_dec, of "unat w" e]
  by (auto simp: omit_uint_def carries_Nil ParseUint_dec)

lemma carries_omit_int:
  assumes "field_key k" "\<And>q i. ParseInt q = Some i \<Longrightarrow> decode_field k (JNum q) e = Some (f (Some i))"
    "f None = e" "\<And>i. p = Some i \<Longrightarrow> int64_range i"
  shows "entry_carries (omit_int k p) e (f p)"
  using assms le.carries_one [OF assms(1) denotes_Itoa, of "the p" e]
  by (cases p) (auto simp: omit_int_def carries_Nil ParseInt_Itoa)

lemma omit_time_SomeD:
  assumes "omit_time name v = Some fs"
  obtains "v = None" "fs = []"
  | t where "v = Some t" "time_ok t" "fs = [(name, dq # format_rfc3339 t @ [dq])]"
  using assms
  by (auto simp: omit_time_def time_MarshalJSON_def time_ok_def split: option.splits if_splits)

lemma carries_omit_time:
  assumes "omit_time k v = Some fs" "field_key k"
    "\<And>q t. time_Parse q = Some t \<Longrightarrow> decode_field k (JStr q) e = Some (f (Some t))" "f None = e"
  shows "entry_carries fs e (f v)"
  using assms(1)
proof (cases rule: omit_time_SomeD)
  case 1
  then show ?thesis using assms(4) by (simp add: carries_Nil)
next
  case (2 t)
  then show ?thesis
    using le.carries_one [OF assms(2) denotes_time, of t e] assms(3) [OF time_Parse_format, of t] by simp
qed

lemma carries_head:
  assumes "int64_range v" "time_ok t"
  shows "entry_carries [(''v'', Itoa v), (''op'', json_quote op), (''seq'', dec (unat q)),
      (''ts'', dq # format_rfc3339 t @ [dq])] zero_entry
    (zero_entry\<lparr>le_V := v, le_Op := ToValidUTF8 op, le_Seq := q, le_TS := t\<rparr>)"
proof (rule le.carries_Cons [OF _ denotes_Itoa])
  show "decode_field ''v'' (JNum (Itoa v)) zero_entry = Some (zero_entry\<lparr>le_V := v\<rparr>)"
    using assms by (simp add: decode_entry_defs ParseInt_Itoa)
  show "entry_carries [(''op'', json_quote op), (''seq'', dec (unat q)),
      (''ts'', dq # format_rfc3339 t @ [dq])] (zero_entry\<lparr>le_V := v\<rparr>)
    (zero_entry\<lparr>le_V := v, le_Op := ToValidUTF8 op, le_Seq := q, le_TS := t\<rparr>)"
    using assms
    by (intro le.carries_Cons [OF _ denotes_quote] le.carries_Cons [OF _ denotes_dec]
        le.carries_one [OF _ denotes_time])
      (simp_all add: decode_entry_defs ParseUint_dec time_Parse_format unquote_escape)
qed simp

lemma Marshal_SomeD:
  assumes "Marshal e = Some s"
  obtains fe fa where "time_ok (le_TS e)"
    "omit_time ''enqueued_at'' (le_EnqueuedAt e) = Some fe"
    "omit_time ''available_at'' (le_AvailableAt e) = Some fa"
    "s = object_text ([(''v'', Itoa (le_V e)), (''op'', json_quote (le_Op e)),
         (''seq'', dec (unat (le_Seq e))), (''ts'', dq # format_rfc3339 (le_TS e) @ [dq])] @
        omit_string ''id'' (le_ID e) @ omit_uint ''msg_seq'' (le_MsgSeq e) @
        omit_string ''payload'' (le_Payload e) @ omit_int ''priority'' (le_Priority e) @
        fe @ fa @ omit_string ''status'' (le_Status e))"
  using assms
  by (auto simp: Marshal_def time_MarshalJSON_def time_ok_def bind_eq_Some_conv split: if_splits)

text \<open>The eleven fields of a record, one after the other.\<close>

lemma carries_entry:
  assumes "int64_range v" "time_ok t" "\<And>i. pr = Some i \<Longrightarrow> int64_range i"
    and "omit_time ''enqueued_at'' ea = Some fe" "omit_time ''available_at'' aa = Some fa"
  shows "entry_carries ([(''v'', Itoa v), (''op'', json_quote op), (''seq'', dec (unat q)),
      (''ts'', dq # format_rfc3339 t @ [dq])] @ omit_string ''id'' i @ omit_uint ''msg_seq'' ms @
      omit_string ''payload'' pl @ omit_int ''priority'' pr @ fe @ fa @ omit_string ''status'' st)
    zero_entry
    \<lparr>le_V = v, le_Op = ToValidUTF8 op, le_Seq = q, le_TS = t, le_ID = ToValidUTF8 i, le_MsgSeq = ms,
     le_Payload = ToValidUTF8 pl, le_Priority = pr, le_EnqueuedAt = ea, le_AvailableAt = aa,
     le_Status = ToValidUTF8 st\<rparr>"
proof -
  let ?e = "\<lambda>i ms pl pr ea aa st. \<lparr>le_V = v, le_Op = ToValidUTF8 op, le_Seq = q, le_TS = t, le_ID = i,
    le_MsgSeq = ms, le_Payload = pl, le_Priority = pr, le_EnqueuedAt = ea, le_AvailableAt = aa,
    le_Status = st\<rparr>"
  have 0: "entry_carries [(''v'', Itoa v), (''op'', json_quote op), (''seq'', dec (unat q)),
      (''ts'', dq # format_rfc3339 t @ [dq])] zero_entry (?e [] 0 [] None None None [])"
    using carries_head [OF assms(1,2)] by (simp add: zero_entry_def)
  have 1: "entry_carries (omit_string ''id'' i) (?e [] 0 [] None None None [])
      (?e (ToValidUTF8 i) 0 [] None None None [])"
    by (rule carries_omit_string [where f = "\<lambda>x. ?e x 0 [] None None None []"])
      (simp_all add: decode_entry_defs)
  have 2: "entry_carries (omit_uint ''msg_seq'' ms) (?e (ToValidUTF8 i) 0 [] None None None [])
      (?e (ToValidUTF8 i) ms [] None None None [])"
    by (rule carries_omit_uint [where f = "\<lambda>x. ?e (ToValidUTF8 i) x [] None None None []"])
      (simp_all add: decode_entry_defs)
  have 3: "entry_carries (omit_string ''payload'' pl) (?e (ToValidUTF8 i) ms [] None None None [])
      (?e (ToValidUTF8 i) ms (ToValidUTF8 pl) None None None [])"
    by (rule carries_omit_string [where f = "\<lambda>x. ?e (ToValidUTF8 i) ms x None None None []"])
      (simp_all add: decode_entry_defs)
  have 4: "entry_carries (omit_int ''priority'' pr) (?e (ToValidUTF8 i) ms (ToValidUTF8 pl) None None None [])
      (?e (ToValidUTF8 i) ms (ToValidUTF8 pl) pr None None [])"
    by (rule carries_omit_int [where f = "\<lambda>x. ?e (ToValidUTF8 i) ms (ToValidUTF8 pl) x None None []"])
      (simp_all add: decode_entry_defs assms(3))
  have 5: "entry_carries fe (?e (ToValidUTF8 i) ms (ToValidUTF8 pl) pr None None [])
      (?e (ToValidUTF8 i) ms (ToValidUTF8 pl) pr ea None [])"
    by (rule carries_omit_time [OF assms(4), where f = "\<lambda>x. ?e (ToValidUTF8 i) ms (ToValidUTF8 pl) pr x None []"])
      (simp_all add: decode_entry_defs)
  have 6: "entry_carries fa (?e (ToValidUTF8 i) ms (ToValidUTF8 pl) pr ea None [])
      (?e (ToValidUTF8 i) ms (ToValidUTF8 pl) pr ea aa [])"
    by (rule carries_omit_time [OF assms(5), where f = "\<lambda>x. ?e (ToValidUTF8 i) ms (ToValidUTF8 pl) pr ea x []"])
      (simp_all add: decode_entry_defs)
  have 7: "entry_carries (omit_string ''status'' st) (?e (ToValidUTF8 i) ms (ToValidUTF8 pl) pr ea aa [])
      (?e (ToValidUTF8 i) ms (ToValidUTF8 pl) pr ea aa (ToValidUTF8 st))"
    by (rule carries_omit_string [where f = "\<lambda>x. ?e (ToValidUTF8 i) ms (ToValidUTF8 pl) pr ea aa x"])
      (simp_all add: decode_entry_defs)
  show ?thesis
    by (rule carries_append [OF 0 carries_append [OF 1 carries_append [OF 2 carries_append [OF 3
            carries_append [OF 4 carries_append [OF 5 carries_append [OF 6 7]]]]]]])
qed

lemma Unmarshal_object:
  assumes "entry_carries fs zero_entry e"
  shows "Unmarshal (object_text fs) = Inr e"
  unfolding Unmarshal_def by (rule unmarshal_object [OF assms]) (simp add: maxNestingDepth_def)

lemma Unmarshal_Marshal:
  assumes "Marshal e = Some s" "entry_range e"
  shows "Unmarshal s = Inr (normal_entry e)"
  using assms(1)
proof (cases rule: Marshal_SomeD)
  case (1 fe fa)
  have range: "int64_range (le_V e)" "\<And>i. le_Priority e = Some i \<Longrightarrow> int64_range i"
    using assms(2) by (auto simp: entry_range_def)
  have "Unmarshal s = Inr \<lparr>le_V = le_V e, le_Op = ToValidUTF8 (le_Op e), le_Seq = le_Seq e,
      le_TS = le_TS e, le_ID = ToValidUTF8 (le_ID e), le_MsgSeq = le_MsgSeq e,
      le_Payload = ToValidUTF8 (le_Payload e), le_Priority = le_Priority e,
      le_EnqueuedAt = le_EnqueuedAt e, le_AvailableAt = le_AvailableAt e,
      le_Status = ToValidUTF8 (le_Status e)\<rparr>"
    unfolding 1(4)
    by (rule Unmarshal_object [OF carries_entry [OF range(1) 1(1) range(2) 1(2,3)]])
  then show ?thesis
    by (simp add: normal_entry_def)
qed

lemma normal_entry_valid:
  assumes "valid_utf8 (le_Op e)" "valid_utf8 (le_ID e)" "valid_utf8 (le_Payload e)"
    "valid_utf8 (le_Status e)"
  shows "normal_entry e = e"
  using assms by (simp add: normal_entry_def ToValidUTF8_valid)

section \<open>The text of a record on disk\<close>

text \<open>No record text holds a control character; it opens with a brace and closes with one.\<close>

definition printable :: "bytes \<Rightarrow> bool" where
  "printable s \<longleftrightarrow> list_all (\<lambda>c. 0x20 \<le> byte c) s"

lemma printable_simps [simp]:
  "printable []" "printable (c # s) \<longleftrightarrow> 0x20 \<le> byte c \<and> printable s"
  "printable (a @ b) \<longleftrightarrow> printable a \<and> printable b"
  by (simp_all add: printable_def)

lemma printable_plain: "list_all plain s \<Longrightarrow> printable s"
  by (auto simp: printable_def plain_def list_all_iff)

lemma printable_quote: "printable (json_quote s)"
  using escape_printable [of s] by (simp add: json_quote_def) (simp add: printable_def)

lemma printable_dec: "printable (dec n)"
  using dec_digits [of n] by (auto simp: printable_def list_all_iff is_digit_def)

lemma printable_Itoa: "printable (Itoa i)"
  by (auto simp: Itoa_def printable_dec byte_def)

lemma printable_time: "printable (dq # format_rfc3339 t @ [dq])"
  using printable_plain [OF format_plain] by simp

definition printable_member :: "bytes \<times> bytes \<Rightarrow> bool" where
  "printable_member f \<longleftrightarrow> printable (fst f) \<and> printable (snd f)"

lemma printable_members: "list_all printable_member fs \<Longrightarrow> printable (members_text fs)"
  by (induction fs rule: members_text.induct)
    (auto simp: member_text_def printable_member_def byte_def)

lemma printable_object: "list_all printable_member fs \<Longrightarrow> printable (object_text fs)"
  by (simp add: object_text_def printable_members byte_def)

lemma field_key_printable: "field_key k \<Longrightarrow> printable k"
  using le.names_plain by (auto simp: list_all_iff plain_name_def intro: printable_plain)

lemma printable_omit:
  assumes "field_key k"
  shows "list_all printable_member (omit_string k s)" "list_all printable_member (omit_uint k w)"
    "list_all printable_member (omit_int k p)"
    "omit_time k v = Some fs \<Longrightarrow> list_all printable_member fs"
  using field_key_printable [OF assms] printable_time
  by (auto simp: omit_string_def omit_uint_def omit_int_def printable_member_def printable_quote
      printable_dec printable_Itoa elim: omit_time_SomeD split: option.split)

lemma Marshal_printable:
  assumes "Marshal e = Some s"
  shows "printable s"
  using assms
proof (cases rule: Marshal_SomeD)
  case (1 fe fa)
  have "printable_member (''v'', Itoa (le_V e))" "printable_member (''op'', json_quote (le_Op e))"
    "printable_member (''seq'', dec (unat (le_Seq e)))"
    "printable_member (''ts'', dq # format_rfc3339 (le_TS e) @ [dq])"
    using field_key_printable field_key unfolding printable_member_def fst_conv snd_conv
    by (blast intro: printable_quote printable_dec printable_Itoa printable_time)+
  moreover have "list_all printable_member fe" "list_all printable_member fa"
    using printable_omit(4) field_key 1(2,3) by blast+
  ultimately show ?thesis
    unfolding 1(4) by (intro printable_object) (simp add: printable_omit)
qed

lemma Marshal_braces:
  assumes "Marshal e = Some s"
  obtains b where "s = CHR ''{'' # b @ ''}''"
  using assms by (cases rule: Marshal_SomeD) (auto simp: object_text_def)

lemma printable_no_newline: "printable s \<Longrightarrow> CHR 0x0A \<notin> set s"
  by (auto simp: printable_def list_all_iff byte_def)

text \<open>A record text cut short is a syntax error, wherever it is cut.\<close>

lemma Unmarshal_torn:
  assumes "Marshal e = Some s" "entry_range e" "n < length s"
  shows "Unmarshal (take n s) = Inl JSONSyntaxError"
proof -
  obtain b where s: "s = CHR ''{'' # b @ ''}''"
    using assms(1) by (rule Marshal_braces)
  show ?thesis
  proof (cases n)
    case 0
    have "json_parse [] = None"
      by code_simp
    then show ?thesis
      using 0 by (simp add: Unmarshal_syntax)
  next
    case (Suc k)
    then have "take n s = CHR ''{'' # take k b" and "s = CHR ''{'' # take k b @ drop k b @ ''}''"
      using assms(3) s by (simp_all flip: append_assoc)
    moreover have "json_parse s \<noteq> None"
      using Unmarshal_Marshal [OF assms(1,2)] Unmarshal_syntax [of s] by auto
    ultimately show ?thesis
      using json_parse_torn by (simp add: Unmarshal_syntax)
  qed
qed

section \<open>How long a record can be\<close>

lemma escape_byte_length: "length (escape_byte c) \<le> 6"
  by (simp add: escape_byte_def)

lemma escape_rune_length:
  assumes "s \<noteq> []"
  shows "length (escape_rune s) \<le> 6 * snd (DecodeRune s)"
  using assms
proof (cases rule: escape_rune_cases)
  case ascii
  then show ?thesis using escape_byte_length [of "hd s"] by simp
next
  case ill
  then show ?thesis by (simp add: ill_formed_def)
next
  case (sep r n)
  then show ?thesis using DecodeRune_width(1) [OF assms] by simp
qed simp

lemma escape_length: "length (escape s) \<le> 6 * length s"
proof (induction s rule: escape.induct)
  case (2 c s)
  let ?n = "snd (DecodeRune (c # s))"
  have "length (escape (c # s)) \<le> 6 * ?n + 6 * length (drop ?n (c # s))"
    using 2 escape_rune_length [of "c # s"] by simp
  then show ?case
    using DecodeRune_width(2) [of "c # s"] by simp
qed simp

lemma json_quote_length: "length (json_quote s) = length (escape s) + 2"
  by (simp add: json_quote_def)

lemma dec_unat_length: "length (dec (unat w)) \<le> 20" for w :: uint64
proof (rule dec_length)
  show "unat w < 10 ^ 20"
    using unsigned_less [of w, where ?'a = nat] by simp
qed simp

lemma Itoa_length:
  assumes "int64_range i"
  shows "length (Itoa i) \<le> 20"
proof -
  have "nat \<bar>i\<bar> < 10 ^ 19"
    using assms by (simp add: int64_range_def abs_if nat_less_iff)
  then have "length (dec (nat \<bar>i\<bar>)) \<le> 19"
    by (rule dec_length) simp
  then show ?thesis
    by (simp add: Itoa_def abs_if split: if_splits)
qed

lemma format_length:
  assumes "time_ok t"
  shows "length (format_rfc3339 t) \<le> 30"
proof -
  define day tod where "day = t div nanos_per_day" and "tod = t mod nanos_per_day"
  define secs ns where "secs = nat (tod div nanos_per_sec)" and "ns = nat (tod mod nanos_per_sec)"
  obtain y m d where civil: "civil day = (y, m, d)"
    by (cases "civil day")
  have y: "nat y < 10 ^ 4"
    using assms civil by (auto simp: time_ok_def year_of_def day_def)
  have "m < 10 ^ 2" "d < 10 ^ 2"
    using civil_small [OF civil] by simp_all
  moreover have "secs < 86400"
    using pos_mod_bound [of nanos_per_day t]
    by (simp add: secs_def tod_def nanos_per_day_def nanos_per_sec_def nat_less_iff div_less_iff_less_mult)
  then have "secs div 3600 < 10 ^ 2" "secs div 60 mod 60 < 10 ^ 2" "secs mod 60 < 10 ^ 2"
    by (simp_all add: div_less_iff_less_mult less_trans [OF mod_less_divisor])
  moreover have "length (appendNano ns) \<le> 10"
  proof -
    have "ns < 10 ^ 9"
      using pos_mod_bound [of nanos_per_sec tod] by (simp add: ns_def nanos_per_sec_def nat_less_iff)
    then have "length (pad 9 ns) = 9"
      by (rule pad_length) simp
    then show ?thesis
      using length_dropWhile_le [of "\<lambda>c. c = CHR ''0''" "rev (pad 9 ns)"]
      by (simp add: appendNano_def)
  qed
  moreover have "format_rfc3339 t = pad 4 (nat y) @ ''-'' @ pad 2 m @ ''-'' @ pad 2 d @ ''T'' @
        pad 2 (secs div 3600) @ '':'' @ pad 2 (secs div 60 mod 60) @ '':'' @ pad 2 (secs mod 60) @
        appendNano ns @ ''Z''"
    using civil by (simp add: format_rfc3339_def Let_def day_def tod_def secs_def ns_def)
  ultimately show ?thesis
    using y by (simp add: pad_length)
qed

definition member_cost :: "bytes \<times> bytes \<Rightarrow> nat" where
  "member_cost f = length (fst f) + length (snd f) + 4"

lemma members_length: "length (members_text fs) \<le> sum_list (map member_cost fs)"
  by (induction fs rule: members_text.induct) (simp_all add: member_text_def member_cost_def)

lemma object_length: "length (object_text fs) \<le> sum_list (map member_cost fs) + 2"
  using members_length [of fs] by (simp add: object_text_def)

lemma omit_cost:
  "sum_list (map member_cost (omit_string k s)) \<le> length k + length (escape s) + 6"
  "sum_list (map member_cost (omit_uint k w)) \<le> length k + 24"
  "(\<And>i. p = Some i \<Longrightarrow> int64_range i) \<Longrightarrow> sum_list (map member_cost (omit_int k p)) \<le> length k + 24"
  "omit_time k v = Some fs \<Longrightarrow> sum_list (map member_cost fs) \<le> length k + 36"
proof -
  show "sum_list (map member_cost (omit_string k s)) \<le> length k + length (escape s) + 6"
    using json_quote_length [of s] by (simp add: omit_string_def member_cost_def)
  show "sum_list (map member_cost (omit_uint k w)) \<le> length k + 24"
    using dec_unat_length [of w] by (simp add: omit_uint_def member_cost_def)
  show "sum_list (map member_cost (omit_int k p)) \<le> length k + 24" if "\<And>i. p = Some i \<Longrightarrow> int64_range i"
    using that Itoa_length by (auto simp: omit_int_def member_cost_def split: option.split)
  show "sum_list (map member_cost fs) \<le> length k + 36" if "omit_time k v = Some fs"
    using that
  proof (cases rule: omit_time_SomeD)
    case (2 t)
    then show ?thesis
      using format_length [of t] by (simp add: member_cost_def)
  qed simp
qed

lemma Marshal_length:
  assumes "Marshal e = Some s" "entry_range e"
  shows "length s \<le> length (escape (le_Op e)) + length (escape (le_ID e)) +
    length (escape (le_Payload e)) + length (escape (le_Status e)) + 300"
  using assms(1)
proof (cases rule: Marshal_SomeD)
  case (1 fe fa)
  have range: "int64_range (le_V e)" "\<And>i. le_Priority e = Some i \<Longrightarrow> int64_range i"
    using assms(2) by (auto simp: entry_range_def)
  note costs = omit_cost(1) [of "''id''" "le_ID e"] omit_cost(2) [of "''msg_seq''" "le_MsgSeq e"]
    omit_cost(1) [of "''payload''" "le_Payload e"]
    omit_cost(3) [of "le_Priority e" "''priority''", OF range(2)]
    omit_cost(4) [OF 1(2)] omit_cost(4) [OF 1(3)] omit_cost(1) [of "''status''" "le_Status e"]
  have "member_cost (''v'', Itoa (le_V e)) \<le> 25" "member_cost (''seq'', dec (unat (le_Seq e))) \<le> 27"
    "member_cost (''op'', json_quote (le_Op e)) \<le> length (escape (le_Op e)) + 8"
    "member_cost (''ts'', dq # format_rfc3339 (le_TS e) @ [dq]) \<le> 38"
    using Itoa_length [OF range(1)] dec_unat_length [of "le_Seq e"] json_quote_length [of "le_Op e"]
      format_length [OF 1(1)] by (simp_all add: member_cost_def)
  with costs show ?thesis
    unfolding 1(4) by (intro order_trans [OF object_length]) simp
qed

end
