(* ===== verification/GoStrings.thy ===== *)
theory GoStrings
  imports GoTime
begin

text \<open>
  The parts of Go's \<^verbatim>\<open>strings\<close>, \<^verbatim>\<open>bytes\<close>, \<^verbatim>\<open>unicode\<close> and \<^verbatim>\<open>fmt\<close> packages the program uses: trimming, prefixes,
  joining and case mapping of UTF-8 strings, padding, seconds with two decimals, and what a process
  sees of its surroundings.
\<close>

section \<open>White space\<close>

text \<open>\<^verbatim>\<open>strings.TrimSpace\<close> and \<^verbatim>\<open>bytes.TrimSpace\<close>: ASCII white space and the Unicode white space runes, by their bytes.\<close>

definition ascii_space :: "char \<Rightarrow> bool" where
  "ascii_space c \<longleftrightarrow> 9 \<le> byte c \<and> byte c \<le> 13 \<or> byte c = 0x20"

definition unicode_spaces :: "rune list" where
  "unicode_spaces = [0x85, 0xA0, 0x1680, 0x2000, 0x2001, 0x2002, 0x2003, 0x2004, 0x2005, 0x2006,
     0x2007, 0x2008, 0x2009, 0x200A, 0x2028, 0x2029, 0x202F, 0x205F, 0x3000]"

definition space_width :: "bytes \<Rightarrow> nat" where
  "space_width s =
    (if s = [] then 0
     else if ascii_space (hd s) then 1
     else if 0x80 \<le> byte (hd s) \<and> fst (DecodeRune s) \<in> set unicode_spaces then snd (DecodeRune s)
     else 0)"

function TrimLeft :: "bytes \<Rightarrow> bytes" where
  "TrimLeft s = (if space_width s = 0 \<or> s = [] then s else TrimLeft (drop (space_width s) s))"
  by pat_completeness auto
termination
  by (relation "measure length") auto

declare TrimLeft.simps [simp del]

definition space_suffix :: "bytes \<Rightarrow> nat" where
  "space_suffix s =
    (case filter (\<lambda>n. n \<le> length s \<and> space_width (drop (length s - n) s) = n) [1, 2, 3] of
       [] \<Rightarrow> 0
     | n # _ \<Rightarrow> n)"

function TrimRight :: "bytes \<Rightarrow> bytes" where
  "TrimRight s =
    (if space_suffix s = 0 \<or> s = [] then s else TrimRight (take (length s - space_suffix s) s))"
  by pat_completeness auto
termination
  by (relation "measure length") auto

declare TrimRight.simps [simp del]

definition TrimSpace :: "bytes \<Rightarrow> bytes" where
  "TrimSpace s = TrimRight (TrimLeft s)"

section \<open>Prefixes, joining, case\<close>

definition HasPrefix :: "bytes \<Rightarrow> bytes \<Rightarrow> bool" where
  "HasPrefix s p \<longleftrightarrow> take (length p) s = p"

definition TrimPrefix :: "bytes \<Rightarrow> bytes \<Rightarrow> bytes" where
  "TrimPrefix s p = (if HasPrefix s p then drop (length p) s else s)"

text \<open>\<^verbatim>\<open>strings.TrimRight\<close> with a cut set of one ASCII character.\<close>

definition TrimRight_cut :: "char \<Rightarrow> bytes \<Rightarrow> bytes" where
  "TrimRight_cut c s = rev (dropWhile ((=) c) (rev s))"

fun Join :: "bytes list \<Rightarrow> bytes \<Rightarrow> bytes" where
  "Join [] sep = []"
| "Join [s] sep = s"
| "Join (s # t # ss) sep = s @ sep @ Join (t # ss) sep"

text \<open>
  Case mapping goes rune by rune, with ill-formed bytes replaced; the tables of Unicode beyond ASCII
  are an argument.
\<close>

function map_runes :: "(rune \<Rightarrow> rune) \<Rightarrow> bytes \<Rightarrow> bytes" where
  "map_runes f [] = []"
| "map_runes f (c # s) =
    EncodeRune (f (fst (DecodeRune (c # s)))) @ map_runes f (drop (snd (DecodeRune (c # s))) (c # s))"
  by pat_completeness auto
termination
  by (relation "measure (length \<circ> snd)") (simp, unfold in_measure comp_def snd_conv, rule drop_rune_shorter)

definition ToUpper :: "(rune \<Rightarrow> rune) \<Rightarrow> bytes \<Rightarrow> bytes" where
  "ToUpper tab s = map_runes (\<lambda>r. if r < 0x80 then if 0x61 \<le> r \<and> r \<le> 0x7A then r - 0x20 else r else tab r) s"

definition ToLower :: "(rune \<Rightarrow> rune) \<Rightarrow> bytes \<Rightarrow> bytes" where
  "ToLower tab s = map_runes (\<lambda>r. if r < 0x80 then if 0x41 \<le> r \<and> r \<le> 0x5A then r + 0x20 else r else tab r) s"

section \<open>Formatting\<close>

definition nl :: bytes where "nl = [CHR 0x0A]"

definition pad_left :: "nat \<Rightarrow> bytes \<Rightarrow> bytes" where
  "pad_left w s = replicate (w - length s) (CHR '' '') @ s"

definition pad_right :: "nat \<Rightarrow> bytes \<Rightarrow> bytes" where
  "pad_right w s = s @ replicate (w - length s) (CHR '' '')"

text \<open>
  \<^verbatim>\<open>Duration.Seconds\<close> is the double nearest to the seconds plus the double nearest to the fraction; \<^verbatim>\<open>%.2f\<close>
  rounds the exact value of that double to two decimals, ties to even.  A pair \<open>(n, k)\<close> stands for
  the value \<open>n\<close> divided by the \<open>k\<close>-th power of two.
\<close>

definition round_div :: "nat \<Rightarrow> nat \<Rightarrow> nat" where
  "round_div n d = (if 2 * (n mod d) < d \<or> 2 * (n mod d) = d \<and> even (n div d) then n div d else Suc (n div d))"

fun bitlen :: "nat \<Rightarrow> nat" where
  "bitlen n = (if n = 0 then 0 else Suc (bitlen (n div 2)))"

declare bitlen.simps [simp del]

definition f64_fraction :: "nat \<Rightarrow> nat \<times> nat" where
  "f64_fraction nsec =
    (if nsec = 0 then (0, 0)
     else
       let d = 1000000000; k0 = 53 + bitlen d - bitlen nsec;
           k = (if nsec * 2 ^ k0 \<ge> d * 2 ^ 53 then k0 - 1 else k0)
       in (round_div (nsec * 2 ^ k) d, k))"

definition f64_add :: "nat \<Rightarrow> nat \<times> nat \<Rightarrow> nat \<times> nat" where
  "f64_add sec x =
    (let n = sec * 2 ^ snd x + fst x; b = bitlen n
     in if b \<le> 53 then (n, snd x) else (round_div n (2 ^ (b - 53)), snd x - (b - 53)))"

definition Seconds :: "nat \<Rightarrow> nat \<times> nat" where
  "Seconds d = f64_add (d div 1000000000) (f64_fraction (d mod 1000000000))"

definition seconds2 :: "int \<Rightarrow> bytes" where
  "seconds2 d =
    (let x = Seconds (nat \<bar>d\<bar>); h = round_div (100 * fst x) (2 ^ snd x)
     in (if d < 0 then ''-'' else []) @ dec (h div 100) @ ''.'' @ pad 2 (h mod 100))"

text \<open>\<^verbatim>\<open>Time.Sub\<close> saturates at the bounds of a 64-bit duration.\<close>

definition time_Sub :: "go_time \<Rightarrow> go_time \<Rightarrow> int" where
  "time_Sub t u = max (- (2 ^ 63)) (min (2 ^ 63 - 1) (t - u))"

text \<open>The layout \<^verbatim>\<open>15:04:05.000\<close> for a time that the zone offset has been added to.\<close>

definition clock_text :: "go_time \<Rightarrow> bytes" where
  "clock_text t =
    (let ns = nat (t mod nanos_per_day)
     in pad 2 (ns div 3600000000000) @ '':'' @ pad 2 (ns div 60000000000 mod 60) @ '':'' @
        pad 2 (ns div 1000000000 mod 60) @ ''.'' @ pad 3 (ns div 1000000 mod 1000))"

section \<open>The process\<close>

text \<open>
  What the process sees of its surroundings: the environment variables, with nothing for one that
  is not set; whether standard output is a character device, with nothing when \<^verbatim>\<open>Stat\<close> fails; the
  local time zone as an offset in seconds; and the Unicode case tables.
\<close>

record process_env =
  pe_Getenv :: "string \<Rightarrow> string"
  pe_stdout :: "bool option"
  pe_zone :: "go_time \<Rightarrow> int"
  pe_lower :: "rune \<Rightarrow> rune"
  pe_upper :: "rune \<Rightarrow> rune"

end
