(* ===== verification/Wal.thy ===== *)
theory Wal
  imports LogEntry "HOL-Library.AList" "HOL-Library.Char_ord" "HOL-Library.List_Lexorder" GoStrings
begin

text \<open>
  The write-ahead log of \<^verbatim>\<open>src/pkg/storage/wal.go\<close>: appending a record, recovery by replay, the
  inspection tail, and closing.

  The state is the open handle together with the bytes of the file behind it.  What the operating
  system may do is an input of each operation: an append may fail after some of its bytes have
  reached the file or when it is synced, a read may fail part of the way.  A failed \<^verbatim>\<open>Seek\<close>,
  \<^verbatim>\<open>Stat\<close>, \<^verbatim>\<open>ReadFull\<close> or \<^verbatim>\<open>Close\<close> is a flag.  Errors are values; the contexts that
  \<^verbatim>\<open>fmt.Errorf\<close> wraps around a cause do not change which cause \<^verbatim>\<open>errors.Is\<close> finds and are dropped.
\<close>

section \<open>State, errors and environment\<close>

definition recordVersion :: int where "recordVersion = 1"
definition maxRecordBytes :: nat where "maxRecordBytes = 16 * 2 ^ 20"
definition tailWindowBytes :: nat where "tailWindowBytes = 4 * 2 ^ 20"

definition OP_ENQUEUE :: string where "OP_ENQUEUE = ''ENQUEUE''"
definition OP_DEQUEUE :: string where "OP_DEQUEUE = ''DEQUEUE''"

datatype wal_error =
    ErrClosed
  | ErrEmptyID
  | OpenFailed
  | MarshalFailed
  | WriteFailed
  | SyncFailed
  | SeekFailed
  | StatFailed
  | ReadFailed
  | TokenTooLong
  | CorruptRecord nat json_error
  | CloseFailed

record WAL =
  w_open :: bool
  w_path :: string
  w_seq :: uint64
  w_disk :: bytes

text \<open>
  The clock reading of an append, how many bytes a failing write still transfers, and whether
  the sync succeeds.
\<close>

record append_env =
  ae_now :: go_time
  ae_write_error :: "nat option"
  ae_sync_ok :: bool

record read_env =
  re_seek_ok :: bool
  re_read_error :: "nat option"

definition newline :: char where "newline = CHR 0x0A"

section \<open>Opening and appending\<close>

definition NewWAL :: "string \<Rightarrow> bytes option \<Rightarrow> wal_error + WAL" where
  "NewWAL path contents =
    (case contents of
       None \<Rightarrow> Inl OpenFailed
     | Some d \<Rightarrow> Inr \<lparr>w_open = True, w_path = path, w_seq = 0, w_disk = d\<rparr>)"

definition appendLocked :: "append_env \<Rightarrow> logEntry \<Rightarrow> WAL \<Rightarrow> WAL \<times> wal_error option" where
  "appendLocked env rec w =
    (if \<not> w_open w then (w, Some ErrClosed)
     else
       let w1 = w\<lparr>w_seq := w_seq w + 1\<rparr>;
           rec1 = rec\<lparr>le_Seq := w_seq w1, le_V := recordVersion, le_TS := ae_now env\<rparr>
       in case Marshal rec1 of
            None \<Rightarrow> (w1, Some MarshalFailed)
          | Some b \<Rightarrow>
              let line = b @ [newline] in
              (case ae_write_error env of
                 Some n \<Rightarrow> (w1\<lparr>w_disk := w_disk w1 @ take n line\<rparr>, Some WriteFailed)
               | None \<Rightarrow>
                   let w2 = w1\<lparr>w_disk := w_disk w1 @ line\<rparr>
                   in if ae_sync_ok env then (w2, None) else (w2, Some SyncFailed)))"

definition enqueue_entry :: "Message \<Rightarrow> logEntry" where
  "enqueue_entry msg =
    (let status = (if m_Status msg = [] then StatusPending else m_Status msg)
     in zero_entry\<lparr>le_Op := OP_ENQUEUE, le_ID := m_ID msg, le_MsgSeq := m_Seq msg,
          le_Payload := m_Payload msg, le_Priority := Some (m_Priority msg),
          le_EnqueuedAt := Some (m_EnqueuedAt msg), le_AvailableAt := Some (m_AvailableAt msg),
          le_Status := status\<rparr>)"

definition WriteEnqueue :: "append_env \<Rightarrow> Message \<Rightarrow> WAL \<Rightarrow> WAL \<times> wal_error option" where
  "WriteEnqueue env msg w =
    (if m_ID msg = [] then (w, Some ErrEmptyID) else appendLocked env (enqueue_entry msg) w)"

definition dequeue_entry :: "string \<Rightarrow> logEntry" where
  "dequeue_entry msgID = zero_entry\<lparr>le_Op := OP_DEQUEUE, le_ID := msgID\<rparr>"

definition WriteDequeue :: "append_env \<Rightarrow> string \<Rightarrow> WAL \<Rightarrow> WAL \<times> wal_error option" where
  "WriteDequeue env msgID w =
    (if msgID = [] then (w, Some ErrEmptyID) else appendLocked env (dequeue_entry msgID) w)"

section \<open>Recovery\<close>

definition derefInt :: "int option \<Rightarrow> int" where
  "derefInt v = (case v of None \<Rightarrow> 0 | Some i \<Rightarrow> i)"

definition derefTime :: "go_time option \<Rightarrow> go_time" where
  "derefTime v = (case v of None \<Rightarrow> 0 | Some t \<Rightarrow> t)"

text \<open>The fold state of \<^verbatim>\<open>Recover\<close>: the live messages by ID and the largest record number seen.\<close>

record fold_state =
  fs_live :: "(string \<times> Message) list"
  fs_maxSeq :: uint64

definition fold_init :: fold_state where
  "fold_init = \<lparr>fs_live = [], fs_maxSeq = 0\<rparr>"

definition recovered_message :: "logEntry \<Rightarrow> Message" where
  "recovered_message rec =
    \<lparr>m_ID = le_ID rec,
     m_Seq = (if le_MsgSeq rec = 0 then le_Seq rec else le_MsgSeq rec),
     m_Payload = le_Payload rec,
     m_Priority = derefInt (le_Priority rec),
     m_EnqueuedAt = derefTime (le_EnqueuedAt rec),
     m_AvailableAt = derefTime (le_AvailableAt rec),
     m_Status = (if le_Status rec = [] then StatusPending else le_Status rec)\<rparr>"

definition applyRecord :: "logEntry \<Rightarrow> fold_state \<Rightarrow> fold_state" where
  "applyRecord rec st0 =
    (let st = (if le_Seq rec > fs_maxSeq st0 then st0\<lparr>fs_maxSeq := le_Seq rec\<rparr> else st0)
     in if le_Op rec = OP_ENQUEUE then
          (if le_ID rec = [] then st
           else if map_of (fs_live st) (le_ID rec) \<noteq> None then st
           else st\<lparr>fs_live := AList.update (le_ID rec) (recovered_message rec) (fs_live st)\<rparr>)
        else if le_Op rec = OP_DEQUEUE then
          (if le_ID rec = [] then st
           else st\<lparr>fs_live := AList.delete (le_ID rec) (fs_live st)\<rparr>)
        else st)"

definition applyLine :: "bytes \<Rightarrow> fold_state \<Rightarrow> json_error + fold_state" where
  "applyLine line st =
    (if line = [] then Inr st
     else case Unmarshal line of
            Inl err \<Rightarrow> Inl err
          | Inr rec \<Rightarrow> Inr (applyRecord rec st))"

text \<open>
  \<^verbatim>\<open>bufio.Scanner\<close> with \<^verbatim>\<open>ScanLines\<close>: the pieces between line breaks, the last one only when it is
  not empty, each without one trailing carriage return.  A piece that fills the buffer of
  \<^verbatim>\<open>maxRecordBytes\<close> before its line break arrives stops the scan with an error.
\<close>

function split_lines :: "bytes \<Rightarrow> bytes list" where
  "split_lines [] = []"
| "split_lines (c # s) =
    takeWhile (\<lambda>d. d \<noteq> newline) (c # s) # split_lines (tl (dropWhile (\<lambda>d. d \<noteq> newline) (c # s)))"
  by pat_completeness auto
termination
proof (relation "measure length")
  fix c s
  have "length (dropWhile (\<lambda>d. d \<noteq> newline) (c # s)) \<le> length (c # s)"
    by (rule length_dropWhile_le)
  then have "length (tl (dropWhile (\<lambda>d. d \<noteq> newline) (c # s))) < length (c # s)"
    by (simp only: length_tl) simp
  then show "(tl (dropWhile (\<lambda>d. d \<noteq> newline) (c # s)), c # s) \<in> measure length"
    by simp
qed simp

definition dropCR :: "bytes \<Rightarrow> bytes" where
  "dropCR l = (if l \<noteq> [] \<and> last l = CHR 0x0D then butlast l else l)"

definition fits :: "bytes \<Rightarrow> bool" where
  "fits l \<longleftrightarrow> length l < maxRecordBytes"

definition scan_tokens :: "bytes \<Rightarrow> bytes list" where
  "scan_tokens s = map dropCR (takeWhile fits (split_lines s))"

definition scan_too_long :: "bytes \<Rightarrow> bool" where
  "scan_too_long s \<longleftrightarrow> \<not> list_all fits (split_lines s)"

text \<open>The loop over the lines with its one line of lookahead.\<close>

record pending =
  pd_text :: bytes
  pd_line :: nat

fun scan_loop ::
  "nat \<Rightarrow> pending option \<Rightarrow> fold_state \<Rightarrow> bytes list \<Rightarrow> wal_error + pending option \<times> fold_state" where
  "scan_loop lineNo pend st [] = Inr (pend, st)"
| "scan_loop lineNo pend st (l # ls) =
    (let lineNo' = lineNo + 1; pend' = Some \<lparr>pd_text = l, pd_line = lineNo'\<rparr>
     in case pend of
          None \<Rightarrow> scan_loop lineNo' pend' st ls
        | Some p \<Rightarrow>
            (case applyLine (pd_text p) st of
               Inl err \<Rightarrow> Inl (CorruptRecord (pd_line p) err)
             | Inr st' \<Rightarrow> scan_loop lineNo' pend' st' ls))"

definition recover_cmp :: "Message \<Rightarrow> Message \<Rightarrow> int" where
  "recover_cmp a b =
    (if m_Seq a \<noteq> m_Seq b then (if m_Seq a < m_Seq b then - 1 else 1)
     else if m_ID a < m_ID b then - 1
     else if m_ID b < m_ID a then 1
     else 0)"

definition Recover :: "read_env \<Rightarrow> WAL \<Rightarrow> WAL \<times> (wal_error + Message list)" where
  "Recover env w =
    (if \<not> w_open w then (w, Inl ErrClosed)
     else if \<not> re_seek_ok env then (w, Inl SeekFailed)
     else
       let input = (case re_read_error env of None \<Rightarrow> w_disk w | Some n \<Rightarrow> take n (w_disk w))
       in case scan_loop 0 None fold_init (scan_tokens input) of
            Inl err \<Rightarrow> (w, Inl err)
          | Inr (pend, st) \<Rightarrow>
              if scan_too_long input then (w, Inl TokenTooLong)
              else if re_read_error env \<noteq> None then (w, Inl ReadFailed)
              else
                let st' = (case pend of
                             None \<Rightarrow> st
                           | Some p \<Rightarrow> (case applyLine (pd_text p) st of Inl _ \<Rightarrow> st | Inr st' \<Rightarrow> st'))
                in (w\<lparr>w_seq := fs_maxSeq st'\<rparr>,
                    Inr (SortFunc recover_cmp (map snd (fs_live st')))))"

section \<open>Tail and Close\<close>

text \<open>\<^verbatim>\<open>bytes.Split\<close> by a line break: one piece more than there are breaks.\<close>

fun bytes_Split :: "bytes \<Rightarrow> bytes list" where
  "bytes_Split [] = [[]]"
| "bytes_Split (c # s) =
    (if c = newline then [] # bytes_Split s
     else case bytes_Split s of [] \<Rightarrow> [[c]] | l # ls \<Rightarrow> (c # l) # ls)"

record tail_env =
  te_stat_ok :: bool
  te_seek_ok :: bool
  te_read_ok :: bool

definition tail_record :: "bytes \<Rightarrow> bool" where
  "tail_record line \<longleftrightarrow> line \<noteq> [] \<and> json_Valid line"

definition Tail :: "tail_env \<Rightarrow> int \<Rightarrow> WAL \<Rightarrow> wal_error + WalTail" where
  "Tail env maxRecords w =
    (if \<not> w_open w then Inl ErrClosed
     else if \<not> te_stat_ok env then Inl StatFailed
     else
       let size = length (w_disk w);
           start = (if size > tailWindowBytes then size - tailWindowBytes else 0)
       in if \<not> te_seek_ok env then Inl SeekFailed
          else if \<not> te_read_ok env then Inl ReadFailed
          else
            let lines0 = bytes_Split (drop start (w_disk w));
                lines = (if start > 0 \<and> lines0 \<noteq> [] then tl lines0 else lines0);
                records = filter tail_record (map TrimSpace lines);
                capped = (maxRecords > 0 \<and> int (length records) > maxRecords);
                shown = (if capped then drop (length records - nat maxRecords) records else records)
            in Inr \<lparr>wt_Path = w_path w, wt_SizeBytes = int size,
                    wt_Truncated = (start > 0 \<or> capped), wt_Records = shown\<rparr>)"

definition Close :: "bool \<Rightarrow> WAL \<Rightarrow> WAL \<times> wal_error option" where
  "Close close_ok w =
    (if \<not> w_open w then (w, None)
     else (w\<lparr>w_open := False\<rparr>, if close_ok then None else Some CloseFailed))"

section \<open>Logs made of whole records\<close>

definition written :: "logEntry \<Rightarrow> bytes \<Rightarrow> bool" where
  "written e l \<longleftrightarrow> Marshal e = Some l \<and> entry_range e \<and> fits l"

definition log_text :: "bytes list \<Rightarrow> bytes" where
  "log_text ls = concat (map (\<lambda>l. l @ [newline]) ls)"

text \<open>The file holds exactly the given records, each on a line of its own.\<close>

definition log_of :: "logEntry list \<Rightarrow> bytes \<Rightarrow> bool" where
  "log_of es d \<longleftrightarrow> (\<exists>ls. list_all2 written es ls \<and> d = log_text ls)"

lemma log_text_simps [simp]:
  "log_text [] = []" "log_text (l # ls) = l @ newline # log_text ls"
  "log_text (ls @ ms) = log_text ls @ log_text ms"
  by (simp_all add: log_text_def)

lemma log_of_Nil [simp]: "log_of [] []"
  by (simp add: log_of_def)

lemma log_of_append: "log_of es d \<Longrightarrow> log_of fs c \<Longrightarrow> log_of (es @ fs) (d @ c)"
  unfolding log_of_def using list_all2_appendI by fastforce

lemma log_of_one: "written e l \<Longrightarrow> log_of [e] (l @ [newline])"
  unfolding log_of_def by (intro exI [of _ "[l]"]) simp

lemma written_no_newline: "written e l \<Longrightarrow> newline \<notin> set l"
  unfolding written_def newline_def
  using Marshal_printable printable_no_newline by blast

lemma written_dropCR: "written e l \<Longrightarrow> dropCR l = l \<and> l \<noteq> []"
  unfolding written_def by (auto simp: dropCR_def elim: Marshal_braces)

lemma applyLine_written:
  "written e l \<Longrightarrow> applyLine l st = Inr (applyRecord (normal_entry e) st)"
  using written_dropCR [of e l] by (auto simp: written_def applyLine_def Unmarshal_Marshal)

section \<open>Lines\<close>

lemma split_lines_line:
  assumes "newline \<notin> set l"
  shows "split_lines (l @ newline # s) = l # split_lines s"
proof -
  obtain c t where ct: "l @ newline # s = c # t"
    by (cases l) auto
  have "takeWhile (\<lambda>d. d \<noteq> newline) (l @ newline # s) = l"
    "dropWhile (\<lambda>d. d \<noteq> newline) (l @ newline # s) = newline # s"
    using assms by (induction l) auto
  then show ?thesis
    unfolding ct split_lines.simps by simp
qed

lemma split_lines_last:
  assumes "newline \<notin> set l" "l \<noteq> []"
  shows "split_lines l = [l]"
proof -
  have "takeWhile (\<lambda>d. d \<noteq> newline) l = l" "dropWhile (\<lambda>d. d \<noteq> newline) l = []"
    using assms(1) by (induction l) auto
  then show ?thesis
    using assms(2) by (cases l) auto
qed

lemma split_lines_log:
  "(\<And>l. l \<in> set ls \<Longrightarrow> newline \<notin> set l) \<Longrightarrow> split_lines (log_text ls @ s) = ls @ split_lines s"
  by (induction ls) (auto simp: split_lines_line)

lemma written_lines:
  assumes "list_all2 written es ls"
  shows "\<And>l. l \<in> set ls \<Longrightarrow> newline \<notin> set l" and "list_all fits ls" and "map dropCR ls = ls"
proof -
  have *: "\<exists>e. written e l" if "l \<in> set ls" for l
    using assms that by (auto simp: list_all2_conv_all_nth in_set_conv_nth)
  then show "newline \<notin> set l" if "l \<in> set ls" for l
    using that written_no_newline by blast
  show "list_all fits ls"
    using * by (auto simp: list_all_iff written_def)
  show "map dropCR ls = ls"
    using * written_dropCR by (intro map_idI) blast
qed

lemma scan_log:
  assumes "list_all2 written es ls"
  shows "scan_tokens (log_text ls @ s) = ls @ scan_tokens s"
    and "scan_too_long (log_text ls @ s) = scan_too_long s"
proof -
  note ls = written_lines [OF assms]
  show "scan_tokens (log_text ls @ s) = ls @ scan_tokens s"
    using ls by (simp add: scan_tokens_def split_lines_log takeWhile_append2 list_all_iff del: map_eq_conv)
  show "scan_too_long (log_text ls @ s) = scan_too_long s"
    using ls by (simp add: scan_too_long_def split_lines_log)
qed

section \<open>The recovery loop\<close>

definition settle :: "pending option \<Rightarrow> fold_state \<Rightarrow> json_error + fold_state" where
  "settle pend st = (case pend of None \<Rightarrow> Inr st | Some p \<Rightarrow> applyLine (pd_text p) st)"

lemma scan_loop_step:
  "settle pend st = Inr st' \<Longrightarrow>
   scan_loop n pend st (l # ls) = scan_loop (n + 1) (Some \<lparr>pd_text = l, pd_line = n + 1\<rparr>) st' ls"
  by (auto simp: settle_def split: option.splits)

lemma scan_loop_error:
  "settle (Some p) st = Inl err \<Longrightarrow> scan_loop n (Some p) st (l # ls) = Inl (CorruptRecord (pd_line p) err)"
  by (simp add: settle_def)

definition replay :: "logEntry list \<Rightarrow> fold_state \<Rightarrow> fold_state" where
  "replay es st = fold (\<lambda>e. applyRecord (normal_entry e)) es st"

lemma replay_simps [simp]:
  "replay [] st = st" "replay (e # es) st = replay es (applyRecord (normal_entry e) st)"
  "replay (es @ fs) st = replay fs (replay es st)"
  by (simp_all add: replay_def)

text \<open>Whole records before the rest of the file are all folded once the rest is read.\<close>

lemma scan_loop_written:
  assumes "list_all2 written es ls" "settle pend st = Inr st'"
  shows "\<exists>pend' st''. scan_loop n pend st (ls @ rest) = scan_loop (n + length ls) pend' st'' rest \<and>
    settle pend' st'' = Inr (replay es st')"
  using assms
proof (induction arbitrary: n pend st st' rule: list_all2_induct)
  case Nil
  then show ?case by auto
next
  case (Cons e es l ls)
  have "settle (Some \<lparr>pd_text = l, pd_line = n + 1\<rparr>) st' = Inr (applyRecord (normal_entry e) st')"
    using Cons(1) by (simp add: settle_def applyLine_written)
  from Cons(3) [OF this, of "n + 1"] show ?case
    using scan_loop_step [OF Cons(4), of n l "ls @ rest"] by auto
qed

lemma scan_loop_log:
  assumes "list_all2 written es ls"
  obtains pend st where
    "scan_loop 0 None fold_init (ls @ rest) = scan_loop (length ls) pend st rest"
    "settle pend st = Inr (replay es fold_init)"
  using scan_loop_written [OF assms, of None fold_init fold_init 0 rest] by (auto simp: settle_def)

definition read_ok :: "read_env \<Rightarrow> bool" where
  "read_ok env \<longleftrightarrow> re_seek_ok env \<and> re_read_error env = None"

definition recovered :: "fold_state \<Rightarrow> WAL \<Rightarrow> WAL \<times> (wal_error + Message list)" where
  "recovered st w = (w\<lparr>w_seq := fs_maxSeq st\<rparr>, Inr (SortFunc recover_cmp (map snd (fs_live st))))"

lemma Recover_log:
  assumes "log_of es (w_disk w)" "w_open w" "read_ok env"
  shows "Recover env w = recovered (replay es fold_init) w"
proof -
  obtain ls where ls: "list_all2 written es ls" "w_disk w = log_text ls"
    using assms(1) by (auto simp: log_of_def)
  have tokens: "scan_tokens (w_disk w) = ls @ []" "\<not> scan_too_long (w_disk w)"
    using scan_log [OF ls(1), of "[]"] by (simp_all add: ls(2) scan_tokens_def scan_too_long_def)
  obtain pend st where "scan_loop 0 None fold_init (ls @ []) = scan_loop (length ls) pend st []"
    and fin: "settle pend st = Inr (replay es fold_init)"
    using ls(1) by (rule scan_loop_log)
  then have loop: "scan_loop 0 None fold_init ls = Inr (pend, st)"
    by simp
  have "(case pend of None \<Rightarrow> st | Some p \<Rightarrow> (case applyLine (pd_text p) st of Inl _ \<Rightarrow> st | Inr st' \<Rightarrow> st'))
      = replay es fold_init"
    using fin by (auto simp: settle_def split: option.splits)
  with assms(2,3) loop tokens show ?thesis
    by (simp add: Recover_def read_ok_def recovered_def Let_def)
qed

text \<open>A last line that does not parse is dropped without a trace.\<close>

lemma Recover_bad_tail:
  assumes "log_of es d" "w_disk w = d @ p" "w_open w" "read_ok env"
    and "newline \<notin> set p" "fits p" "applyLine (dropCR p) (replay es fold_init) = Inl err"
  shows "Recover env w = recovered (replay es fold_init) w"
proof -
  obtain ls where ls: "list_all2 written es ls" "d = log_text ls"
    using assms(1) by (auto simp: log_of_def)
  have "p \<noteq> []"
    using assms(7) by (auto simp: applyLine_def dropCR_def)
  then have tokens: "scan_tokens (w_disk w) = ls @ [dropCR p]" "\<not> scan_too_long (w_disk w)"
    using scan_log [OF ls(1), of p] assms(5,6)
    by (simp_all add: assms(2) ls(2) scan_tokens_def scan_too_long_def split_lines_last)
  obtain pend st where loop: "scan_loop 0 None fold_init (ls @ [dropCR p]) = scan_loop (length ls) pend st [dropCR p]"
    and fin: "settle pend st = Inr (replay es fold_init)"
    using ls(1) by (rule scan_loop_log)
  show ?thesis
    using assms(3,4,7) loop [unfolded scan_loop_step [OF fin]] tokens
    by (simp add: Recover_def read_ok_def recovered_def Let_def)
qed

lemma Recover_torn:
  assumes "log_of es d" "written e l" "n < length l" "w_disk w = d @ take n l" "w_open w" "read_ok env"
  shows "Recover env w = recovered (replay es fold_init) w"
proof (cases "n = 0")
  case True
  then show ?thesis using assms Recover_log by simp
next
  case False
  have nl: "newline \<notin> set (take n l)" "fits (take n l)"
    using written_no_newline [OF assms(2)] assms(2) by (auto simp: written_def fits_def dest: in_set_takeD)
  have "printable l"
    using assms(2) by (auto simp: written_def intro: Marshal_printable)
  then have "CHR 0x0D \<notin> set (take n l)"
    by (auto simp: printable_def list_all_iff byte_def dest!: in_set_takeD)
  then have "dropCR (take n l) = take n l"
    unfolding dropCR_def using last_in_set by metis
  moreover have "take n l \<noteq> []"
    using False assms(3) by auto
  ultimately have "applyLine (dropCR (take n l)) st = Inl JSONSyntaxError" for st
    using Unmarshal_torn [of e l n] assms(2,3) by (simp add: applyLine_def written_def)
  then show ?thesis
    by (rule Recover_bad_tail [OF assms(1,4,5,6) nl])
qed

text \<open>A line that does not parse and is not the last one stops recovery, with its number.\<close>

lemma Recover_corrupt:
  assumes "log_of es d" "w_disk w = d @ p @ newline # c # rest" "w_open w" "read_ok env"
    and "newline \<notin> set p" "fits p" "Unmarshal (dropCR p) = Inl err" "dropCR p \<noteq> []"
    and "fits (takeWhile (\<lambda>x. x \<noteq> newline) (c # rest))"
  shows "Recover env w = (w, Inl (CorruptRecord (length es + 1) err))"
proof -
  obtain ls where ls: "list_all2 written es ls" "d = log_text ls"
    using assms(1) by (auto simp: log_of_def)
  let ?toks = "scan_tokens (p @ newline # c # rest)"
  obtain x xs where toks: "?toks = dropCR p # x # xs"
    using assms(5,6,9) by (simp add: scan_tokens_def split_lines_line)
  have tokens: "scan_tokens (w_disk w) = ls @ dropCR p # x # xs"
    using scan_log(1) [OF ls(1), of "p @ newline # c # rest"] by (simp only: assms(2) ls(2) toks)
  obtain pend st where loop: "scan_loop 0 None fold_init (ls @ dropCR p # x # xs)
      = scan_loop (length ls) pend st (dropCR p # x # xs)"
    and fin: "settle pend st = Inr (replay es fold_init)"
    using ls(1) by (rule scan_loop_log)
  have "applyLine (dropCR p) (replay es fold_init) = Inl err"
    using assms(7,8) by (simp add: applyLine_def)
  then have "scan_loop (length ls) pend st (dropCR p # x # xs) = Inl (CorruptRecord (length ls + 1) err)"
    unfolding scan_loop_step [OF fin] by (subst scan_loop_error) (simp_all add: settle_def)
  then show ?thesis
    using assms(3,4) tokens loop list_all2_lengthD [OF ls(1)]
    by (simp add: Recover_def read_ok_def)
qed

end
