(* ===== verification/Wal_Log.thy ===== *)
theory Wal_Log
  imports Wal "HOL-Library.Sublist"
begin

text \<open>
  What a log means: the live messages as a fold over maps and the order recovery returns them in,
  how an append changes the log and what a failed one leaves, what the inspection tail shows of it, and what becomes of a
  record written behind a torn one.
\<close>

section \<open>The live set as a fold over maps\<close>

definition apply_live :: "logEntry \<Rightarrow> (string \<rightharpoonup> Message) \<Rightarrow> (string \<rightharpoonup> Message)" where
  "apply_live e c =
    (if le_ID e = [] then c
     else if le_Op e = OP_ENQUEUE then
       (if c (le_ID e) = None then c(le_ID e \<mapsto> recovered_message e) else c)
     else if le_Op e = OP_DEQUEUE then c(le_ID e := None)
     else c)"

definition live :: "logEntry list \<Rightarrow> (string \<rightharpoonup> Message)" where
  "live es = fold (\<lambda>e. apply_live (normal_entry e)) es Map.empty"

definition max_seq :: "logEntry list \<Rightarrow> uint64" where
  "max_seq es = fold (\<lambda>e m. max m (le_Seq e)) es 0"

lemma live_simps [simp]:
  "live [] = Map.empty" "live (es @ [e]) = apply_live (normal_entry e) (live es)"
  by (simp_all add: live_def)

lemma max_seq_simps [simp]:
  "max_seq [] = 0" "max_seq (es @ [e]) = max (max_seq es) (le_Seq e)"
  by (simp_all add: max_seq_def)

definition fold_ok :: "fold_state \<Rightarrow> bool" where
  "fold_ok st \<longleftrightarrow> distinct (map fst (fs_live st)) \<and>
     (\<forall>k m. map_of (fs_live st) k = Some m \<longrightarrow> m_ID m = k \<and> k \<noteq> [])"

lemma applyRecord_live: "map_of (fs_live (applyRecord e st)) = apply_live e (map_of (fs_live st))"
  by (auto simp: applyRecord_def apply_live_def Let_def update_conv' delete_conv' OP_ENQUEUE_def OP_DEQUEUE_def)

lemma applyRecord_seq: "fs_maxSeq (applyRecord e st) = max (fs_maxSeq st) (le_Seq e)"
  by (auto simp: applyRecord_def Let_def max_def)

lemma applyRecord_ok:
  assumes "fold_ok st"
  shows "fold_ok (applyRecord e st)"
proof -
  have "distinct (map fst (fs_live (applyRecord e st)))"
    using assms by (auto simp: fold_ok_def applyRecord_def Let_def distinct_update distinct_delete)
  moreover have "m_ID m = k \<and> k \<noteq> []" if "apply_live e (map_of (fs_live st)) k = Some m" for k m
    using that assms
    by (auto simp: fold_ok_def apply_live_def recovered_message_def split: if_splits)
  ultimately show ?thesis
    by (simp add: fold_ok_def applyRecord_live)
qed

lemma replay_ok:
  "fold_ok (replay es fold_init)" "map_of (fs_live (replay es fold_init)) = live es"
  "fs_maxSeq (replay es fold_init) = max_seq es"
proof (induction es rule: rev_induct)
  case Nil
  show "fold_ok (replay [] fold_init)" "map_of (fs_live (replay [] fold_init)) = live []"
    "fs_maxSeq (replay [] fold_init) = max_seq []"
    by (simp_all add: fold_ok_def fold_init_def)
next
  case (snoc e es)
  then show "fold_ok (replay (es @ [e]) fold_init)" "map_of (fs_live (replay (es @ [e]) fold_init)) = live (es @ [e])"
    "fs_maxSeq (replay (es @ [e]) fold_init) = max_seq (es @ [e])"
    by (simp_all add: applyRecord_ok applyRecord_live applyRecord_seq normal_entry_def)
qed

lemma live_key: "live es k = Some m \<Longrightarrow> m_ID m = k \<and> k \<noteq> []"
  using replay_ok(1,2) [of es] by (simp add: fold_ok_def)

section \<open>The order of recovered messages\<close>

definition recover_lt :: "Message \<Rightarrow> Message \<Rightarrow> bool" where
  "recover_lt = lex_lt m_Seq (\<lambda>a b. m_ID a < m_ID b)"

lemma recover_lt_weak: "weak_order recover_lt"
  unfolding recover_lt_def by (rule weak_order_lex [OF weak_order_key])

interpretation rc: weak_order recover_lt
  by (rule recover_lt_weak)

lemma recover_cmp_lt: "recover_cmp a b < 0 \<longleftrightarrow> recover_lt a b"
  by (auto simp: recover_cmp_def recover_lt_def lex_lt_def)

lemma recover_total: "m_ID a \<noteq> m_ID b \<Longrightarrow> recover_lt a b \<or> recover_lt b a"
  by (auto simp: recover_lt_def lex_lt_def)

lemma recover_strict:
  "sorted_wrt (\<lambda>a b. \<not> recover_lt b a) xs \<Longrightarrow> distinct (map m_ID xs) \<Longrightarrow> sorted_wrt recover_lt xs"
  by (induction xs) (auto dest: recover_total)

text \<open>
  What recovery returns: exactly the live messages, once each, in strictly ascending order of
  sequence number and ID.  No second list meets this description.
\<close>

definition recovery_of :: "(string \<rightharpoonup> Message) \<Rightarrow> Message list \<Rightarrow> bool" where
  "recovery_of c out \<longleftrightarrow> set out = ran c \<and> sorted_wrt recover_lt out"

lemma recovery_of_replay:
  "recovery_of (live es) (SortFunc recover_cmp (map snd (fs_live (replay es fold_init))))"
proof -
  define al where "al = fs_live (replay es fold_init)"
  note ok = replay_ok(1,2) [of es, folded al_def]
  have dist: "distinct (map fst al)" and key: "\<And>k m. map_of al k = Some m \<Longrightarrow> m_ID m = k"
    using ok by (auto simp: fold_ok_def al_def)
  have key': "m_ID m = k" if "(k, m) \<in> set al" for k m
    using that dist key by simp
  then have eq: "map m_ID (map snd al) = map fst al"
    by auto
  have ids: "distinct (map m_ID (map snd al))"
    unfolding eq by (rule dist)
  let ?out = "SortFunc recover_cmp (map snd al)"
  have "sorted_wrt (\<lambda>a b. \<not> recover_lt b a) ?out"
    by (rule rc.SortFunc_sorted) (rule recover_cmp_lt)
  moreover have "distinct (map m_ID ?out)"
    using ids by (metis mset_SortFunc mset_eq_imp_distinct_iff mset_map)
  ultimately have "sorted_wrt recover_lt ?out"
    by (rule recover_strict)
  moreover have "set ?out = ran (live es)"
    using dist ok(2) by (metis al_def list.set_map ran_distinct set_SortFunc)
  ultimately show ?thesis
    by (simp add: recovery_of_def al_def)
qed

lemma recovery_of_distinct:
  assumes "recovery_of c out"
  shows "distinct out"
  using assms unfolding recovery_of_def
  by (metis distinct_conv_nth linorder_neqE_nat rc.lt_irrefl sorted_wrt_nth_less)

lemma recovery_of_unique:
  assumes "recovery_of c a" "recovery_of c b"
  shows "a = b"
proof (rule rc.sorted_unique)
  have "sorted_wrt (\<lambda>x y. \<not> recover_lt y x) xs" if "sorted_wrt recover_lt xs" for xs
    using that by (rule sorted_wrt_mono_rel [rotated]) (rule rc.lt_asym)
  then show "sorted_wrt (\<lambda>x y. \<not> recover_lt y x) a" "sorted_wrt (\<lambda>x y. \<not> recover_lt y x) b"
    using assms by (simp_all add: recovery_of_def)
  show "mset a = mset b"
    using assms recovery_of_distinct set_eq_iff_mset_eq_distinct by (metis recovery_of_def)
  show "recover_lt x y \<or> recover_lt y x" if "x \<in> set a" "y \<in> set a" "x \<noteq> y" for x y
  proof -
    obtain i j where "i < length a" "j < length a" "x = a ! i" "y = a ! j" "i \<noteq> j"
      using \<open>x \<in> set a\<close> \<open>y \<in> set a\<close> \<open>x \<noteq> y\<close> by (metis in_set_conv_nth)
    then show ?thesis
      using assms(1) unfolding recovery_of_def by (metis linorder_neqE_nat sorted_wrt_nth_less)
  qed
qed

section \<open>Appending\<close>

definition stamped :: "append_env \<Rightarrow> logEntry \<Rightarrow> WAL \<Rightarrow> logEntry" where
  "stamped env rec w = rec\<lparr>le_Seq := w_seq w + 1, le_V := recordVersion, le_TS := ae_now env\<rparr>"

lemma appendLocked_ok:
  assumes "appendLocked env rec w = (w', None)"
  obtains b where "Marshal (stamped env rec w) = Some b" "w_open w"
    "w' = w\<lparr>w_seq := w_seq w + 1, w_disk := w_disk w @ b @ [newline]\<rparr>"
  using assms
  by (auto simp: appendLocked_def stamped_def Let_def split: if_splits option.splits)

lemma appendLocked_outcome:
  assumes "appendLocked env rec w = (w', err)"
  shows "w_open w' = w_open w" "w_path w' = w_path w"
    "w_seq w' = (if w_open w then w_seq w + 1 else w_seq w)"
    "\<exists>t. w_disk w' = w_disk w @ t"
    "ae_write_error env = Some 0 \<Longrightarrow> w_disk w' = w_disk w"
    "err = Some MarshalFailed \<Longrightarrow> w_disk w' = w_disk w"
    "err = Some ErrClosed \<longleftrightarrow> \<not> w_open w"
  using assms
  by (auto simp: appendLocked_def Let_def split: if_splits option.splits)

lemma appendLocked_succeeds:
  assumes "w_open w" "Marshal (stamped env rec w) = Some b" "ae_write_error env = None" "ae_sync_ok env"
  shows "appendLocked env rec w = (w\<lparr>w_seq := w_seq w + 1, w_disk := w_disk w @ b @ [newline]\<rparr>, None)"
  using assms by (simp add: appendLocked_def stamped_def Let_def)

text \<open>Room for a record: with this bound its line never overruns the scanner.\<close>

definition room :: "logEntry \<Rightarrow> bool" where
  "room e \<longleftrightarrow> entry_range e \<and>
    length (escape (le_Op e)) + length (escape (le_ID e)) + length (escape (le_Payload e)) +
      length (escape (le_Status e)) + 300 < maxRecordBytes"

lemma room_stamped: "room rec \<Longrightarrow> room (stamped env rec w)"
  by (simp add: room_def stamped_def entry_range_def int64_range_def recordVersion_def)

lemma room_written: "room e \<Longrightarrow> Marshal e = Some b \<Longrightarrow> written e b"
  using Marshal_length [of e b] by (simp add: room_def written_def fits_def)

lemma append_extends_log:
  assumes "appendLocked env rec w = (w', None)" "log_of es (w_disk w)" "room rec"
  shows "log_of (es @ [stamped env rec w]) (w_disk w')"
  using assms(1)
proof (cases rule: appendLocked_ok)
  case (1 b)
  have "written (stamped env rec w) b"
    by (rule room_written [OF room_stamped [OF assms(3)] 1(1)])
  then show ?thesis
    using log_of_append [OF assms(2) log_of_one] 1(3) by simp
qed

lemma normal_stamped [simp]:
  "le_Op (normal_entry (stamped env rec w)) = ToValidUTF8 (le_Op rec)"
  "le_ID (normal_entry (stamped env rec w)) = ToValidUTF8 (le_ID rec)"
  by (simp_all add: normal_entry_def stamped_def)

definition message_valid :: "Message \<Rightarrow> bool" where
  "message_valid m \<longleftrightarrow> m_ID m \<noteq> [] \<and> valid_utf8 (m_ID m) \<and> valid_utf8 (m_Payload m) \<and>
     m_Status m \<noteq> [] \<and> valid_utf8 (m_Status m) \<and> m_Seq m \<noteq> 0"

lemma ops_valid [simp]: "valid_utf8 OP_ENQUEUE" "valid_utf8 OP_DEQUEUE" "valid_utf8 StatusPending"
  by code_simp+

lemma ops_distinct: "OP_DEQUEUE \<noteq> OP_ENQUEUE"
  by (simp add: OP_ENQUEUE_def OP_DEQUEUE_def)

lemma apply_live_enqueue:
  assumes "message_valid m" "c (m_ID m) = None"
  shows "apply_live (normal_entry (stamped env (enqueue_entry m) w)) c = c(m_ID m \<mapsto> m)"
  using assms
  by (cases m) (simp add: apply_live_def message_valid_def stamped_def enqueue_entry_def
      zero_entry_def normal_entry_def ToValidUTF8_valid recovered_message_def derefInt_def
      derefTime_def)

lemma apply_live_dequeue:
  assumes "valid_utf8 i" "i \<noteq> []"
  shows "apply_live (normal_entry (stamped env (dequeue_entry i) w)) c = c(i := None)"
  using assms
  by (simp add: apply_live_def stamped_def dequeue_entry_def zero_entry_def normal_entry_def
      ToValidUTF8_valid ops_distinct)

lemma WriteEnqueue_durable:
  assumes "WriteEnqueue env m w = (w', None)" "log_of es (w_disk w)" "message_valid m"
    "room (enqueue_entry m)" "live es (m_ID m) = None"
  shows "\<exists>e. log_of (es @ [e]) (w_disk w') \<and> le_Seq e = w_seq w + 1 \<and> w_seq w' = w_seq w + 1 \<and>
    live (es @ [e]) = (live es)(m_ID m \<mapsto> m)"
proof -
  let ?e = "stamped env (enqueue_entry m) w"
  have app: "appendLocked env (enqueue_entry m) w = (w', None)"
    using assms(1) by (auto simp: WriteEnqueue_def split: if_splits)
  have "w_seq w' = w_seq w + 1"
    using app by (rule appendLocked_ok) simp
  moreover have "le_Seq ?e = w_seq w + 1"
    by (simp add: stamped_def)
  moreover have "live (es @ [?e]) = (live es)(m_ID m \<mapsto> m)"
    using apply_live_enqueue [of m "live es", OF assms(3,5)] by simp
  ultimately show ?thesis
    using append_extends_log [OF app assms(2,4)] by blast
qed

lemma WriteDequeue_durable:
  assumes "WriteDequeue env i w = (w', None)" "log_of es (w_disk w)" "valid_utf8 i"
    "room (dequeue_entry i)"
  shows "\<exists>e. log_of (es @ [e]) (w_disk w') \<and> le_Seq e = w_seq w + 1 \<and> w_seq w' = w_seq w + 1 \<and>
    live (es @ [e]) = (live es)(i := None)"
proof -
  let ?e = "stamped env (dequeue_entry i) w"
  have app: "appendLocked env (dequeue_entry i) w = (w', None)" and "i \<noteq> []"
    using assms(1) by (auto simp: WriteDequeue_def split: if_splits)
  have "w_seq w' = w_seq w + 1"
    using app by (rule appendLocked_ok) simp
  moreover have "le_Seq ?e = w_seq w + 1"
    by (simp add: stamped_def)
  moreover have "live (es @ [?e]) = (live es)(i := None)"
    using apply_live_dequeue [OF assms(3) \<open>i \<noteq> []\<close>] by simp
  ultimately show ?thesis
    using append_extends_log [OF app assms(2,4)] by blast
qed

section \<open>Failed appends\<close>

text \<open>
  A write that fails part of the way, or a sync that fails after the write, leaves a prefix of the
  record's line in the file.  The next recovery takes the record when all of its text is there,
  with or without the line break, and drops it otherwise.
\<close>

lemma Recover_unterminated:
  assumes "log_of es d" "written e l" "w_disk w = d @ l" "w_open w" "read_ok env"
  shows "Recover env w = recovered (replay (es @ [e]) fold_init) w"
proof -
  obtain ls where ls: "list_all2 written es ls" "d = log_text ls"
    using assms(1) by (auto simp: log_of_def)
  have l: "newline \<notin> set l" "fits l" "dropCR l = l" "l \<noteq> []"
    using written_no_newline [OF assms(2)] written_dropCR [OF assms(2)] assms(2) by (simp_all add: written_def)
  then have tokens: "scan_tokens (w_disk w) = ls @ [l]" "\<not> scan_too_long (w_disk w)"
    using scan_log [OF ls(1), of l]
    by (simp_all add: assms(3) ls(2) scan_tokens_def scan_too_long_def split_lines_last)
  obtain pend st where loop: "scan_loop 0 None fold_init (ls @ [l]) = scan_loop (length ls) pend st [l]"
    and fin: "settle pend st = Inr (replay es fold_init)"
    using ls(1) by (rule scan_loop_log)
  show ?thesis
    using assms(4,5) loop [unfolded scan_loop_step [OF fin]] tokens applyLine_written [OF assms(2)]
    by (simp add: Recover_def read_ok_def recovered_def Let_def)
qed

lemma Recover_partial:
  assumes "log_of es d" "written e l" "w_disk w = d @ take n (l @ [newline])" "w_open w" "read_ok env"
  shows "Recover env w = recovered (replay (if n < length l then es else es @ [e]) fold_init) w"
proof -
  consider "n < length l" | "n = length l" | "n > length l"
    by linarith
  then show ?thesis
  proof cases
    case 1
    then show ?thesis
      using Recover_torn [OF assms(1,2)] assms(3-5) by simp
  next
    case 2
    then show ?thesis
      using Recover_unterminated [OF assms(1,2)] assms(3-5) by simp
  next
    case 3
    then have "log_of (es @ [e]) (w_disk w)"
      using log_of_append [OF assms(1) log_of_one [OF assms(2)]] assms(3) by simp
    from Recover_log [OF this assms(4,5)] 3 show ?thesis
      by simp
  qed
qed

lemma appendLocked_failed:
  assumes "appendLocked env rec w = (w', Some err)"
  obtains (refused) "err = ErrClosed \<and> \<not> w_open w \<or> err = MarshalFailed \<and> Marshal (stamped env rec w) = None"
      "w_disk w' = w_disk w"
    | (partial) l n where "w_open w" "Marshal (stamped env rec w) = Some l"
      "w_disk w' = w_disk w @ take n (l @ [newline])"
      "err = WriteFailed \<and> ae_write_error env = Some n \<or> err = SyncFailed \<and> n = Suc (length l)"
proof (cases "w_open w")
  case False
  then show thesis
    using assms refused by (auto simp: appendLocked_def)
next
  case True
  show thesis
  proof (cases "Marshal (stamped env rec w)")
    case None
    then show thesis
      using True assms refused by (auto simp: appendLocked_def stamped_def Let_def)
  next
    case (Some l)
    then have "(case ae_write_error env of
        Some n \<Rightarrow> w_disk w' = w_disk w @ take n (l @ [newline]) \<and> err = WriteFailed
      | None \<Rightarrow> w_disk w' = w_disk w @ l @ [newline] \<and> err = SyncFailed)"
      using True assms by (auto simp: appendLocked_def stamped_def Let_def split: if_splits option.splits)
    then show thesis
      using True Some partial [of l] partial [of l "Suc (length l)"] by (cases "ae_write_error env") auto
  qed
qed

text \<open>Opening the file again yields the messages \<open>c\<close>.\<close>

definition reopens :: "read_env \<Rightarrow> bytes \<Rightarrow> (string \<rightharpoonup> Message) \<Rightarrow> bool" where
  "reopens renv d c \<longleftrightarrow>
    (\<forall>path. \<exists>w out. NewWAL path (Some d) = Inr w \<and> snd (Recover renv w) = Inr out \<and> recovery_of c out)"

lemma reopens_replay:
  assumes "\<And>w. w_disk w = d \<Longrightarrow> w_open w \<Longrightarrow> Recover renv w = recovered (replay es fold_init) w"
  shows "reopens renv d (live es)"
  using assms recovery_of_replay [of es] by (auto simp: reopens_def NewWAL_def recovered_def)

lemma failed_append_reopens:
  assumes "appendLocked env rec w = (w', Some err)" "log_of es (w_disk w)" "room rec" "read_ok renv"
    and "c = live (es @ [stamped env rec w])"
  shows "(case err of
       WriteFailed \<Rightarrow> \<exists>n l. ae_write_error env = Some n \<and> Marshal (stamped env rec w) = Some l \<and>
         reopens renv (w_disk w') (if n < length l then live es else c)
     | SyncFailed \<Rightarrow> reopens renv (w_disk w') c
     | _ \<Rightarrow> (err = ErrClosed \<and> \<not> w_open w \<or> err = MarshalFailed) \<and> w_disk w' = w_disk w \<and>
         reopens renv (w_disk w') (live es))"
  using assms(1)
proof (cases rule: appendLocked_failed)
  case refused
  have "reopens renv (w_disk w') (live es)"
    using refused(2) assms(2,4) by (intro reopens_replay Recover_log) simp_all
  then show ?thesis
    using refused by auto
next
  case (partial l n)
  have "written (stamped env rec w) l"
    by (rule room_written [OF room_stamped [OF assms(3)] partial(2)])
  then have "reopens renv (w_disk w') (live (if n < length l then es else es @ [stamped env rec w]))"
    using Recover_partial [OF assms(2)] partial(3) assms(4) by (intro reopens_replay) simp
  then have "reopens renv (w_disk w') (if n < length l then live es else c)"
    unfolding assms(5) by (simp only: if_distrib [of live])
  with partial(2,4) show ?thesis
    by (elim disjE) (simp_all del: take_append)
qed

section \<open>The inspection tail\<close>

lemma bytes_Split_nonempty [simp]: "bytes_Split s \<noteq> []"
  by (cases s) (auto split: list.split)

lemma bytes_Split_tl:
  "tl (bytes_Split (c # s)) = (if c = newline then bytes_Split s else tl (bytes_Split s))"
  by (auto split: list.split)

lemma bytes_Split_line: "newline \<notin> set l \<Longrightarrow> bytes_Split (l @ newline # s) = l # bytes_Split s"
  by (induction l) auto

lemma bytes_Split_log:
  "(\<And>l. l \<in> set ls \<Longrightarrow> newline \<notin> set l) \<Longrightarrow> bytes_Split (log_text ls) = ls @ [[]]"
  by (induction ls) (auto simp: bytes_Split_line)

lemma suffix_tl: "suffix xs ys \<Longrightarrow> suffix (tl xs) ys"
  by (cases xs) (auto dest: suffix_ConsD)

text \<open>A window into the file, less its first piece, shows the last lines of the file.\<close>

lemma bytes_Split_drop: "suffix (tl (bytes_Split (drop n s))) (tl (bytes_Split s))"
proof (induction s arbitrary: n)
  case (Cons c s)
  show ?case
  proof (cases n)
    case (Suc m)
    then show ?thesis
      using Cons [of m] suffix_order.trans [OF _ suffix_tl [of "bytes_Split s" "bytes_Split s"]]
      by (simp only: drop_Suc_Cons bytes_Split_tl) simp
  qed simp
qed simp

lemma DecodeRune_last:
  assumes "s \<noteq> []" "snd (DecodeRune s) = length s" "2 \<le> length s"
  shows "0x80 \<le> byte (last s)"
  using assms(1)
  by (cases rule: DecodeRune_cases) (use assms in \<open>auto simp: ill_formed_def cont_def\<close>)

lemma brace_not_space: "\<not> ascii_space (CHR ''{'')" "\<not> ascii_space (CHR ''}'')"
  by (simp_all add: ascii_space_def byte_def)

lemma space_suffix_brace:
  assumes "s \<noteq> []" "last s = CHR ''}''"
  shows "space_suffix s = 0"
proof -
  have "space_width (drop (length s - n) s) \<noteq> n" if n: "1 \<le> n" "n \<le> length s" for n
  proof
    define t where "t = drop (length s - n) s"
    assume "space_width (drop (length s - n) s) = n"
    moreover have t: "t \<noteq> []" "length t = n" "last t = CHR ''}''"
      using n assms by (simp_all add: t_def last_drop)
    ultimately have w: "space_width t = length t"
      by (simp add: t_def)
    show False
    proof (cases "n = 1")
      case True
      then have "t = ''}''"
        using t by (cases t) auto
      then show False
        using w brace_not_space by (simp add: space_width_def byte_def)
    next
      case False
      then have "snd (DecodeRune t) = length t" "2 \<le> length t"
        using w t(2) n by (auto simp: space_width_def split: if_splits)
      from DecodeRune_last [OF t(1) this] show False
        using t(3) by (simp add: byte_def)
    qed
  qed
  then have "filter (\<lambda>n. n \<le> length s \<and> space_width (drop (length s - n) s) = n) [1, 2, 3] = []"
    unfolding filter_empty_conv by force
  then show ?thesis
    by (simp add: space_suffix_def)
qed

lemma TrimSpace_braces: "TrimSpace (CHR ''{'' # b @ ''}'') = CHR ''{'' # b @ ''}''"
proof -
  have "TrimLeft (CHR ''{'' # b @ ''}'') = CHR ''{'' # b @ ''}''"
    using brace_not_space by (subst TrimLeft.simps) (simp add: space_width_def byte_def)
  then show ?thesis
    using space_suffix_brace [of "CHR ''{'' # b @ ''}''"]
    by (subst TrimSpace_def, subst TrimRight.simps) simp
qed

lemma tail_written:
  assumes "written e l"
  shows "TrimSpace l = l" "tail_record l"
proof -
  obtain b where "l = CHR ''{'' # b @ ''}''"
    using assms by (auto simp: written_def elim: Marshal_braces)
  then show "TrimSpace l = l"
    using TrimSpace_braces by simp
  have "json_parse l \<noteq> None"
    using assms Unmarshal_Marshal [of e l] Unmarshal_syntax [of l] by (cases "json_parse l") (auto simp: written_def)
  then show "tail_record l"
    using written_dropCR [OF assms] by (simp add: tail_record_def json_Valid_def)
qed

definition tail_ok :: "tail_env \<Rightarrow> bool" where
  "tail_ok env \<longleftrightarrow> te_stat_ok env \<and> te_seek_ok env \<and> te_read_ok env"

definition last_n :: "int \<Rightarrow> 'a list \<Rightarrow> 'a list" where
  "last_n m xs = (if m > 0 \<and> int (length xs) > m then drop (length xs - nat m) xs else xs)"

lemma tail_of_lines:
  assumes "list_all2 written es ls" "suffix xs (ls @ [[]])"
  shows "suffix (filter tail_record (map TrimSpace xs)) ls"
    "xs = ls @ [[]] \<Longrightarrow> filter tail_record (map TrimSpace xs) = ls"
proof -
  have each: "TrimSpace l = l \<and> tail_record l" if "l \<in> set ls" for l
    using assms(1) that tail_written by (auto simp: list_all2_conv_all_nth in_set_conv_nth)
  have empty: "filter tail_record (map TrimSpace [[]]) = []"
    by code_simp
  have all: "filter tail_record (map TrimSpace ys) = ys" if "suffix ys ls" for ys
    using that each by (induction ys) (auto dest: suffix_ConsD set_mono_suffix)
  show "xs = ls @ [[]] \<Longrightarrow> filter tail_record (map TrimSpace xs) = ls"
    using all [of ls] empty by simp
  show "suffix (filter tail_record (map TrimSpace xs)) ls"
    using assms(2) all empty by (auto simp: suffix_snoc)
qed

lemma Tail_log:
  assumes "list_all2 written es ls" "w_disk w = log_text ls" "w_open w" "tail_ok env"
  obtains recs where "Tail env m w = Inr \<lparr>wt_Path = w_path w, wt_SizeBytes = int (length (w_disk w)),
      wt_Truncated = (length (w_disk w) > tailWindowBytes \<or> m > 0 \<and> int (length recs) > m),
      wt_Records = last_n m recs\<rparr>"
    "suffix recs ls" "length (w_disk w) \<le> tailWindowBytes \<Longrightarrow> recs = ls"
proof -
  define start where "start = (if length (w_disk w) > tailWindowBytes then length (w_disk w) - tailWindowBytes else 0)"
  define lines where "lines = (if start > 0 then tl (bytes_Split (drop start (w_disk w))) else bytes_Split (w_disk w))"
  define recs where "recs = filter tail_record (map TrimSpace lines)"
  have split: "bytes_Split (w_disk w) = ls @ [[]]"
    unfolding assms(2) by (rule bytes_Split_log) (rule written_lines(1) [OF assms(1)])
  have "suffix lines (ls @ [[]])"
  proof (cases "start > 0")
    case True
    have "suffix (tl (bytes_Split (w_disk w))) (bytes_Split (w_disk w))"
      by (rule suffix_tl) simp
    from suffix_order.trans [OF bytes_Split_drop [of start] this] show ?thesis
      using True unfolding lines_def split by (simp only: if_True)
  next
    case False
    then show ?thesis using split by (simp add: lines_def)
  qed
  note tl = tail_of_lines [OF assms(1) this]
  have "start = 0 \<Longrightarrow> recs = ls"
    using tl(2) split by (simp add: recs_def lines_def)
  moreover have "Tail env m w = Inr \<lparr>wt_Path = w_path w, wt_SizeBytes = int (length (w_disk w)),
      wt_Truncated = (length (w_disk w) > tailWindowBytes \<or> m > 0 \<and> int (length recs) > m),
      wt_Records = last_n m recs\<rparr>"
    using assms(3,4)
    by (auto simp: Tail_def tail_ok_def Let_def last_n_def recs_def lines_def start_def)
  ultimately show thesis
    using that [of recs] tl(1) by (auto simp: recs_def start_def)
qed

section \<open>Bytes left behind by a torn record\<close>

text \<open>
  Whatever a torn record left behind, a record written after it on the same line does not repair
  it: inside a string the first quote of the new record ends the string in a place where nothing
  may follow, where a value is expected the new record becomes a nested value and the outer object
  stays open, and everywhere else its opening brace is rejected.
\<close>

lemma object_head: "object_text ((''v'', x) # t) = CHR ''{'' # dq # CHR ''v'' # drop 3 (object_text ((''v'', x) # t))"
  by (cases t) (simp_all add: object_text_def member_text_def)

fun lit_ok :: "scan \<Rightarrow> bool" where
  "lit_ok (Lit rest v, stk) \<longleftrightarrow> CHR ''{'' \<notin> set rest"
| "lit_ok (st, stk) \<longleftrightarrow> True"

lemma lit_ok_finish [simp]: "lit_ok (finish v stk)"
  by (cases "(v, stk)" rule: finish.cases) auto

lemma lit_ok_stateEndValue: "stateEndValue c sc = Some sc' \<Longrightarrow> lit_ok sc'"
  by (cases "(c, sc)" rule: stateEndValue.cases) (auto split: if_splits frame.splits)

lemma lit_ok_begin:
  "stateBeginValue c stk = Some sc \<Longrightarrow> lit_ok sc"
  "stateBeginString c stk = Some sc \<Longrightarrow> lit_ok sc"
  "state0 acc c stk = Some sc \<Longrightarrow> lit_ok sc"
  "stateESign acc c stk = Some sc \<Longrightarrow> lit_ok sc"
  by (auto simp: stateBeginValue_def stateBeginString_def state0_def stateESign_def
      pushParseState_def dest: lit_ok_stateEndValue split: if_splits)

lemma lit_ok_step: "step c sc = Some sc' \<Longrightarrow> lit_ok sc \<Longrightarrow> lit_ok sc'"
  by (cases "(c, sc)" rule: step.cases)
    (auto dest: lit_ok_stateEndValue lit_ok_begin simp del: stateEndValue.simps
      split: if_splits list.splits frame.splits nat.splits)

lemma lit_ok_run: "run s sc = Some sc' \<Longrightarrow> lit_ok sc \<Longrightarrow> lit_ok sc'"
  by (induction s arbitrary: sc) (auto split: option.splits dest: lit_ok_step)

lemma brace_rejected:
  assumes "open_scan (st, f # stk)" "lit_ok (st, f # stk)"
    and "\<And>acc. st \<noteq> InString acc" "st \<noteq> BeginValue" "st \<noteq> BeginValueOrEmpty"
  shows "step (CHR ''{'') (st, f # stk) = None"
proof -
  have fin: "stateEndValue (CHR ''{'') (finish v (f # stk)) = None" for v
    by (cases f) (simp_all add: isSpace_def)
  have nd: "\<not> is_digit (CHR ''{'')" "\<not> is_hex (CHR ''{'')"
    by (simp_all add: is_digit_def is_hex_def byte_def)
  show ?thesis
  proof (cases st)
    case (Lit rest v)
    then show ?thesis
      using assms(2) by (cases rest) auto
  next
    case EndValue
    then show ?thesis
      by (cases f) (simp_all add: isSpace_def)
  qed (use assms fin nd in \<open>simp_all add: stateBeginString_def state0_def stateESign_def isSpace_def
      del: stateEndValue.simps finish.simps\<close>)
qed

lemma string_ended:
  assumes "stk \<noteq> []"
  shows "run (CHR ''{'' # dq # CHR ''v'' # s) (InString acc, stk) = None"
proof (cases stk)
  case (Cons f stk')
  have "step (CHR ''{'') (InString acc, stk) = Some (InString (acc @ ''{''), stk)"
    by (simp add: byte_def)
  moreover have "step dq (InString (acc @ ''{''), stk) = Some (finish (JStr (acc @ ''{'')) stk)"
    by simp
  moreover have "step (CHR ''v'') (finish (JStr (acc @ ''{'')) stk) = None"
    unfolding Cons by (cases f) (simp_all add: isSpace_def)
  ultimately show ?thesis
    by (simp only: run.simps option.case)
qed (use assms in simp)

lemma nested_object_stays_open:
  assumes "list_all2 member_ok fs ms" "fs \<noteq> []" "stk \<noteq> []"
    "st = BeginValue \<or> st = BeginValueOrEmpty" "run (object_text fs) (st, stk) = Some sc"
  shows "scan_eof sc = None"
proof -
  have "step (CHR ''{'') (st, stk) = pushParseState (ObjectKey [] []) BeginStringOrEmpty stk"
    using assms(4) by (auto simp: stateBeginValue_def isSpace_def)
  then have "run (members_text fs @ ''}'') (BeginStringOrEmpty, ObjectKey [] [] # stk) = Some sc"
    using assms(5) by (auto simp: object_text_def pushParseState_def split: if_splits option.splits)
  then have "sc = finish (JObj ms) stk"
    using run_members [OF assms(1,2), of BeginStringOrEmpty stk "[]" "[]"] by simp
  then show ?thesis
    using assms(3) by (cases stk; cases "hd stk") (auto simp: scan_eof_def isSpace_def)
qed

lemma Marshal_members:
  assumes "Marshal e = Some b" "entry_range e"
  obtains fs ms where "b = object_text fs" "fs \<noteq> []" "list_all2 member_ok fs ms"
    "b = CHR ''{'' # dq # CHR ''v'' # drop 3 b"
proof -
  obtain fe fa where m: "time_ok (le_TS e)"
    "omit_time ''enqueued_at'' (le_EnqueuedAt e) = Some fe"
    "omit_time ''available_at'' (le_AvailableAt e) = Some fa"
    "b = object_text ([(''v'', Itoa (le_V e)), (''op'', json_quote (le_Op e)),
         (''seq'', dec (unat (le_Seq e))), (''ts'', dq # format_rfc3339 (le_TS e) @ [dq])] @
        omit_string ''id'' (le_ID e) @ omit_uint ''msg_seq'' (le_MsgSeq e) @
        omit_string ''payload'' (le_Payload e) @ omit_int ''priority'' (le_Priority e) @
        fe @ fa @ omit_string ''status'' (le_Status e))"
    using assms(1) by (rule Marshal_SomeD)
  have range: "int64_range (le_V e)" "\<And>i. le_Priority e = Some i \<Longrightarrow> int64_range i"
    using assms(2) by (auto simp: entry_range_def)
  show thesis
    using carries_entry [OF range(1) m(1) range(2) m(2,3)] that [OF m(4)]
      object_head [of "Itoa (le_V e)"] m(4)
    unfolding carries_def append_Cons by blast
qed

lemma open_scan_rejects_record:
  assumes "written e l" "open_scan (st, f # stk)" "lit_ok (st, f # stk)" "run l (st, f # stk) = Some sc"
  shows "scan_eof sc = None"
proof -
  obtain fs ms where l: "l = object_text fs" "fs \<noteq> []" "list_all2 member_ok fs ms" "l = CHR ''{'' # dq # CHR ''v'' # drop 3 l"
    using assms(1) by (auto simp: written_def elim: Marshal_members)
  consider (str) acc where "st = InString acc" | (val) "st = BeginValue \<or> st = BeginValueOrEmpty"
    | (other) "\<And>acc. st \<noteq> InString acc" "st \<noteq> BeginValue" "st \<noteq> BeginValueOrEmpty"
    by blast
  then show ?thesis
  proof cases
    case str
    then show ?thesis
      using assms(4) string_ended [of "f # stk"] l(4) by (metis list.distinct(1) option.distinct(1))
  next
    case val
    then show ?thesis
      using nested_object_stays_open [OF l(3,2) _ val] assms(4) l(1) by blast
  next
    case other
    then have "step (CHR ''{'') (st, f # stk) = None"
      using brace_rejected assms(2,3) by blast
    then show ?thesis
      using assms(4) l(4) by (metis option.distinct(1) option.simps(4) run.simps(2))
  qed
qed

lemma glued_record_is_syntax_error:
  assumes "written e l" "0 < n" "n < length l" "written e' l'"
  shows "Unmarshal (take n l @ l') = Inl JSONSyntaxError"
proof -
  obtain b where l: "l = CHR ''{'' # b @ ''}''"
    using assms(1) by (auto simp: written_def elim: Marshal_braces)
  have torn: "json_parse (take n l) = None"
    using Unmarshal_torn [of e l n] assms(1,3) by (simp add: written_def Unmarshal_syntax)
  have "json_parse (take n l @ l') = None"
  proof (cases "run (take n l) scan_reset")
    case None
    then show ?thesis by (simp add: json_parse_def run_append)
  next
    case (Some sc)
    obtain k where k: "take n l = CHR ''{'' # take k b"
      using assms(2,3) l by (cases n) auto
    have start: "run (CHR ''{'' # s) scan_reset = run s (BeginStringOrEmpty, [ObjectKey [] []])" for s
      by (simp add: scan_reset_def stateBeginValue_def isSpace_def pushParseState_def maxNestingDepth_def)
    have "run (take k b) (BeginStringOrEmpty, [ObjectKey [] []]) = Some sc"
      using Some by (simp only: k start)
    from open_run [OF this] lit_ok_run [OF this] have inv: "open_scan sc" "lit_ok sc"
      by simp_all
    obtain st stk where sc: "sc = (st, stk)"
      by force
    have "\<And>v. st \<noteq> EndTop v"
      using torn Some inv(1) by (auto simp: json_parse_def sc scan_eof_def isSpace_def)
    then obtain f stk' where stk: "stk = f # stk'"
      using inv(1) by (cases stk; cases st) (auto simp: sc)
    have "scan_eof sc' = None" if "run l' sc = Some sc'" for sc'
      using open_scan_rejects_record [OF assms(4)] inv that unfolding sc stk by blast
    then show ?thesis
      using Some by (auto simp: json_parse_def run_append split: option.split)
  qed
  then show ?thesis
    by (simp add: Unmarshal_syntax)
qed

lemma glued_line:
  assumes "written e l" "0 < n" "n < length l" "written e' l'"
  shows "newline \<notin> set (take n l @ l')" "dropCR (take n l @ l') = take n l @ l'" "take n l @ l' \<noteq> []"
    "Unmarshal (take n l @ l') = Inl JSONSyntaxError"
proof -
  show "newline \<notin> set (take n l @ l')"
    using written_no_newline [OF assms(1)] written_no_newline [OF assms(4)] by (auto dest: in_set_takeD)
  show "take n l @ l' \<noteq> []"
    using assms(2,3) by auto
  show "dropCR (take n l @ l') = take n l @ l'"
    using written_dropCR [OF assms(4)] by (auto simp: dropCR_def butlast_append split: if_splits)
  show "Unmarshal (take n l @ l') = Inl JSONSyntaxError"
    using assms by (rule glued_record_is_syntax_error)
qed

lemma Recover_bad_line:
  assumes "log_of es d" "w_disk w = d @ p @ [newline]" "w_open w" "read_ok env"
    and "newline \<notin> set p" "fits p" "dropCR p = p" "p \<noteq> []" "Unmarshal p = Inl err"
  shows "Recover env w = recovered (replay es fold_init) w"
proof -
  obtain ls where ls: "list_all2 written es ls" "d = log_text ls"
    using assms(1) by (auto simp: log_of_def)
  have "scan_tokens (p @ [newline]) = [p]" "\<not> scan_too_long (p @ [newline])"
    using assms(5-7) split_lines_line [of p "[]"] by (simp_all add: scan_tokens_def scan_too_long_def)
  then have tokens: "scan_tokens (w_disk w) = ls @ [p]" "\<not> scan_too_long (w_disk w)"
    using scan_log [OF ls(1), of "p @ [newline]"] by (simp_all add: assms(2) ls(2))
  have bad: "applyLine p (replay es fold_init) = Inl err"
    using assms(8,9) by (simp add: applyLine_def)
  obtain pend st where loop: "scan_loop 0 None fold_init (ls @ [p]) = scan_loop (length ls) pend st [p]"
    and fin: "settle pend st = Inr (replay es fold_init)"
    using ls(1) by (rule scan_loop_log)
  show ?thesis
    using assms(3,4) bad loop [unfolded scan_loop_step [OF fin]] tokens
    by (simp add: Recover_def read_ok_def recovered_def Let_def)
qed

end
