(* ===== verification/Wal_Props.thy ===== *)
theory Wal_Props
  imports Wal_Log
begin

text \<open>
  The properties of the write-ahead log: records survive the trip to disk and back, recovery
  replays the log and tolerates exactly a torn last record, appends extend the log by one record
  or report an error, and the inspection tail shows the newest records verbatim.
\<close>

section \<open>A concrete log\<close>

definition ex_time :: go_time where "ex_time = 63886442400000000000"

definition ex_message :: Message where
  "ex_message = \<lparr>m_ID = ''a-1'', m_Seq = 1, m_Payload = ''hi'', m_Priority = 5,
     m_EnqueuedAt = ex_time, m_AvailableAt = ex_time + 2000000000, m_Status = StatusPending\<rparr>"

definition ex_env :: append_env where
  "ex_env = \<lparr>ae_now = ex_time, ae_write_error = None, ae_sync_ok = True\<rparr>"

definition ex_read :: read_env where
  "ex_read = \<lparr>re_seek_ok = True, re_read_error = None\<rparr>"

definition ex_tail :: tail_env where
  "ex_tail = \<lparr>te_stat_ok = True, te_seek_ok = True, te_read_ok = True\<rparr>"

definition ex_wal :: WAL where
  "ex_wal = \<lparr>w_open = True, w_path = ''q.wal'', w_seq = 0, w_disk = []\<rparr>"

definition ex_entry :: logEntry where
  "ex_entry = stamped ex_env (enqueue_entry ex_message) ex_wal"

definition ex_line :: bytes where
  "ex_line = ''{\"v\":1,\"op\":\"ENQUEUE\",\"seq\":1,\"ts\":\"2025-06-25T10:00:00Z\",\"id\":\"a-1\",'' @
     ''\"msg_seq\":1,\"payload\":\"hi\",\"priority\":5,\"enqueued_at\":\"2025-06-25T10:00:00Z\",'' @
     ''\"available_at\":\"2025-06-25T10:00:02Z\",\"status\":\"PENDING\"}''"

lemma ex_written: "written ex_entry ex_line"
proof -
  have "Marshal ex_entry = Some ex_line"
    by code_simp
  moreover have "entry_range ex_entry" "fits ex_line"
    by code_simp+
  ultimately show ?thesis
    by (simp add: written_def)
qed

lemma ex_log: "log_of [ex_entry] (ex_line @ [newline])"
  by (rule log_of_one [OF ex_written])

definition ex_wal1 :: WAL where
  "ex_wal1 = ex_wal\<lparr>w_seq := 1, w_disk := ex_line @ [newline]\<rparr>"

lemma ex_ok [simp]:
  "read_ok ex_read" "tail_ok ex_tail" "w_open ex_wal" "w_disk ex_wal = []"
  "w_open ex_wal1" "w_disk ex_wal1 = ex_line @ [newline]" "w_path ex_wal1 = ''q.wal''"
  by (simp_all add: read_ok_def ex_read_def tail_ok_def ex_tail_def ex_wal_def ex_wal1_def)

section \<open>Records on disk\<close>

text \<open>
  C9: A record survives the trip to disk and back.  For a record whose integers are in the range
  of their Go types, if \<^verbatim>\<open>json.Marshal\<close> yields a text then that text is a single line of at most six
  bytes per byte of its strings plus 300, decoding it gives the record with ill-formed UTF-8
  replaced, and the very same record when its strings are valid UTF-8.
\<close>

theorem record_roundtrip:
  assumes "Marshal e = Some b" and "entry_range e"
  shows "newline \<notin> set b \<and>
    length b \<le> 6 * (length (le_Op e) + length (le_ID e) + length (le_Payload e) + length (le_Status e)) + 300 \<and>
    Unmarshal b = Inr (normal_entry e) \<and>
    (valid_utf8 (le_Op e) \<and> valid_utf8 (le_ID e) \<and> valid_utf8 (le_Payload e) \<and> valid_utf8 (le_Status e)
      \<longrightarrow> Unmarshal b = Inr e)"
proof -
  have "length b \<le> 6 * (length (le_Op e) + length (le_ID e) + length (le_Payload e) + length (le_Status e)) + 300"
    using Marshal_length [OF assms] escape_length [of "le_Op e"] escape_length [of "le_ID e"]
      escape_length [of "le_Payload e"] escape_length [of "le_Status e"] by simp
  then show ?thesis
    using assms Unmarshal_Marshal normal_entry_valid printable_no_newline [OF Marshal_printable [OF assms(1)]]
    by (simp add: newline_def)
qed

theorem record_roundtrip_witness:
  "newline \<notin> set ex_line \<and> Unmarshal ex_line = Inr ex_entry"
proof -
  have "Marshal ex_entry = Some ex_line" "entry_range ex_entry"
    using ex_written by (simp_all add: written_def)
  note rt = record_roundtrip [OF this]
  have "valid_utf8 (le_Op ex_entry) \<and> valid_utf8 (le_ID ex_entry) \<and> valid_utf8 (le_Payload ex_entry) \<and>
      valid_utf8 (le_Status ex_entry)"
    by code_simp
  then show ?thesis
    using rt by blast
qed

text \<open>
  C10: A record that was cut short never decodes.  Every proper prefix of the text of a record,
  wherever the write stopped, is a JSON syntax error.
\<close>

theorem torn_record_is_syntax_error:
  assumes "Marshal e = Some b" and "entry_range e" and "n < length b"
  shows "Unmarshal (take n b) = Inl JSONSyntaxError"
  using assms by (rule Unmarshal_torn)

theorem torn_record_is_syntax_error_witness:
  "Unmarshal (take 40 ex_line) = Inl JSONSyntaxError"
proof (rule torn_record_is_syntax_error)
  show "Marshal ex_entry = Some ex_line" "entry_range ex_entry"
    using ex_written by (simp_all add: written_def)
  show "40 < length ex_line"
    by code_simp
qed

section \<open>Recovery\<close>

text \<open>
  C11: Recovery replays the log.  On a file that holds the records \<open>es\<close>, \<^verbatim>\<open>Recover\<close> succeeds,
  continues the record counter from the largest record number, leaves the file alone, and returns
  exactly the live messages of the log, each once, in ascending order of sequence number and ID.
  The list is the only one that meets this description, so the iteration order of the Go map does
  not matter.
\<close>

theorem recover_replays_log:
  assumes "log_of es (w_disk w)" and "w_open w" and "read_ok env"
  shows "\<exists>out. Recover env w = (w\<lparr>w_seq := max_seq es\<rparr>, Inr out) \<and> recovery_of (live es) out \<and>
    (\<forall>out'. recovery_of (live es) out' \<longrightarrow> out' = out)"
  using Recover_log [OF assms] recovery_of_replay [of es] replay_ok(3) [of es] recovery_of_unique
  by (auto simp: recovered_def)

lemma ex_live: "live [ex_entry] = [''a-1'' \<mapsto> ex_message]"
proof -
  have "message_valid ex_message"
    by code_simp
  then have "apply_live (normal_entry ex_entry) Map.empty = Map.empty(m_ID ex_message \<mapsto> ex_message)"
    unfolding ex_entry_def by (rule apply_live_enqueue) simp
  moreover have "m_ID ex_message = ''a-1''"
    by (simp add: ex_message_def)
  ultimately show ?thesis
    using live_simps(2) [of "[]" ex_entry] by simp
qed

lemma ex_recovery: "recovery_of [''a-1'' \<mapsto> ex_message] out \<longleftrightarrow> out = [ex_message]"
proof -
  have "recovery_of [''a-1'' \<mapsto> ex_message] [ex_message]"
    by (simp add: recovery_of_def)
  then show ?thesis
    using recovery_of_unique by blast
qed

lemma ex_max_seq: "max_seq [ex_entry] = 1"
  by code_simp

theorem recover_replays_log_witness:
  "Recover ex_read ex_wal1 = (ex_wal1\<lparr>w_seq := 1\<rparr>, Inr [ex_message])"
  using recover_replays_log [of "[ex_entry]" ex_wal1 ex_read] ex_log
  by (simp add: ex_live ex_recovery ex_max_seq)

text \<open>
  C12: Recovery ignores exactly a torn last record.  When the process died while appending a
  record, so that a proper prefix of its line follows the complete records, \<^verbatim>\<open>Recover\<close> succeeds and
  returns what the complete records say.
\<close>

theorem recover_drops_torn_tail:
  assumes "log_of es d" and "written e l" and "n < length l"
    and "w_disk w = d @ take n l" and "w_open w" and "read_ok env"
  shows "\<exists>out. Recover env w = (w\<lparr>w_seq := max_seq es\<rparr>, Inr out) \<and> recovery_of (live es) out"
  using Recover_torn [OF assms] recovery_of_replay [of es] replay_ok(3) [of es]
  by (auto simp: recovered_def)

theorem recover_drops_torn_tail_witness:
  "Recover ex_read (ex_wal1\<lparr>w_disk := ex_line @ [newline] @ take 25 ex_line\<rparr>) =
    (ex_wal1\<lparr>w_disk := ex_line @ [newline] @ take 25 ex_line, w_seq := 1\<rparr>, Inr [ex_message])"
proof -
  have "25 < length ex_line"
    by code_simp
  then show ?thesis
    using recover_drops_torn_tail [OF ex_log ex_written, of 25
        "ex_wal1\<lparr>w_disk := ex_line @ [newline] @ take 25 ex_line\<rparr>" ex_read]
    by (simp add: ex_live ex_recovery ex_max_seq)
qed

text \<open>
  C13: Corruption before the last line is an error, never silent loss.  When the line after the
  records \<open>es\<close> does not decode and some byte follows its line break, \<^verbatim>\<open>Recover\<close> fails with the number
  of that line and changes nothing.
\<close>

theorem recover_rejects_corruption:
  assumes "log_of es d" and "w_disk w = d @ p @ newline # c # rest" and "w_open w" and "read_ok env"
    and "newline \<notin> set p" and "fits p" and "dropCR p \<noteq> []" and "Unmarshal (dropCR p) = Inl err"
    and "fits (takeWhile (\<lambda>x. x \<noteq> newline) (c # rest))"
  shows "Recover env w = (w, Inl (CorruptRecord (length es + 1) err))"
  using Recover_corrupt [OF assms(1-6) assms(8,7,9)] .

theorem recover_rejects_corruption_witness:
  "Recover ex_read (ex_wal1\<lparr>w_disk := (ex_line @ [newline]) @ ''junk'' @ newline # ''{}''\<rparr>) =
    (ex_wal1\<lparr>w_disk := (ex_line @ [newline]) @ ''junk'' @ newline # ''{}''\<rparr>,
     Inl (CorruptRecord 2 JSONSyntaxError))"
proof -
  have "Unmarshal (dropCR ''junk'') = Inl JSONSyntaxError" "dropCR ''junk'' \<noteq> []" "fits ''junk''"
    "newline \<notin> set ''junk''" "fits (takeWhile (\<lambda>x. x \<noteq> newline) ''{}'')"
    by code_simp+
  then show ?thesis
    using recover_rejects_corruption [OF ex_log, where p = "''junk''" and c = "CHR ''{''" and rest = "''}''"
        and w = "ex_wal1\<lparr>w_disk := (ex_line @ [newline]) @ ''junk'' @ newline # ''{}''\<rparr>" and env = ex_read
        and err = JSONSyntaxError]
    by simp
qed

section \<open>Appending\<close>

text \<open>
  C14: An acknowledged write is what the next recovery sees.  When \<^verbatim>\<open>WriteEnqueue\<close> returns no error
  for a message with a new ID, the file holds one record more, numbered one above the previous one,
  and the log's live messages gain exactly that message, field by field; when \<^verbatim>\<open>WriteDequeue\<close>
  returns no error, they lose exactly that ID.
\<close>

theorem acknowledged_write_is_durable:
  assumes "log_of es (w_disk w)"
  shows "(WriteEnqueue env m w = (w', None) \<and> message_valid m \<and> room (enqueue_entry m) \<and> live es (m_ID m) = None \<longrightarrow>
      (\<exists>e. log_of (es @ [e]) (w_disk w') \<and> le_Seq e = w_seq w + 1 \<and> w_seq w' = w_seq w + 1 \<and>
          live (es @ [e]) = (live es)(m_ID m \<mapsto> m))) \<and>
    (WriteDequeue env i w = (w', None) \<and> valid_utf8 i \<and> room (dequeue_entry i) \<longrightarrow>
      (\<exists>e. log_of (es @ [e]) (w_disk w') \<and> le_Seq e = w_seq w + 1 \<and> w_seq w' = w_seq w + 1 \<and>
          live (es @ [e]) = (live es)(i := None)))"
  using WriteEnqueue_durable [OF _ assms] WriteDequeue_durable [OF _ assms] by blast

lemma ex_write: "WriteEnqueue ex_env ex_message ex_wal = (ex_wal1, None)"
proof -
  have "Marshal (stamped ex_env (enqueue_entry ex_message) ex_wal) = Some ex_line"
    using ex_written by (simp add: written_def ex_entry_def)
  from appendLocked_succeeds [OF _ this] show ?thesis
    by (simp add: WriteEnqueue_def ex_message_def ex_env_def ex_wal_def ex_wal1_def)
qed

theorem acknowledged_write_is_durable_witness:
  "\<exists>e. log_of [e] (w_disk ex_wal1) \<and> le_Seq e = 1 \<and> live [e] = [''a-1'' \<mapsto> ex_message]"
proof -
  have "message_valid ex_message" "room (enqueue_entry ex_message)" "w_seq ex_wal = 0" "m_ID ex_message = ''a-1''"
    by code_simp+
  then show ?thesis
    using acknowledged_write_is_durable [of "[]" ex_wal ex_env ex_message ex_wal1] ex_write by auto
qed

text \<open>
  C15: A failed write is all or nothing for the next start, but the caller cannot tell which.  When
  \<^verbatim>\<open>WriteEnqueue\<close> or \<^verbatim>\<open>WriteDequeue\<close> returns an error on a log of whole records, opening the file
  again and recovering succeeds.  After a refusal (the log is closed, the ID is empty, the record
  cannot be encoded) the file is unchanged.  After a failed \<^verbatim>\<open>Write\<close> that transferred \<open>n\<close> bytes the
  recovered messages are the old ones when \<open>n\<close> falls short of the record's text, and already show
  the effect of the refused write when it does not, even without the line break.  After a failed
  \<^verbatim>\<open>Sync\<close> they show the effect of the write the caller was told had failed.
\<close>

theorem failed_write_is_all_or_nothing:
  assumes "log_of es (w_disk w)" and "read_ok renv"
  shows "(WriteEnqueue env m w = (w', Some err) \<and> message_valid m \<and> room (enqueue_entry m) \<and> live es (m_ID m) = None \<longrightarrow>
      (case err of
         WriteFailed \<Rightarrow> \<exists>n l. ae_write_error env = Some n \<and> Marshal (stamped env (enqueue_entry m) w) = Some l \<and>
           reopens renv (w_disk w') (if n < length l then live es else (live es)(m_ID m \<mapsto> m))
       | SyncFailed \<Rightarrow> reopens renv (w_disk w') ((live es)(m_ID m \<mapsto> m))
       | _ \<Rightarrow> (err = ErrClosed \<and> \<not> w_open w \<or> err = MarshalFailed) \<and> w_disk w' = w_disk w \<and>
           reopens renv (w_disk w') (live es))) \<and>
    (WriteDequeue env i w = (w', Some err) \<and> valid_utf8 i \<and> room (dequeue_entry i) \<longrightarrow>
      (if i = [] then err = ErrEmptyID \<and> w' = w
       else case err of
         WriteFailed \<Rightarrow> \<exists>n l. ae_write_error env = Some n \<and> Marshal (stamped env (dequeue_entry i) w) = Some l \<and>
           reopens renv (w_disk w') (if n < length l then live es else (live es)(i := None))
       | SyncFailed \<Rightarrow> reopens renv (w_disk w') ((live es)(i := None))
       | _ \<Rightarrow> (err = ErrClosed \<and> \<not> w_open w \<or> err = MarshalFailed) \<and> w_disk w' = w_disk w \<and>
           reopens renv (w_disk w') (live es)))"
proof (intro conjI impI; elim conjE)
  assume wr: "WriteEnqueue env m w = (w', Some err)" and m: "message_valid m" "room (enqueue_entry m)" "live es (m_ID m) = None"
  have "appendLocked env (enqueue_entry m) w = (w', Some err)"
    using wr m(1) by (simp add: WriteEnqueue_def message_valid_def)
  from failed_append_reopens [OF this assms(1) m(2) assms(2) refl]
  show "case err of
      WriteFailed \<Rightarrow> \<exists>n l. ae_write_error env = Some n \<and> Marshal (stamped env (enqueue_entry m) w) = Some l \<and>
        reopens renv (w_disk w') (if n < length l then live es else (live es)(m_ID m \<mapsto> m))
    | SyncFailed \<Rightarrow> reopens renv (w_disk w') ((live es)(m_ID m \<mapsto> m))
    | _ \<Rightarrow> (err = ErrClosed \<and> \<not> w_open w \<or> err = MarshalFailed) \<and> w_disk w' = w_disk w \<and>
        reopens renv (w_disk w') (live es)"
    unfolding live_simps apply_live_enqueue [of m "live es", OF m(1,3)] .
next
  assume wr: "WriteDequeue env i w = (w', Some err)" and i: "valid_utf8 i" "room (dequeue_entry i)"
  show "if i = [] then err = ErrEmptyID \<and> w' = w
    else case err of
      WriteFailed \<Rightarrow> \<exists>n l. ae_write_error env = Some n \<and> Marshal (stamped env (dequeue_entry i) w) = Some l \<and>
        reopens renv (w_disk w') (if n < length l then live es else (live es)(i := None))
    | SyncFailed \<Rightarrow> reopens renv (w_disk w') ((live es)(i := None))
    | _ \<Rightarrow> (err = ErrClosed \<and> \<not> w_open w \<or> err = MarshalFailed) \<and> w_disk w' = w_disk w \<and>
        reopens renv (w_disk w') (live es)"
  proof (cases "i = []")
    case True
    then show ?thesis
      using wr by (simp add: WriteDequeue_def)
  next
    case False
    then have "appendLocked env (dequeue_entry i) w = (w', Some err)"
      using wr by (simp add: WriteDequeue_def)
    from failed_append_reopens [OF this assms(1) i(2) assms(2) refl] False show ?thesis
      unfolding live_simps apply_live_dequeue [OF i(1) False] by simp
  qed
qed

lemma ex_failed_sync:
  "WriteEnqueue (ex_env\<lparr>ae_sync_ok := False\<rparr>) ex_message ex_wal = (ex_wal1, Some SyncFailed)"
proof -
  have "Marshal (stamped (ex_env\<lparr>ae_sync_ok := False\<rparr>) (enqueue_entry ex_message) ex_wal) = Some ex_line"
    using ex_written by (simp add: written_def ex_entry_def stamped_def)
  then show ?thesis
    by (simp add: WriteEnqueue_def appendLocked_def stamped_def ex_message_def ex_env_def ex_wal_def ex_wal1_def)
qed

theorem failed_write_is_all_or_nothing_witness:
  "WriteEnqueue (ex_env\<lparr>ae_sync_ok := False\<rparr>) ex_message ex_wal = (ex_wal1, Some SyncFailed) \<and>
   reopens ex_read (w_disk ex_wal1) [''a-1'' \<mapsto> ex_message]"
proof -
  have "message_valid ex_message" "room (enqueue_entry ex_message)" "m_ID ex_message = ''a-1''"
    by code_simp+
  then show ?thesis
    using failed_write_is_all_or_nothing [of "[]" ex_wal ex_read "ex_env\<lparr>ae_sync_ok := False\<rparr>" ex_message ex_wal1 SyncFailed]
      ex_failed_sync by simp
qed

text \<open>
  C16: The inspection tail shows the newest records verbatim.  On a file of whole records that fits
  the read window, \<^verbatim>\<open>Tail\<close> returns the last \<open>m\<close> lines of the log as they stand on disk (all of them
  when \<open>m\<close> is not positive), with the truncation flag set exactly when older ones were left out; on
  a larger file it returns whole lines from the end of the log and sets the flag.
\<close>

theorem tail_shows_newest_records:
  assumes "list_all2 written es ls" and "w_disk w = log_text ls" and "w_open w" and "tail_ok env"
  shows "\<exists>t. Tail env m w = Inr t \<and> wt_Path t = w_path w \<and> wt_SizeBytes t = int (length (w_disk w)) \<and>
    suffix (wt_Records t) ls \<and>
    (if length (w_disk w) \<le> tailWindowBytes
     then wt_Records t = last_n m ls \<and> (wt_Truncated t \<longleftrightarrow> length (wt_Records t) < length ls)
     else wt_Truncated t)"
  using assms
proof (rule Tail_log [where m = m])
  fix recs
  assume tail: "Tail env m w = Inr \<lparr>wt_Path = w_path w, wt_SizeBytes = int (length (w_disk w)),
      wt_Truncated = (length (w_disk w) > tailWindowBytes \<or> m > 0 \<and> int (length recs) > m),
      wt_Records = last_n m recs\<rparr>"
    and recs: "suffix recs ls" "length (w_disk w) \<le> tailWindowBytes \<Longrightarrow> recs = ls"
  have "suffix (last_n m recs) ls"
    using recs(1) suffix_order.trans [OF suffix_drop] by (auto simp: last_n_def)
  moreover have "(m > 0 \<and> int (length ls) > m) \<longleftrightarrow> length (last_n m ls) < length ls"
    by (auto simp: last_n_def)
  ultimately show ?thesis
    using tail recs(2) by auto
qed

theorem tail_shows_newest_records_witness:
  "\<exists>t. Tail ex_tail 1 ex_wal1 = Inr t \<and> wt_Records t = [ex_line]"
proof -
  have "length (w_disk ex_wal1) \<le> tailWindowBytes"
    by code_simp
  moreover have "list_all2 written [ex_entry] [ex_line]" "w_disk ex_wal1 = log_text [ex_line]"
    using ex_written by simp_all
  ultimately show ?thesis
    using tail_shows_newest_records [of "[ex_entry]" "[ex_line]" ex_wal1 ex_tail 1]
    by (auto simp: last_n_def)
qed

text \<open>
  C17: A torn tail swallows the next record.  Recovery drops a torn last line but leaves its bytes
  in the file, and the next append continues on the same line.  That append is acknowledged, yet
  the line it completes no longer decodes: the following recovery loses the acknowledged message
  without an error, and one more append turns the lost line into a corrupt one that stops
  recovery for good.
\<close>

theorem torn_tail_swallows_next_record:
  assumes "log_of es d" and "written e l" and "0 < n" and "n < length l"
    and "w_disk w = d @ take n l" and "WriteEnqueue env m w = (w1, None)" and "room (enqueue_entry m)"
    and "length (w_disk w1) \<le> length d + maxRecordBytes" and "read_ok renv"
  shows "(\<exists>out. snd (Recover renv w1) = Inr out \<and> recovery_of (live es) out) \<and>
    (WriteEnqueue env' m' w1 = (w2, None) \<and> room (enqueue_entry m') \<longrightarrow>
      snd (Recover renv w2) = Inl (CorruptRecord (length es + 1) JSONSyntaxError))"
proof -
  obtain b where b: "written (stamped env (enqueue_entry m) w) b" "w_open w1"
      "w_disk w1 = d @ (take n l @ b) @ [newline]"
    using assms(5-7) room_written [OF room_stamped]
    by (auto simp: WriteEnqueue_def split: if_splits elim!: appendLocked_ok)
  let ?p = "take n l @ b"
  have p: "newline \<notin> set ?p" "fits ?p" "dropCR ?p = ?p" "?p \<noteq> []"
    "Unmarshal ?p = Inl JSONSyntaxError"
    using glued_line [OF assms(2-4) b(1)] b(3) assms(8) by (simp_all add: fits_def)
  have "\<exists>out. snd (Recover renv w1) = Inr out \<and> recovery_of (live es) out"
    using Recover_bad_line [OF assms(1) b(3,2) assms(9) p] recovery_of_replay [of es]
    by (auto simp: recovered_def)
  moreover have "snd (Recover renv w2) = Inl (CorruptRecord (length es + 1) JSONSyntaxError)"
    if succ: "WriteEnqueue env' m' w1 = (w2, None)" "room (enqueue_entry m')"
  proof -
    obtain b' where b': "written (stamped env' (enqueue_entry m') w1) b'" "w_open w2"
        "w_disk w2 = d @ ?p @ newline # b' @ [newline]"
      using succ b(3) room_written [OF room_stamped]
      by (auto simp: WriteEnqueue_def split: if_splits elim!: appendLocked_ok)
    then obtain c rest where c: "b' @ [newline] = c # rest"
      by (cases b') auto
    have "fits (takeWhile (\<lambda>x. x \<noteq> newline) (c # rest))"
      using b'(1) written_no_newline [OF b'(1)] unfolding c [symmetric]
      by (subst takeWhile_append2) (auto simp: written_def)
    then show ?thesis
      using Recover_corrupt [OF assms(1) _ b'(2) assms(9) p(1,2)] p(3-5) b'(3) c by simp
  qed
  ultimately show ?thesis
    by blast
qed

lemma ex_dead_disk:
  "WriteEnqueue ex_env ex_message (ex_wal\<lparr>w_disk := take 25 ex_line\<rparr>) =
    (ex_wal1\<lparr>w_disk := take 25 ex_line @ ex_line @ [newline]\<rparr>, None)"
proof -
  have "Marshal (stamped ex_env (enqueue_entry ex_message) (ex_wal\<lparr>w_disk := take 25 ex_line\<rparr>)) = Some ex_line"
    using ex_written by (simp add: written_def ex_entry_def stamped_def)
  from appendLocked_succeeds [OF _ this] show ?thesis
    by (simp add: WriteEnqueue_def ex_message_def ex_env_def ex_wal_def ex_wal1_def)
qed

theorem torn_tail_swallows_next_record_witness:
  "WriteEnqueue ex_env ex_message (ex_wal\<lparr>w_disk := take 25 ex_line\<rparr>) =
    (ex_wal1\<lparr>w_disk := take 25 ex_line @ ex_line @ [newline]\<rparr>, None) \<and>
   snd (Recover ex_read (ex_wal1\<lparr>w_disk := take 25 ex_line @ ex_line @ [newline]\<rparr>)) = Inr []"
proof -
  have facts: "25 < length ex_line" "room (enqueue_entry ex_message)"
    "length (take 25 ex_line @ ex_line @ [newline]) \<le> maxRecordBytes"
    by code_simp+
  have "recovery_of (live []) out \<longleftrightarrow> out = []" for out
    by (auto simp: recovery_of_def)
  then show ?thesis
    using torn_tail_swallows_next_record [OF log_of_Nil ex_written _ _ _ ex_dead_disk, of 25 ex_read] facts ex_dead_disk
    by simp
qed

end
