(* ===== verification/Service.thy ===== *)
theory Service
  imports Engine Wal_Log
begin

unbundle bit_operations_syntax

text \<open>
  The queue service of \<^verbatim>\<open>src/pkg/service/queue_service.go\<close>: it validates requests, assigns IDs and
  sequence numbers, writes the log before it changes the in-memory queue, and rolls back when the
  log refuses a write.

  The service holds its lock during a whole \<^verbatim>\<open>Enqueue\<close>, \<^verbatim>\<open>Dequeue\<close> or \<^verbatim>\<open>Close\<close>, so such a call is one
  step on the state.  \<^verbatim>\<open>Stats\<close>, \<^verbatim>\<open>Snapshot\<close> and \<^verbatim>\<open>WalTail\<close> hold only its read lock: several of them may
  run at once, each reading the clock before it takes the engine's own lock, so concurrent readers
  may reach the engine with clock readings out of order.  The model takes the calls in the order in
  which they get the engine's lock and assumes that the clock readings do not decrease in that order.
  The inputs of a call
  from outside are arguments: the reading of the service's clock (the one \<^verbatim>\<open>WithNow\<close> may replace),
  the random bytes of a new ID, and the environment of each log operation.  A call returns \<^const>\<open>None\<close>
  when the engine would panic, which is shown never to happen.
\<close>

section \<open>State and errors\<close>

datatype service_error =
    ServiceClosed
  | InvalidMode string
  | InvalidRequest request_error
  | RandFailed
  | WalFailed wal_error

record QueueService =
  s_queue :: FrankensteinQueue
  s_wal :: WAL
  s_seq :: uint64
  s_closed :: bool

section \<open>Message IDs\<close>

type_synonym random_bytes = "8 word list"

definition hex_byte :: "8 word \<Rightarrow> bytes" where
  "hex_byte b = [hex (unat b div 16), hex (unat b mod 16)]"

definition hex_bytes :: "8 word list \<Rightarrow> bytes" where
  "hex_bytes b = concat (map hex_byte b)"

text \<open>\<^verbatim>\<open>rand.Read\<close> fills sixteen bytes or fails.\<close>

definition newUUID :: "random_bytes option \<Rightarrow> string option" where
  "newUUID rnd =
    (case rnd of
       None \<Rightarrow> None
     | Some b0 \<Rightarrow>
         let b1 = b0[6 := (b0 ! 6 AND 0x0F) OR 0x40];
             b = b1[8 := (b1 ! 8 AND 0x3F) OR 0x80]
         in Some (hex_bytes (take 4 b) @ ''-'' @ hex_bytes (take 2 (drop 4 b)) @ ''-'' @
              hex_bytes (take 2 (drop 6 b)) @ ''-'' @ hex_bytes (take 2 (drop 8 b)) @ ''-'' @
              hex_bytes (drop 10 b)))"

section \<open>Construction\<close>

primrec push_list :: "('q \<Rightarrow> Message \<Rightarrow> 'q option) \<Rightarrow> 'q \<Rightarrow> Message list \<Rightarrow> 'q option" where
  "push_list push q [] = Some q"
| "push_list push q (msg # msgs) =
    (case push q msg of None \<Rightarrow> None | Some q' \<Rightarrow> push_list push q' msgs)"

definition recovered_seq :: "Message list \<Rightarrow> uint64" where
  "recovered_seq msgs = fold (\<lambda>msg maxSeq. if m_Seq msg > maxSeq then m_Seq msg else maxSeq) msgs 0"

text \<open>
  \<open>contents\<close> is what the file at the path holds, \<^const>\<open>None\<close> when it cannot be opened.  On an error the
  result of closing the log is ignored, as in the code.
\<close>

definition NewQueueService ::
  "string \<Rightarrow> QueueMode \<Rightarrow> bytes option \<Rightarrow> read_env \<Rightarrow> (service_error + QueueService) option" where
  "NewQueueService walPath mode contents env =
    (if \<not> Valid mode then Some (Inl (InvalidMode mode))
     else case NewWAL walPath contents of
       Inl err \<Rightarrow> Some (Inl (WalFailed err))
     | Inr wal \<Rightarrow>
         (case NewFrankensteinQueue mode of
            Inl _ \<Rightarrow> Some (Inl (InvalidMode mode))
          | Inr q \<Rightarrow>
              (case Recover env wal of
                 (_, Inl err) \<Rightarrow> Some (Inl (WalFailed err))
               | (wal', Inr msgs) \<Rightarrow>
                   (case push_list Push q msgs of
                      None \<Rightarrow> None
                    | Some q' \<Rightarrow>
                        Some (Inr \<lparr>s_queue = q', s_wal = wal', s_seq = recovered_seq msgs,
                                   s_closed = False\<rparr>)))))"

section \<open>Enqueue and Dequeue\<close>

text \<open>
  \<^verbatim>\<open>time.Duration(req.DelaySeconds) * time.Second\<close> is a product of 64-bit integers and wraps.
\<close>

definition delay_duration :: "int \<Rightarrow> int" where
  "delay_duration secs = signed_take_bit 63 (secs * nanos_per_sec)"

definition new_message :: "string \<Rightarrow> uint64 \<Rightarrow> go_time \<Rightarrow> EnqueueRequest \<Rightarrow> Message" where
  "new_message mid sq now req =
    \<lparr>m_ID = mid, m_Seq = sq, m_Payload = req_Payload req, m_Priority = req_Priority req,
     m_EnqueuedAt = now, m_AvailableAt = now + delay_duration (req_DelaySeconds req),
     m_Status = StatusPending\<rparr>"

definition Enqueue ::
  "random_bytes option \<Rightarrow> go_time \<Rightarrow> append_env \<Rightarrow> EnqueueRequest \<Rightarrow> QueueService \<Rightarrow>
   (QueueService \<times> (service_error + Message)) option" where
  "Enqueue rnd now env req s =
    (case Validate req of
       Some err \<Rightarrow> Some (s, Inl (InvalidRequest err))
     | None \<Rightarrow>
         (case newUUID rnd of
            None \<Rightarrow> Some (s, Inl RandFailed)
          | Some mid \<Rightarrow>
              if s_closed s then Some (s, Inl ServiceClosed)
              else
                let s1 = s\<lparr>s_seq := s_seq s + 1\<rparr>;
                    msg = new_message mid (s_seq s1) now req
                in case WriteEnqueue env msg (s_wal s1) of
                     (wal', Some err) \<Rightarrow>
                       Some (s1\<lparr>s_wal := wal', s_seq := s_seq s1 - 1\<rparr>, Inl (WalFailed err))
                   | (wal', None) \<Rightarrow>
                       (case Push (s_queue s1) msg of
                          None \<Rightarrow> None
                        | Some q' \<Rightarrow> Some (s1\<lparr>s_wal := wal', s_queue := q'\<rparr>, Inr msg))))"

definition Dequeue ::
  "go_time \<Rightarrow> append_env \<Rightarrow> QueueService \<Rightarrow> (QueueService \<times> (service_error + Message option)) option" where
  "Dequeue now env s =
    (if s_closed s then Some (s, Inl ServiceClosed)
     else case Pop (s_queue s) now of
       None \<Rightarrow> None
     | Some (None, q1) \<Rightarrow> Some (s\<lparr>s_queue := q1\<rparr>, Inr None)
     | Some (Some msg, q1) \<Rightarrow>
         (case WriteDequeue env (m_ID msg) (s_wal s) of
            (wal', Some err) \<Rightarrow>
              (case Push q1 msg of
                 None \<Rightarrow> None
               | Some q2 \<Rightarrow> Some (s\<lparr>s_queue := q2, s_wal := wal'\<rparr>, Inl (WalFailed err)))
          | (wal', None) \<Rightarrow> Some (s\<lparr>s_queue := q1, s_wal := wal'\<rparr>, Inr (Some msg))))"

section \<open>Inspection and Close\<close>

definition Service_Snapshot ::
  "go_time \<Rightarrow> int \<Rightarrow> QueueService \<Rightarrow> (QueueService \<times> QueueSnapshot) option" where
  "Service_Snapshot now limit s =
    (case Snapshot (s_queue s) now limit of
       None \<Rightarrow> None
     | Some (view, q1) \<Rightarrow>
         Some (s\<lparr>s_queue := q1\<rparr>,
           \<lparr>sn_Mode = Mode q1, sn_Now = now,
            sn_Stats = \<lparr>qs_Total = int (vw_ReadyLen view) + int (vw_DelayedLen view),
                        qs_Available = int (vw_ReadyLen view), qs_Delayed = int (vw_DelayedLen view)\<rparr>,
            sn_Ready = vw_Ready view, sn_Delayed = vw_Delayed view,
            sn_ReadyTruncated = vw_ReadyTruncated view,
            sn_DelayedTruncated = vw_DelayedTruncated view\<rparr>))"

definition Service_WalTail :: "tail_env \<Rightarrow> int \<Rightarrow> QueueService \<Rightarrow> service_error + WalTail" where
  "Service_WalTail env limit s =
    (if s_closed s then Inl ServiceClosed
     else case Tail env limit (s_wal s) of Inl err \<Rightarrow> Inl (WalFailed err) | Inr t \<Rightarrow> Inr t)"

definition Service_Stats :: "go_time \<Rightarrow> QueueService \<Rightarrow> (QueueService \<times> QueueStats) option" where
  "Service_Stats now s =
    (let total = Len (s_queue s)
     in case AvailableLen (s_queue s) now of
          None \<Rightarrow> None
        | Some (available, q1) \<Rightarrow>
            Some (s\<lparr>s_queue := q1\<rparr>,
              \<lparr>qs_Total = int total, qs_Available = int available,
               qs_Delayed = int total - int available\<rparr>))"

definition Service_Close :: "bool \<Rightarrow> QueueService \<Rightarrow> QueueService \<times> service_error option" where
  "Service_Close close_ok s =
    (if s_closed s then (s, None)
     else
       let (wal', err) = Wal.Close close_ok (s_wal s)
       in (s\<lparr>s_closed := True, s_wal := wal'\<rparr>, map_option WalFailed err))"

section \<open>What the service needs of its queue\<close>

text \<open>
  The contract between the service and the queue it recovers into: pushing never fails on a
  well-formed queue, keeps it well-formed, and adds the message unless its ID is present.
\<close>

locale message_store =
  fixes push :: "'q \<Rightarrow> Message \<Rightarrow> 'q option"
    and invar :: "'q \<Rightarrow> bool"
    and messages :: "'q \<Rightarrow> string \<rightharpoonup> Message"
  assumes push_law: "invar q \<Longrightarrow> \<exists>q'. push q m = Some q' \<and> invar q' \<and>
    messages q' = (if messages q (m_ID m) = None then (messages q)(m_ID m \<mapsto> m) else messages q)"
begin

lemma push_list_ok:
  assumes "invar q" "distinct (map m_ID ms)" "\<And>m. m \<in> set ms \<Longrightarrow> messages q (m_ID m) = None"
  shows "\<exists>q'. push_list push q ms = Some q' \<and> invar q' \<and>
    messages q' = messages q ++ map_of (map (\<lambda>m. (m_ID m, m)) ms)"
  using assms
proof (induction ms arbitrary: q)
  case (Cons m ms)
  obtain q1 where q1: "push q m = Some q1" "invar q1" "messages q1 = (messages q)(m_ID m \<mapsto> m)"
    using push_law [OF Cons.prems(1), of m] Cons.prems(3) [of m] by auto
  have "messages q1 (m_ID x) = None" if "x \<in> set ms" for x
  proof -
    have "m_ID x \<in> m_ID ` set ms"
      using that by (rule imageI)
    then have "m_ID x \<noteq> m_ID m"
      using Cons.prems(2) by auto
    then show ?thesis
      using that Cons.prems(3) [of x] q1(3) by simp
  qed
  then obtain q2 where q2: "push_list push q1 ms = Some q2" "invar q2"
      "messages q2 = messages q1 ++ map_of (map (\<lambda>m. (m_ID m, m)) ms)"
    using Cons.IH [OF q1(2)] Cons.prems(2) by auto
  have "map_of (map (\<lambda>m. (m_ID m, m)) ms) (m_ID m) = None"
    using Cons.prems(2) by (auto simp: map_of_eq_None_iff)
  then have "messages q2 = messages q ++ map_of (map (\<lambda>m. (m_ID m, m)) (m # ms))"
    using q2(3) q1(3) by (auto simp: fun_eq_iff map_add_def split: option.split)
  moreover have "push_list push q (m # ms) = Some q2"
    using q1(1) q2(1) by simp
  ultimately show ?case
    using q2(2) by blast
qed simp

end

definition q_messages :: "FrankensteinQueue \<Rightarrow> string \<rightharpoonup> Message" where
  "q_messages q = (\<lambda>i. map_option fst (q_abs q i))"

lemma Push_messages:
  assumes "q_inv q"
  shows "\<exists>q'. Push q msg = Some q' \<and> q_inv q' \<and> Mode q' = Mode q \<and> (matured q t \<longrightarrow> matured q' t) \<and>
    q_messages q' =
      (if q_messages q (m_ID msg) = None then (q_messages q)(m_ID msg \<mapsto> msg) else q_messages q)"
  using Push_ok [OF assms, of msg t] by (fastforce simp: q_messages_def dom_def fun_eq_iff)

definition good_queue :: "QueueMode \<Rightarrow> go_time \<Rightarrow> FrankensteinQueue \<Rightarrow> bool" where
  "good_queue mode t q \<longleftrightarrow> q_inv q \<and> Mode q = mode \<and> matured q t"

interpretation ms: message_store Push "good_queue mode t" q_messages for mode t
  by unfold_locales (use Push_messages in \<open>fastforce simp: good_queue_def\<close>)

section \<open>New IDs\<close>

definition uuid_char :: "char \<Rightarrow> bool" where
  "uuid_char c \<longleftrightarrow> is_hex c \<or> c = CHR ''-''"

lemma hex_byte_simps [simp]: "length (hex_byte b) = 2" "list_all is_hex (hex_byte b)"
proof -
  have "unat b < 256"
    using unsigned_less [of b, where ?'a = nat] by simp
  then have "unat b div 16 < 16"
    by (simp add: div_less_iff_less_mult)
  then show "list_all is_hex (hex_byte b)"
    by (simp add: hex_byte_def)
qed (simp add: hex_byte_def)

lemma hex_bytes_simps [simp]: "length (hex_bytes b) = 2 * length b" "list_all is_hex (hex_bytes b)"
  by (induction b) (simp_all add: hex_bytes_def)

lemma hex_bytes_uuid [simp]: "list_all uuid_char (hex_bytes b)"
  using hex_bytes_simps(2) [of b] by (auto simp: list_all_iff uuid_char_def)

lemma newUUID_ok:
  assumes "length b = 16"
  obtains u where "newUUID (Some b) = Some u" "length u = 36" "list_all uuid_char u"
  using assms by (simp add: newUUID_def Let_def uuid_char_def)

lemma high_nibble: "unat (x :: 8 word) div 16 = unat (drop_bit 4 x)"
  by (simp add: drop_bit_eq_div unat_div_distrib)

lemma version_nibble: "unat ((x AND 0x0F) OR 0x40 :: 8 word) div 16 = 4"
  unfolding high_nibble by (simp add: drop_bit_or drop_bit_and)

lemma low_two_bits: "y AND 3 \<in> {0, 1, 2, 3 :: 8 word}"
proof -
  have "y AND 3 = take_bit 2 y"
    by (simp add: take_bit_eq_mask mask_eq_exp_minus_1)
  moreover have "unat (take_bit 2 y) < 4"
    by (simp add: take_bit_eq_mod unat_mod_distrib)
  ultimately have "unat (y AND 3) \<in> {0, 1, 2, 3}"
    by auto
  then show ?thesis
    by (auto simp: word_unat_eq_iff)
qed

lemma variant_nibble: "unat ((x AND 0x3F) OR 0x80 :: 8 word) div 16 \<in> {8, 9, 10, 11}"
  unfolding high_nibble using low_two_bits [of "drop_bit 4 x"] by (auto simp: drop_bit_or drop_bit_and)

definition uuid_shape :: "string \<Rightarrow> bool" where
  "uuid_shape u \<longleftrightarrow> length u = 36 \<and>
    list_all2 (\<lambda>h c. if h then c = CHR ''-'' else is_hex c) (map (\<lambda>i. i \<in> {8, 13, 18, 23}) [0..<36]) u \<and>
    u ! 14 = CHR ''4'' \<and> u ! 19 \<in> {CHR ''8'', CHR ''9'', CHR ''a'', CHR ''b''}"

lemma hex_small: "hex 4 = CHR ''4''" "hex 8 = CHR ''8''" "hex 9 = CHR ''9''" "hex 10 = CHR ''a''" "hex 11 = CHR ''b''"
  by code_simp+

lemma hex_variant: "n \<in> {8, 9, 10, 11} \<Longrightarrow> hex n \<in> {CHR ''8'', CHR ''9'', CHR ''a'', CHR ''b''}"
  by (auto simp: hex_small)

lemma sixteen:
  assumes "length b = 16"
  obtains b0 b1 b2 b3 b4 b5 b6 b7 b8 b9 ba bb bc bd be bf where
    "b = [b0, b1, b2, b3, b4, b5, b6, b7, b8, b9, ba, bb, bc, bd, be, bf]"
  using assms by (auto simp: numeral_eq_Suc length_Suc_conv)

lemma hex_byte_hex: "is_hex (hex (unat b div 16))" "is_hex (hex (unat b mod 16))" for b :: "8 word"
  using hex_byte_simps(2) [of b] by (simp_all add: hex_byte_def)

lemma newUUID_shape:
  assumes "length b = 16"
  shows "\<exists>u. newUUID (Some b) = Some u \<and> uuid_shape u"
proof -
  obtain b0 b1 b2 b3 b4 b5 b6 b7 b8 b9 ba bb bc bd be bf where
    b: "b = [b0, b1, b2, b3, b4, b5, b6, b7, b8, b9, ba, bb, bc, bd, be, bf]"
    using assms by (rule sixteen)
  define v where "v = (b6 AND 0x0F) OR 0x40"
  define w where "w = (b8 AND 0x3F) OR 0x80"
  have v: "unat v div 16 = 4"
    unfolding v_def by (rule version_nibble)
  have w: "unat w div 16 \<in> {8, 9, 10, 11}"
    unfolding w_def by (rule variant_nibble)
  have "newUUID (Some b) = Some (hex_bytes [b0, b1, b2, b3] @ ''-'' @ hex_bytes [b4, b5] @ ''-'' @
      hex_bytes [v, b7] @ ''-'' @ hex_bytes [w, b9] @ ''-'' @ hex_bytes [ba, bb, bc, bd, be, bf])"
    by (simp add: newUUID_def b v_def w_def)
  moreover have "uuid_shape (hex_bytes [b0, b1, b2, b3] @ ''-'' @ hex_bytes [b4, b5] @ ''-'' @
      hex_bytes [v, b7] @ ''-'' @ hex_bytes [w, b9] @ ''-'' @ hex_bytes [ba, bb, bc, bd, be, bf])"
    using v hex_variant [OF w] hex_small(1) hex_byte_hex(1) [of v]
    by (simp add: uuid_shape_def hex_bytes_def hex_byte_def hex_byte_hex upt_rec)
  ultimately show ?thesis
    by blast
qed
lemma uuid_valid: "list_all uuid_char u \<Longrightarrow> valid_utf8 u"
  by (rule valid_utf8_ascii) (auto simp: list_all_iff uuid_char_def is_hex_def is_digit_def byte_def)

section \<open>Delays\<close>

lemma delay_duration_exact:
  assumes "0 \<le> d" "d \<le> MaxDelaySeconds"
  shows "delay_duration d = d * nanos_per_sec"
proof -
  have "d * nanos_per_sec \<le> MaxDelaySeconds * nanos_per_sec"
    using assms by (intro mult_right_mono) (simp_all add: nanos_per_sec_def)
  then have "d * nanos_per_sec < 2 ^ 63"
    by (simp add: MaxDelaySeconds_def nanos_per_sec_def)
  moreover have "0 \<le> d * nanos_per_sec"
    using assms by (simp add: nanos_per_sec_def)
  ultimately show ?thesis
    unfolding delay_duration_def by (intro signed_take_bit_int_eq_self) simp_all
qed

section \<open>The invariant of the service\<close>

text \<open>
  In every state the log is a sequence of whole records whose live messages are exactly the
  messages in memory, and every live message carries a sequence number of its own that the
  counter has already passed.
\<close>

definition stored_ok :: "(string \<rightharpoonup> Message) \<Rightarrow> uint64 \<Rightarrow> bool" where
  "stored_ok c n \<longleftrightarrow>
    (\<forall>i m. c i = Some m \<longrightarrow> message_valid m \<and> m_ID m = i \<and> length i \<le> 36 \<and> m_Seq m \<le> n) \<and>
    inj_on m_Seq (ran c)"

definition svc_inv :: "QueueMode \<Rightarrow> go_time \<Rightarrow> logEntry list \<Rightarrow> QueueService \<Rightarrow> bool" where
  "svc_inv mode t es s \<longleftrightarrow>
    good_queue mode t (s_queue s) \<and> (w_open (s_wal s) \<longleftrightarrow> \<not> s_closed s) \<and>
    log_of es (w_disk (s_wal s)) \<and> q_messages (s_queue s) = live es \<and>
    stored_ok (live es) (s_seq s)"

text \<open>
  An append is clean when it either succeeds as a whole or fails without leaving bytes behind.
  A request is acceptable when its payload is valid UTF-8 that takes at most 6 MiB as a JSON
  string, which holds of every request the HTTP interface decodes from a body within its limit.
\<close>

definition clean_env :: "append_env \<Rightarrow> bool" where
  "clean_env env \<longleftrightarrow> ae_write_error env = None \<and> ae_sync_ok env \<or> ae_write_error env = Some 0"

definition ok_random :: "random_bytes option \<Rightarrow> bool" where
  "ok_random rnd \<longleftrightarrow> (case rnd of None \<Rightarrow> True | Some b \<Rightarrow> length b = 16)"

definition ok_request :: "EnqueueRequest \<Rightarrow> bool" where
  "ok_request req \<longleftrightarrow> valid_utf8 (req_Payload req) \<and> length (escape (req_Payload req)) \<le> 6 * 2 ^ 20 \<and>
     int64_range (req_Priority req)"

lemma clean_append_error:
  assumes "appendLocked env rec w = (w', Some err)" "clean_env env"
  shows "w_disk w' = w_disk w" "w_open w' = w_open w"
  using assms
  by (auto simp: appendLocked_def clean_env_def Let_def split: if_splits option.splits)

lemma escape_words:
  "escape StatusPending = StatusPending" "escape OP_ENQUEUE = OP_ENQUEUE" "escape OP_DEQUEUE = OP_DEQUEUE"
  by code_simp+

lemma status_pending_length: "length StatusPending = 7" "length OP_ENQUEUE = 7" "length OP_DEQUEUE = 7"
  by (simp_all add: StatusPending_def OP_ENQUEUE_def OP_DEQUEUE_def)

lemma room_enqueue:
  assumes "length mid = 36" "ok_request req"
  shows "room (enqueue_entry (new_message mid sq now req))"
  using assms escape_length [of mid]
  by (simp add: room_def enqueue_entry_def new_message_def ok_request_def zero_entry_def
      entry_range_def int64_range_def maxRecordBytes_def status_pending_length escape_words)

lemma room_dequeue: "length i \<le> 36 \<Longrightarrow> room (dequeue_entry i)"
  using escape_length [of i]
  by (simp add: room_def dequeue_entry_def zero_entry_def entry_range_def int64_range_def
      maxRecordBytes_def status_pending_length escape_words)

lemma apply_live_duplicate:
  assumes "valid_utf8 (m_ID m)" "c (m_ID m) \<noteq> None"
  shows "apply_live (normal_entry (stamped env (enqueue_entry m) w)) c = c"
  using assms
  by (auto simp: apply_live_def enqueue_entry_def stamped_def normal_entry_def zero_entry_def
      ToValidUTF8_valid Let_def)

lemma stored_ok_insert:
  assumes "stored_ok c n" "c (m_ID m) = None" "message_valid m" "length (m_ID m) \<le> 36"
    "m_Seq m = n + 1" "n \<noteq> - 1"
  shows "stored_ok (c(m_ID m \<mapsto> m)) (n + 1)"
proof -
  have less: "n < n + 1"
    using assms(6) by (rule word_less_succ)
  have old: "message_valid m' \<and> m_ID m' = i \<and> length i \<le> 36 \<and> m_Seq m' \<le> n" if "c i = Some m'" for i m'
    using assms(1) that by (simp add: stored_ok_def)
  have inj: "inj_on m_Seq (ran c)"
    using assms(1) by (simp add: stored_ok_def)
  have fresh: "m_Seq m' \<noteq> m_Seq m" if "m' \<in> ran c" for m'
    using that old less assms(5) by (fastforce simp: ran_def)
  have "ran (c(m_ID m \<mapsto> m)) = insert m (ran c)"
    using assms(2) by simp
  moreover have "m_Seq m \<notin> m_Seq ` ran c"
    using fresh by (metis imageE)
  then have "inj_on m_Seq (insert m (ran c))"
    using inj by (auto simp: inj_on_insert)
  ultimately show ?thesis
    using old less assms(3-5) by (auto simp: stored_ok_def split: if_splits dest!: old)
qed

lemma stored_ok_mono: "stored_ok c n \<Longrightarrow> n \<le> k \<Longrightarrow> stored_ok c k"
  unfolding stored_ok_def by (meson order_trans)

lemma stored_ok_delete:
  assumes "stored_ok c n"
  shows "stored_ok (c(i := None)) n"
proof -
  have "ran (c(i := None)) \<subseteq> ran c"
    by (auto simp: ran_def)
  then have "inj_on m_Seq (ran (c(i := None)))"
    using assms inj_on_subset unfolding stored_ok_def by blast
  with assms show ?thesis
    by (simp add: stored_ok_def)
qed

section \<open>Each call keeps the invariant\<close>

definition enqueued_messages :: "(string \<rightharpoonup> Message) \<Rightarrow> Message \<Rightarrow> (string \<rightharpoonup> Message)" where
  "enqueued_messages c m = (if c (m_ID m) = None then c(m_ID m \<mapsto> m) else c)"

lemma push_enqueued:
  assumes "good_queue mode t q"
  shows "\<exists>q'. Push q m = Some q' \<and> good_queue mode t q' \<and>
    q_messages q' = enqueued_messages (q_messages q) m"
  using Push_messages [of q m t] assms by (auto simp: good_queue_def enqueued_messages_def)

lemma new_message_valid:
  assumes "list_all uuid_char mid" "mid \<noteq> []" "ok_request req" "sq \<noteq> 0"
  shows "message_valid (new_message mid sq now req)"
proof -
  have "valid_utf8 mid"
    using assms(1) by (rule uuid_valid)
  then show ?thesis
    using assms ops_valid(3) status_pending_length(1)
    by (auto simp: message_valid_def new_message_def ok_request_def)
qed

lemma succ_nonzero: "n \<noteq> - 1 \<Longrightarrow> n + 1 \<noteq> (0 :: uint64)"
  by (metis add.commute add_eq_0_iff)

lemma live_enqueued:
  assumes "message_valid m"
  shows "live (es @ [stamped env (enqueue_entry m) w]) = enqueued_messages (live es) m"
  using apply_live_enqueue [OF assms] apply_live_duplicate [of m "live es"] assms
  by (auto simp: enqueued_messages_def message_valid_def)

lemma stored_ok_enqueued:
  assumes "stored_ok c n" "message_valid m" "length (m_ID m) \<le> 36" "m_Seq m = n + 1" "n \<noteq> - 1"
  shows "stored_ok (enqueued_messages c m) (n + 1)"
  using stored_ok_insert [OF assms(1) _ assms(2-5)] stored_ok_mono [OF assms(1)] word_less_succ [OF assms(5)]
  by (auto simp: enqueued_messages_def)

text \<open>Writing and pushing one new message.\<close>

lemma enqueue_written:
  assumes inv: "svc_inv mode t es s" and open_s: "\<not> s_closed s" and seq: "s_seq s \<noteq> - 1"
    and m: "m = new_message mid (s_seq s + 1) now req" "list_all uuid_char mid" "length mid = 36" "ok_request req"
    and wr: "WriteEnqueue env m (s_wal s) = (w', None)"
  shows "\<exists>q' e. Push (s_queue s) m = Some q' \<and>
    svc_inv mode t (es @ [e]) (s\<lparr>s_seq := s_seq s + 1, s_wal := w', s_queue := q'\<rparr>) \<and>
    live (es @ [e]) = enqueued_messages (live es) m"
proof -
  note inv' = inv [unfolded svc_inv_def]
  let ?e = "stamped env (enqueue_entry m) (s_wal s)"
  have mid: "m_ID m = mid" "mid \<noteq> []" "m_Seq m = s_seq s + 1"
    using m(1,3) by (auto simp: new_message_def)
  have valid: "message_valid m"
    unfolding m(1) by (rule new_message_valid [OF m(2) mid(2) m(4) succ_nonzero [OF seq]])
  have app: "appendLocked env (enqueue_entry m) (s_wal s) = (w', None)"
    using wr by (simp add: WriteEnqueue_def mid split: if_splits)
  have log: "log_of (es @ [?e]) (w_disk w')"
    using append_extends_log [OF app] inv' room_enqueue [OF m(3,4)] unfolding m(1) by blast
  have live: "live (es @ [?e]) = enqueued_messages (live es) m"
    by (rule live_enqueued [OF valid])
  have gq: "good_queue mode t (s_queue s)" "q_messages (s_queue s) = live es"
    using inv' by blast+
  obtain q' where q': "Push (s_queue s) m = Some q'" "good_queue mode t q'"
      "q_messages q' = enqueued_messages (live es) m"
    using push_enqueued [OF gq(1), of m] unfolding gq(2) by blast
  have "stored_ok (enqueued_messages (live es) m) (s_seq s + 1)"
    using stored_ok_enqueued [OF _ valid _ mid(3) seq, of "live es"] inv' mid m(3) by simp
  moreover have "w_open w'"
    using appendLocked_outcome(1) [OF app] inv' open_s by simp
  ultimately have "svc_inv mode t (es @ [?e]) (s\<lparr>s_seq := s_seq s + 1, s_wal := w', s_queue := q'\<rparr>)"
    using q' log live open_s by (simp add: svc_inv_def)
  then show ?thesis
    using q'(1) live by blast
qed

lemma write_failed:
  assumes "svc_inv mode t es s" "w_disk w' = w_disk (s_wal s)" "w_open w' = w_open (s_wal s)"
    and "good_queue mode t' q'" "q_messages q' = q_messages (s_queue s)"
  shows "svc_inv mode t' es (s\<lparr>s_wal := w', s_queue := q'\<rparr>)"
  using assms by (simp add: svc_inv_def)

lemma WriteEnqueue_error:
  assumes "WriteEnqueue env m w = (w', Some err)" "clean_env env"
  shows "w_disk w' = w_disk w" "w_open w' = w_open w"
  using assms clean_append_error [of env _ w w'] by (auto simp: WriteEnqueue_def split: if_splits)

lemma WriteDequeue_error:
  assumes "WriteDequeue env i w = (w', Some err)" "clean_env env"
  shows "w_disk w' = w_disk w" "w_open w' = w_open w"
  using assms clean_append_error [of env _ w w'] by (auto simp: WriteDequeue_def split: if_splits)

lemma Enqueue_ok:
  assumes inv: "svc_inv mode t es s" and env: "ok_random rnd" "ok_request req" "clean_env env" "s_seq s \<noteq> - 1"
  shows "\<exists>s' r es'. Enqueue rnd now env req s = Some (s', r) \<and> svc_inv mode t es' s' \<and>
    (case r of
       Inl _ \<Rightarrow> es' = es \<and> s_queue s' = s_queue s \<and> s_seq s' = s_seq s \<and> s_closed s' = s_closed s
     | Inr m \<Rightarrow> \<not> s_closed s \<and> s_seq s' = s_seq s + 1 \<and> m_Seq m = s_seq s' \<and>
         live es' = enqueued_messages (live es) m)"
proof (cases "Validate req = None \<and> rnd \<noteq> None \<and> \<not> s_closed s")
  case False
  then show ?thesis
    using inv by (auto simp: Enqueue_def newUUID_def Let_def split: option.split)
next
  case True
  then obtain b where b: "rnd = Some b" "length b = 16"
    using env(1) by (auto simp: ok_random_def)
  obtain u where u: "newUUID (Some b) = Some u" "length u = 36" "list_all uuid_char u"
    using b(2) by (rule newUUID_ok)
  define m where "m = new_message u (s_seq s + 1) now req"
  obtain w' err where w: "WriteEnqueue env m (s_wal s) = (w', err)"
    by force
  show ?thesis
  proof (cases err)
    case None
    then obtain q' e where "Push (s_queue s) m = Some q'"
        "svc_inv mode t (es @ [e]) (s\<lparr>s_seq := s_seq s + 1, s_wal := w', s_queue := q'\<rparr>)"
        "live (es @ [e]) = enqueued_messages (live es) m"
      using enqueue_written [OF inv _ env(4) m_def u(3,2) env(2)] True w by blast
    moreover from this have "Enqueue rnd now env req s =
        Some (s\<lparr>s_seq := s_seq s + 1, s_wal := w', s_queue := q'\<rparr>, Inr m)"
      using True b u w None by (simp add: Enqueue_def Let_def flip: m_def)
    moreover have "m_Seq m = s_seq s + 1"
      by (simp add: m_def new_message_def)
    ultimately show ?thesis
      using True by (auto simp del: live_simps intro!: exI [of _ "es @ [e]"])
  next
    case (Some x)
    then have "svc_inv mode t es (s\<lparr>s_wal := w', s_queue := s_queue s\<rparr>)"
      using write_failed [OF inv] WriteEnqueue_error env(3) w inv by (simp add: svc_inv_def)
    then show ?thesis
      using True b u w Some by (simp add: Enqueue_def Let_def flip: m_def)
  qed
qed

text \<open>
  The documented outcome of taking a message from contents \<open>c\<close>: nothing when no message is visible,
  otherwise the visible message of highest priority, the oldest of its priority in FIFO mode and
  the newest in LIFO mode, and the contents lose exactly that message.
\<close>

definition popped ::
  "QueueMode \<Rightarrow> go_time \<Rightarrow> (string \<rightharpoonup> Message) \<Rightarrow> Message option \<Rightarrow> (string \<rightharpoonup> Message) \<Rightarrow> bool" where
  "popped mode now c r c' \<longleftrightarrow>
    (case r of
       None \<Rightarrow> c' = c \<and> (\<forall>i m. c i = Some m \<longrightarrow> now < m_AvailableAt m)
     | Some m \<Rightarrow> c (m_ID m) = Some m \<and> m_AvailableAt m \<le> now \<and> c' = c(m_ID m := None) \<and>
         (\<forall>i m'. c i = Some m' \<longrightarrow> m_AvailableAt m' \<le> now \<longrightarrow>
            m_Priority m' < m_Priority m \<or> m_Priority m' = m_Priority m \<and>
              (if mode = ModeLIFO then m_Seq m' \<le> m_Seq m else m_Seq m \<le> m_Seq m')))"

lemma Pop_messages:
  assumes "good_queue mode t q" "t \<le> now"
  shows "\<exists>r q'. Pop q now = Some (r, q') \<and> good_queue mode now q' \<and>
    popped mode now (q_messages q) r (q_messages q')"
proof -
  have q: "q_inv q" "Mode q = mode" "matured q t"
    using assms(1) by (simp_all add: good_queue_def)
  obtain r q' where r: "Pop q now = Some (r, q')" "good_queue mode now q'"
      "case r of None \<Rightarrow> visible (q_abs q) now = {} \<and> q_abs q' = q_abs q
       | Some msg \<Rightarrow> (\<exists>ord. q_abs q (m_ID msg) = Some (msg, ord) \<and>
           best mode (visible (q_abs q) now) (msg, ord)) \<and> q_abs q' = (q_abs q)(m_ID msg := None)"
    using Pop_ok [OF q(1,3) assms(2)] q(2) by (auto simp: good_queue_def)
  have vis: "\<exists>ord. (m, ord) \<in> visible (q_abs q) now" if "q_messages q i = Some m" "m_AvailableAt m \<le> now" for i m
    using that by (auto simp: q_messages_def visible_def ran_def)
  show ?thesis
  proof (cases r)
    case None
    then show ?thesis
      using r vis by (force simp: q_messages_def popped_def)
  next
    case (Some m)
    then obtain ord where o: "q_abs q (m_ID m) = Some (m, ord)" "best mode (visible (q_abs q) now) (m, ord)"
        "q_abs q' = (q_abs q)(m_ID m := None)"
      using r(3) by auto
    have "m_AvailableAt m \<le> now"
      using o(2) by (simp add: best_def visible_def)
    moreover have "m_Priority m' < m_Priority m \<or> m_Priority m' = m_Priority m \<and>
        (if mode = ModeLIFO then m_Seq m' \<le> m_Seq m else m_Seq m \<le> m_Seq m')"
      if "q_messages q i = Some m'" "m_AvailableAt m' \<le> now" for i m'
      using vis [OF that] best_priority [OF o(2)] best_seq [OF o(2)] by fastforce
    ultimately show ?thesis
      using r(1,2) o Some by (auto simp: q_messages_def popped_def)
  qed
qed

lemma good_queue_later: "good_queue mode t q \<Longrightarrow> t \<le> t' \<Longrightarrow> good_queue mode t' q"
  using matured_mono by (auto simp: good_queue_def)

lemma svc_inv_later: "svc_inv mode t es s \<Longrightarrow> t \<le> t' \<Longrightarrow> svc_inv mode t' es s"
  using good_queue_later by (auto simp: svc_inv_def)

lemma WriteDequeue_open: "WriteDequeue env i w = (w', None) \<Longrightarrow> w_open w' \<and> w_open w"
  by (auto simp: WriteDequeue_def split: if_splits elim!: appendLocked_ok)

text \<open>The two ends of a dequeue: the tombstone is in the log, or it is not and the message goes back.\<close>

lemma dequeue_written:
  assumes inv: "svc_inv mode t es s" and s: "\<not> s_closed s" and q: "good_queue mode now q"
    and pop: "popped mode now (live es) (Some m) (q_messages q)" and wr: "WriteDequeue env (m_ID m) (s_wal s) = (w', None)"
  shows "\<exists>e. svc_inv mode now (es @ [e]) (s\<lparr>s_queue := q, s_wal := w'\<rparr>) \<and> popped mode now (live es) (Some m) (live (es @ [e]))"
proof -
  note pm = pop [unfolded popped_def option.case]
  have m: "message_valid m" "length (m_ID m) \<le> 36"
    using inv pm by (auto simp: svc_inv_def stored_ok_def)
  obtain e where e: "log_of (es @ [e]) (w_disk w')" "live (es @ [e]) = (live es)(m_ID m := None)"
    using WriteDequeue_durable [OF wr _ _ room_dequeue [OF m(2)]] inv m(1)
    by (auto simp: svc_inv_def message_valid_def simp del: live_simps)
  have "svc_inv mode now (es @ [e]) (s\<lparr>s_queue := q, s_wal := w'\<rparr>)"
    using inv e q pm s WriteDequeue_open [OF wr] stored_ok_delete
    by (simp add: svc_inv_def del: live_simps)
  moreover have "popped mode now (live es) (Some m) (live (es @ [e]))"
    using pop pm e(2) by simp
  ultimately show ?thesis
    by blast
qed

lemma dequeue_restored:
  assumes inv: "svc_inv mode t es s" and q: "good_queue mode now q" and env: "clean_env env"
    and pop: "popped mode now (live es) (Some m) (q_messages q)" and wr: "WriteDequeue env (m_ID m) (s_wal s) = (w', Some x)"
  shows "\<exists>q'. Push q m = Some q' \<and> svc_inv mode now es (s\<lparr>s_queue := q', s_wal := w'\<rparr>)"
proof -
  obtain q2 where q2: "Push q m = Some q2" "good_queue mode now q2" "q_messages q2 = enqueued_messages (q_messages q) m"
    using push_enqueued [OF q, of m] by blast
  have "q_messages q2 = live es"
    using q2(3) pop by (auto simp: popped_def enqueued_messages_def fun_eq_iff)
  then show ?thesis
    using inv q2(1,2) WriteDequeue_error [OF wr env] by (simp add: svc_inv_def)
qed

lemma Dequeue_ok:
  assumes inv: "svc_inv mode t es s" and env: "t \<le> now" "clean_env env"
  shows "\<exists>s' r es'. Dequeue now env s = Some (s', r) \<and> svc_inv mode now es' s' \<and>
    s_seq s' = s_seq s \<and> s_closed s' = s_closed s \<and>
    (case r of
       Inl _ \<Rightarrow> es' = es
     | Inr d \<Rightarrow> \<not> s_closed s \<and> popped mode now (live es) d (live es') \<and> (d = None \<longrightarrow> es' = es))"
proof (cases "s_closed s")
  case True
  then show ?thesis
    using svc_inv_later [OF inv env(1)] by (auto simp: Dequeue_def)
next
  case False
  have gq: "good_queue mode t (s_queue s)" "q_messages (s_queue s) = live es"
    using inv by (simp_all add: svc_inv_def)
  obtain r q1 where r: "Pop (s_queue s) now = Some (r, q1)" "good_queue mode now q1"
      "popped mode now (live es) r (q_messages q1)"
    using Pop_messages [OF gq(1) env(1)] unfolding gq(2) by blast
  show ?thesis
  proof (cases r)
    case None
    then have "svc_inv mode now es (s\<lparr>s_queue := q1\<rparr>)"
      using inv r by (simp add: svc_inv_def popped_def)
    then show ?thesis
      using False r None by (auto simp: Dequeue_def popped_def)
  next
    case (Some m)
    note pop = r(3) [unfolded Some]
    obtain w' err where w: "WriteDequeue env (m_ID m) (s_wal s) = (w', err)"
      by force
    show ?thesis
    proof (cases err)
      case None
      then obtain e where "svc_inv mode now (es @ [e]) (s\<lparr>s_queue := q1, s_wal := w'\<rparr>)"
          "popped mode now (live es) (Some m) (live (es @ [e]))"
        using dequeue_written [OF inv False r(2) pop] w by blast
      moreover have "Dequeue now env s = Some (s\<lparr>s_queue := q1, s_wal := w'\<rparr>, Inr (Some m))"
        using False r(1) \<open>r = Some m\<close> w None by (simp add: Dequeue_def)
      ultimately show ?thesis
        using False by (auto simp del: live_simps intro!: exI [of _ "es @ [e]"])
    next
      case (Some x)
      then obtain q2 where q2: "Push q1 m = Some q2" "svc_inv mode now es (s\<lparr>s_queue := q2, s_wal := w'\<rparr>)"
        using dequeue_restored [OF inv r(2) env(2) pop] w by blast
      then have "Dequeue now env s = Some (s\<lparr>s_queue := q2, s_wal := w'\<rparr>, Inl (WalFailed x))"
        using False r(1) \<open>r = Some m\<close> w Some by (simp add: Dequeue_def)
      then show ?thesis
        using q2(2) by auto
    qed
  qed
qed

text \<open>Inspection changes no contents, and the counts of both calls describe them.\<close>

definition visible_in :: "(string \<rightharpoonup> Message) \<Rightarrow> go_time \<Rightarrow> Message set" where
  "visible_in c now = {m \<in> ran c. m_AvailableAt m \<le> now}"

definition stats_of :: "(string \<rightharpoonup> Message) \<Rightarrow> go_time \<Rightarrow> QueueStats" where
  "stats_of c now =
    \<lparr>qs_Total = int (card (dom c)), qs_Available = int (card (visible_in c now)),
     qs_Delayed = int (card (dom c)) - int (card (visible_in c now))\<rparr>"

lemma dom_q_messages: "dom (q_messages q) = dom (q_abs q)"
  by (auto simp: q_messages_def dom_def)

lemma ran_q_messages: "ran (q_messages q) = fst ` ran (q_abs q)"
  by (force simp: q_messages_def ran_def)

lemma inj_on_stored:
  assumes "q_inv q"
  shows "inj_on fst (ran (q_abs q))"
proof (rule inj_onI)
  fix a b
  assume "a \<in> ran (q_abs q)" "b \<in> ran (q_abs q)" "fst a = fst b"
  then obtain i j where "q_abs q i = Some a" "q_abs q j = Some b"
    by (auto simp: ran_def)
  moreover from this have "i = j"
    using q_abs_key [OF assms] \<open>fst a = fst b\<close> by metis
  ultimately show "a = b"
    by simp
qed

lemma card_visible:
  assumes "q_inv q"
  shows "card (visible (q_abs q) now) = card (visible_in (q_messages q) now)"
proof -
  have "inj_on fst (visible (q_abs q) now)"
    by (rule inj_on_subset [OF inj_on_stored [OF assms]]) (auto simp: visible_def)
  moreover have "fst ` visible (q_abs q) now = visible_in (q_messages q) now"
    by (auto simp: visible_def visible_in_def ran_q_messages image_iff)
  ultimately show ?thesis
    by (metis card_image)
qed

lemma Service_Stats_ok:
  assumes "svc_inv mode t es s" "t \<le> now"
  shows "\<exists>s'. Service_Stats now s = Some (s', stats_of (live es) now) \<and> svc_inv mode now es s' \<and>
    s_wal s' = s_wal s \<and> s_seq s' = s_seq s \<and> s_closed s' = s_closed s"
proof -
  have q: "q_inv (s_queue s)" "Mode (s_queue s) = mode" "matured (s_queue s) t" "q_messages (s_queue s) = live es"
    using assms(1) by (simp_all add: svc_inv_def good_queue_def)
  obtain q' where "AvailableLen (s_queue s) now = Some (card (visible_in (live es) now), q')" "q_inv q'"
      "matured q' now" "q_abs q' = q_abs (s_queue s)" "Mode q' = mode"
    using AvailableLen_ok [OF q(1,3) assms(2)] card_visible [OF q(1), of now] q(2,4) by auto
  moreover from this have "svc_inv mode now es (s\<lparr>s_queue := q'\<rparr>)"
    using assms(1) q(4) by (simp add: svc_inv_def good_queue_def q_messages_def)
  moreover have "Len (s_queue s) = card (dom (live es))"
    using Len_card [OF q(1)] dom_q_messages [of "s_queue s"] q(4) by simp
  ultimately show ?thesis
    by (simp add: Service_Stats_def stats_of_def Let_def)
qed

lemma Service_Snapshot_ok:
  assumes "svc_inv mode t es s" "t \<le> now"
  shows "\<exists>s' sn. Service_Snapshot now limit s = Some (s', sn) \<and> svc_inv mode now es s' \<and>
    s_wal s' = s_wal s \<and> s_seq s' = s_seq s \<and> s_closed s' = s_closed s \<and>
    sn_Mode sn = mode \<and> sn_Now sn = now \<and> sn_Stats sn = stats_of (live es) now"
proof -
  have q: "q_inv (s_queue s)" "Mode (s_queue s) = mode" "matured (s_queue s) t" "q_messages (s_queue s) = live es"
    using assms(1) by (simp_all add: svc_inv_def good_queue_def)
  obtain v q' rs ds where v: "Snapshot (s_queue s) now limit = Some (v, q')" "q_inv q'" "matured q' now"
      "q_abs q' = q_abs (s_queue s)" "Mode q' = mode" "vw_ReadyLen v = length rs"
      "in_order (ready_lt mode) (visible (q_abs (s_queue s)) now) rs"
    using Snapshot_ok [OF q(1,3) assms(2), of limit] q(2) by metis
  have "vw_ReadyLen v = card (visible_in (live es) now)"
    using in_order_card [OF v(7)] v(6) card_visible [OF q(1), of now] q(4) by simp
  moreover have "vw_ReadyLen v + vw_DelayedLen v = card (dom (live es))"
    using Snapshot_total [OF q(1) v(1,2,4)] Len_card [OF q(1)] dom_q_messages [of "s_queue s"] q(4) by simp
  moreover have "svc_inv mode now es (s\<lparr>s_queue := q'\<rparr>)"
    using assms(1) q(4) v by (simp add: svc_inv_def good_queue_def q_messages_def)
  ultimately show ?thesis
    using v(1,5) by (simp add: Service_Snapshot_def stats_of_def flip: of_nat_add)
qed

lemma Service_Snapshot_lists:
  assumes "svc_inv mode t es s" "t \<le> now" "Service_Snapshot now limit s = Some (s', sn)"
  shows "\<exists>rs ds. in_order (ready_lt mode) (visible (q_abs (s_queue s)) now) rs \<and>
    in_order delayed_lt (hidden (q_abs (s_queue s)) now) ds \<and> length rs + length ds = card (dom (live es)) \<and>
    sn_Ready sn = map fst (limited limit rs) \<and> sn_Delayed sn = map fst (limited limit ds)"
proof -
  let ?q = "s_queue s"
  have q: "q_inv ?q" "Mode ?q = mode" "matured ?q t" "q_messages ?q = live es"
    using assms(1) by (simp_all add: svc_inv_def good_queue_def)
  obtain v q' rs ds where v: "Snapshot ?q now limit = Some (v, q')" "q_inv q'" "q_abs q' = q_abs ?q"
      "in_order (ready_lt mode) (visible (q_abs ?q) now) rs" "in_order delayed_lt (hidden (q_abs ?q) now) ds"
      "vw_Ready v = map fst (limited limit rs)" "vw_Delayed v = map fst (limited limit ds)"
      "vw_ReadyLen v = length rs" "vw_DelayedLen v = length ds"
    using Snapshot_ok [OF q(1,3) assms(2), of limit] q(2) by metis
  have "length rs + length ds = card (dom (live es))"
    using Snapshot_total [OF q(1) v(1,2,3)] Len_card [OF q(1)] dom_q_messages [of ?q] q(4) v(8,9) by simp
  moreover have "sn_Ready sn = vw_Ready v" "sn_Delayed sn = vw_Delayed v"
    using assms(3) v(1) by (auto simp: Service_Snapshot_def)
  ultimately show ?thesis
    using v(4-7) by metis
qed

lemma Service_Close_ok:
  assumes "svc_inv mode t es s" "Service_Close close_ok s = (s', err)"
  shows "svc_inv mode t es s' \<and> s_closed s' \<and> s_queue s' = s_queue s"
  using assms
  by (cases "Wal.Close close_ok (s_wal s)")
    (auto simp: Service_Close_def Wal.Close_def svc_inv_def split: if_splits)

section \<open>Starting from a log\<close>

lemma recovered_seq_bound: "m \<in> set ms \<Longrightarrow> m_Seq m \<le> recovered_seq ms"
  unfolding recovered_seq_def
proof (induction ms rule: rev_induct)
  case (snoc a ms)
  then show ?case by (auto intro: order_trans less_imp_le)
qed simp

lemma recovery_of_map:
  assumes "recovery_of c out" "\<And>i m. c i = Some m \<Longrightarrow> m_ID m = i"
  shows "distinct (map m_ID out)" "map_of (map (\<lambda>m. (m_ID m, m)) out) = c"
proof -
  have mem: "m \<in> set out \<longleftrightarrow> c (m_ID m) = Some m" for m
    using assms unfolding recovery_of_def ran_def by auto
  have inj: "inj_on m_ID (set out)"
    using mem by (metis inj_onI option.inject)
  then show dist: "distinct (map m_ID out)"
    using recovery_of_distinct [OF assms(1)] by (simp add: distinct_map)
  show "map_of (map (\<lambda>m. (m_ID m, m)) out) = c"
  proof
    fix i
    show "map_of (map (\<lambda>m. (m_ID m, m)) out) i = c i"
    proof (cases "c i")
      case None
      then show ?thesis
        using mem by (auto simp: map_of_eq_None_iff image_iff)
    next
      case (Some m)
      then have "(i, m) \<in> set (map (\<lambda>m. (m_ID m, m)) out)"
        using assms(2) [OF Some] mem by auto
      moreover have "distinct (map fst (map (\<lambda>m. (m_ID m, m)) out))"
        using dist by (simp add: comp_def)
      ultimately show ?thesis
        using Some map_of_is_SomeI by fastforce
    qed
  qed
qed

lemma stored_ok_restart:
  assumes "stored_ok c n" "recovery_of c out"
  shows "stored_ok c (recovered_seq out)"
  using assms recovered_seq_bound [of _ out] unfolding stored_ok_def recovery_of_def
  by (metis ranI)

lemma NewQueueService_from:
  assumes "Valid mode" "read_ok env" "stored_ok (live es) n"
    and "Recover env \<lparr>w_open = True, w_path = path, w_seq = 0, w_disk = d\<rparr> =
      recovered (replay es fold_init) \<lparr>w_open = True, w_path = path, w_seq = 0, w_disk = d\<rparr>"
  shows "\<exists>s. NewQueueService path mode (Some d) env = Some (Inr s) \<and> good_queue mode t (s_queue s) \<and>
    q_messages (s_queue s) = live es \<and> stored_ok (live es) (s_seq s) \<and> \<not> s_closed s \<and>
    w_open (s_wal s) \<and> w_path (s_wal s) = path \<and> w_disk (s_wal s) = d \<and> w_seq (s_wal s) = max_seq es"
proof -
  define out where "out = SortFunc recover_cmp (map snd (fs_live (replay es fold_init)))"
  have rec: "recovery_of (live es) out"
    unfolding out_def by (rule recovery_of_replay)
  obtain q where q: "NewFrankensteinQueue mode = Inr q"
    using assms(1) by (simp add: NewFrankensteinQueue_def)
  then have "good_queue mode t q" "q_messages q = Map.empty"
    using NewFrankensteinQueue_ok [OF q, of t] by (auto simp: good_queue_def q_messages_def)
  then obtain q' where q': "push_list Push q out = Some q'" "good_queue mode t q'" "q_messages q' = live es"
    using ms.push_list_ok [of mode t q out] recovery_of_map [OF rec live_key [THEN conjunct1]] by auto
  define s where "s = \<lparr>s_queue = q', s_wal = \<lparr>w_open = True, w_path = path, w_seq = max_seq es, w_disk = d\<rparr>,
    s_seq = recovered_seq out, s_closed = False\<rparr>"
  have "NewQueueService path mode (Some d) env = Some (Inr s)"
    using assms(1,4) q q'(1) replay_ok(3) [of es]
    by (simp add: NewQueueService_def NewWAL_def recovered_def s_def flip: out_def)
  then show ?thesis
    using q' stored_ok_restart [OF assms(3) rec] by (auto simp: s_def)
qed

lemma NewQueueService_ok:
  assumes "Valid mode" "read_ok env" "stored_ok (live es) n" "log_of es d"
  shows "\<exists>s. NewQueueService path mode (Some d) env = Some (Inr s) \<and> svc_inv mode t es s \<and> \<not> s_closed s \<and>
    w_disk (s_wal s) = d"
proof -
  have "Recover env \<lparr>w_open = True, w_path = path, w_seq = 0, w_disk = d\<rparr> =
      recovered (replay es fold_init) \<lparr>w_open = True, w_path = path, w_seq = 0, w_disk = d\<rparr>"
    using assms(2,4) by (intro Recover_log) simp_all
  from NewQueueService_from [OF assms(1-3) this, of t] assms(4) show ?thesis
    by (auto simp: svc_inv_def)
qed

lemma finite_live: "finite (dom (live es))"
  using replay_ok(2) [of es] finite_dom_map_of by metis

section \<open>Calls in an arbitrary environment\<close>

text \<open>
  \<open>message_for rnd sq now req m\<close>: the message a request asks for, with the ID made from the random
  bytes, the given sequence number, and the delay counted from the clock reading.
\<close>

definition message_for ::
  "random_bytes option \<Rightarrow> uint64 \<Rightarrow> go_time \<Rightarrow> EnqueueRequest \<Rightarrow> Message \<Rightarrow> bool" where
  "message_for rnd sq now req m \<longleftrightarrow>
    newUUID rnd = Some (m_ID m) \<and> m_Payload m = req_Payload req \<and> m_Priority m = req_Priority req \<and>
    m_Seq m = sq \<and> m_EnqueuedAt m = now \<and>
    m_AvailableAt m = now + req_DelaySeconds req * nanos_per_sec \<and> m_Status m = StatusPending"

lemma message_for_None [simp]: "\<not> message_for None sq now req m"
  by (simp add: message_for_def newUUID_def)

text \<open>
  What a failed log write leaves behind, \<open>c\<close> being the messages the write was to lead to.  Memory,
  sequence counter and closed flag are as before.  The file has gained nothing, a prefix of one
  record's line, or the whole line, by the error; and starting the service again on it succeeds
  and finds the old messages, or \<open>c\<close> when the text of the record is complete.
\<close>

definition failed_write ::
  "string \<Rightarrow> QueueMode \<Rightarrow> read_env \<Rightarrow> QueueService \<Rightarrow> (string \<rightharpoonup> Message) \<Rightarrow> wal_error \<Rightarrow> QueueService \<Rightarrow> bool" where
  "failed_write path mode renv s c err s' \<longleftrightarrow>
    q_messages (s_queue s') = q_messages (s_queue s) \<and> s_seq s' = s_seq s \<and> s_closed s' = s_closed s \<and>
    (\<exists>s''. NewQueueService path mode (Some (w_disk (s_wal s'))) renv = Some (Inr s'') \<and>
       (case err of
          WriteFailed \<Rightarrow> \<exists>e l n. written e l \<and> w_disk (s_wal s') = w_disk (s_wal s) @ take n (l @ [newline]) \<and>
            q_messages (s_queue s'') = (if n < length l then q_messages (s_queue s) else c)
        | SyncFailed \<Rightarrow> \<exists>e l. written e l \<and> w_disk (s_wal s') = w_disk (s_wal s) @ l @ [newline] \<and>
            q_messages (s_queue s'') = c
        | _ \<Rightarrow> err = MarshalFailed \<and> w_disk (s_wal s') = w_disk (s_wal s) \<and>
            q_messages (s_queue s'') = q_messages (s_queue s)))"

lemma restart_finds:
  assumes "Valid mode" "read_ok renv" "stored_ok (live es) n"
    and "\<And>w. w_disk w = d \<Longrightarrow> w_open w \<Longrightarrow> Recover renv w = recovered (replay es fold_init) w"
  shows "\<exists>s''. NewQueueService path mode (Some d) renv = Some (Inr s'') \<and> q_messages (s_queue s'') = live es"
  using NewQueueService_from [OF assms(1-3), of path d] assms(4) by (fastforce simp del: live_simps)

lemma failed_append_write:
  assumes inv: "svc_inv mode t es s" and s: "\<not> s_closed s" and valid: "Valid mode" "read_ok renv"
    and app: "appendLocked env rec (s_wal s) = (w', Some err)" "room rec"
    and c: "c = live (es @ [stamped env rec (s_wal s)])" "stored_ok c k"
    and s': "q_messages (s_queue s') = live es" "s_seq s' = s_seq s" "s_closed s' = s_closed s" "s_wal s' = w'"
  shows "failed_write path mode renv s c err s'"
proof -
  have es: "log_of es (w_disk (s_wal s))" "q_messages (s_queue s) = live es" "stored_ok (live es) (s_seq s)" "w_open (s_wal s)"
    using inv s by (simp_all add: svc_inv_def)
  show ?thesis
    using app(1)
  proof (cases rule: appendLocked_failed)
    case refused
    then obtain s'' where "NewQueueService path mode (Some (w_disk w')) renv = Some (Inr s'')" "q_messages (s_queue s'') = live es"
      using restart_finds [OF valid es(3), of "w_disk w'" path] Recover_log es(1) valid(2) by metis
    then show ?thesis
      using refused es s' by (auto simp: failed_write_def)
  next
    case (partial l n)
    let ?es' = "if n < length l then es else es @ [stamped env rec (s_wal s)]"
    have wr: "written (stamped env rec (s_wal s)) l"
      by (rule room_written [OF room_stamped [OF app(2)] partial(2)])
    have "stored_ok (live ?es') (if n < length l then s_seq s else k)"
      using es(3) c by simp
    then obtain s'' where s'': "NewQueueService path mode (Some (w_disk w')) renv = Some (Inr s'')"
        "q_messages (s_queue s'') = live ?es'"
      using restart_finds [OF valid, of ?es' _ "w_disk w'" path] Recover_partial [OF es(1) wr] partial(3) valid(2) by metis
    have msgs: "q_messages (s_queue s'') = (if n < length l then q_messages (s_queue s) else c)"
      unfolding s''(2) es(2) c(1) by (rule if_distrib)
    show ?thesis
      using partial(4)
    proof (elim disjE conjE)
      assume "err = WriteFailed"
      then show ?thesis
        using s''(1) msgs wr partial(3) s' es(2) unfolding failed_write_def by auto
    next
      assume "err = SyncFailed" "n = Suc (length l)"
      then show ?thesis
        using s''(1) msgs wr partial(3) s' es(2) unfolding failed_write_def by auto
    qed
  qed
qed

lemma enqueue_refused:
  assumes inv: "svc_inv mode t es s" and s: "\<not> s_closed s" "s_seq s \<noteq> - 1" and valid: "Valid mode" "read_ok renv"
    and m: "m = new_message mid (s_seq s + 1) now req" "list_all uuid_char mid" "length mid = 36" "ok_request req"
    and wr: "WriteEnqueue env m (s_wal s) = (w', Some err)"
  shows "failed_write path mode renv s (enqueued_messages (live es) m) err (s\<lparr>s_wal := w'\<rparr>)"
proof -
  have mid: "m_ID m = mid" "mid \<noteq> []" "m_Seq m = s_seq s + 1"
    using m(1,3) by (auto simp: new_message_def)
  have vm: "message_valid m"
    unfolding m(1) by (rule new_message_valid [OF m(2) mid(2) m(4) succ_nonzero [OF s(2)]])
  have app: "appendLocked env (enqueue_entry m) (s_wal s) = (w', Some err)"
    using wr mid by (simp add: WriteEnqueue_def)
  have "live (es @ [stamped env (enqueue_entry m) (s_wal s)]) = enqueued_messages (live es) m"
    by (rule live_enqueued [OF vm])
  moreover have "stored_ok (enqueued_messages (live es) m) (s_seq s + 1)"
    using stored_ok_enqueued [OF _ vm _ mid(3) s(2), of "live es"] inv mid m(3) by (simp add: svc_inv_def)
  moreover have "room (enqueue_entry m)"
    unfolding m(1) by (rule room_enqueue [OF m(3,4)])
  moreover have "q_messages (s_queue (s\<lparr>s_wal := w'\<rparr>)) = live es"
    using inv by (simp add: svc_inv_def)
  ultimately show ?thesis
    using failed_append_write [OF inv s(1) valid app] by simp
qed

lemma Enqueue_any:
  assumes inv: "svc_inv mode t es s" and valid: "Valid mode" "read_ok renv"
    and env: "ok_random rnd" "ok_request req" "s_seq s \<noteq> - 1"
  shows "\<exists>s' r. Enqueue rnd now env req s = Some (s', r) \<and>
    (case r of
       Inr m \<Rightarrow> Validate req = None \<and> \<not> s_closed s \<and> message_for rnd (s_seq s + 1) now req m \<and>
         s_seq s' = s_seq s + 1 \<and> \<not> s_closed s' \<and> (\<exists>es'. svc_inv mode t es' s' \<and> live es' = enqueued_messages (live es) m)
     | Inl (InvalidRequest e) \<Rightarrow> Validate req = Some e \<and> s' = s
     | Inl RandFailed \<Rightarrow> Validate req = None \<and> rnd = None \<and> s' = s
     | Inl ServiceClosed \<Rightarrow> Validate req = None \<and> rnd \<noteq> None \<and> s_closed s \<and> s' = s
     | Inl (WalFailed err) \<Rightarrow> Validate req = None \<and> \<not> s_closed s \<and>
         (\<exists>m. message_for rnd (s_seq s + 1) now req m \<and> failed_write path mode renv s (enqueued_messages (live es) m) err s')
     | Inl (InvalidMode _) \<Rightarrow> False)"
proof (cases "Validate req = None \<and> rnd \<noteq> None \<and> \<not> s_closed s")
  case False
  then show ?thesis
    by (auto simp: Enqueue_def newUUID_def Let_def split: option.split)
next
  case True
  then obtain b where b: "rnd = Some b" "length b = 16"
    using env(1) by (auto simp: ok_random_def)
  obtain u where u: "newUUID (Some b) = Some u" "length u = 36" "list_all uuid_char u"
    using b(2) by (rule newUUID_ok)
  define m where "m = new_message u (s_seq s + 1) now req"
  have "delay_duration (req_DelaySeconds req) = req_DelaySeconds req * nanos_per_sec"
    using True by (intro delay_duration_exact) (simp_all add: Validate_None_iff)
  then have m: "message_for rnd (s_seq s + 1) now req m"
    using b u(1) by (simp add: message_for_def m_def new_message_def)
  obtain w' err where w: "WriteEnqueue env m (s_wal s) = (w', err)"
    by force
  show ?thesis
  proof (cases err)
    case None
    then obtain q' e where q': "Push (s_queue s) m = Some q'"
        "svc_inv mode t (es @ [e]) (s\<lparr>s_seq := s_seq s + 1, s_wal := w', s_queue := q'\<rparr>)"
        "live (es @ [e]) = enqueued_messages (live es) m"
      using enqueue_written [OF inv _ env(3) m_def u(3,2) env(2)] True w by blast
    then have "Enqueue rnd now env req s = Some (s\<lparr>s_seq := s_seq s + 1, s_wal := w', s_queue := q'\<rparr>, Inr m)"
      using True b u w None by (simp add: Enqueue_def Let_def flip: m_def)
    then show ?thesis
      using True m q' by (auto simp del: live_simps)
  next
    case (Some x)
    then have "failed_write path mode renv s (enqueued_messages (live es) m) x (s\<lparr>s_wal := w'\<rparr>)"
      using enqueue_refused [OF inv _ env(3) valid m_def u(3,2) env(2)] True w by simp
    moreover have "Enqueue rnd now env req s = Some (s\<lparr>s_wal := w'\<rparr>, Inl (WalFailed x))"
      using True b u w Some by (simp add: Enqueue_def Let_def flip: m_def)
    ultimately show ?thesis
      using True m by auto
  qed
qed

lemma dequeue_refused:
  assumes inv: "svc_inv mode t es s" and s: "\<not> s_closed s" and valid: "Valid mode" "read_ok renv" and q: "good_queue mode now q"
    and pop: "popped mode now (live es) (Some m) (q_messages q)" and wr: "WriteDequeue env (m_ID m) (s_wal s) = (w', Some err)"
  shows "\<exists>q'. Push q m = Some q' \<and> failed_write path mode renv s (q_messages q) err (s\<lparr>s_queue := q', s_wal := w'\<rparr>)"
proof -
  obtain q2 where q2: "Push q m = Some q2" "q_messages q2 = enqueued_messages (q_messages q) m"
    using push_enqueued [OF q, of m] by blast
  note pm = pop [unfolded popped_def option.case]
  have restored: "q_messages q2 = live es"
    using q2(2) pm by (auto simp: enqueued_messages_def fun_eq_iff)
  have m: "message_valid m" "length (m_ID m) \<le> 36" "m_ID m \<noteq> []" "valid_utf8 (m_ID m)"
    using inv pm by (auto simp: svc_inv_def stored_ok_def message_valid_def)
  have app: "appendLocked env (dequeue_entry (m_ID m)) (s_wal s) = (w', Some err)"
    using wr m(3) by (simp add: WriteDequeue_def)
  have c: "q_messages q = live (es @ [stamped env (dequeue_entry (m_ID m)) (s_wal s)])"
    using apply_live_dequeue [OF m(4,3)] pm by simp
  have "stored_ok (q_messages q) (s_seq s)"
    using stored_ok_delete inv pm by (simp add: svc_inv_def)
  from failed_append_write [OF inv s valid app room_dequeue [OF m(2)] c this] show ?thesis
    using q2(1) restored by simp
qed

lemma Dequeue_any:
  assumes inv: "svc_inv mode t es s" and valid: "Valid mode" "read_ok renv" and now: "t \<le> now"
  shows "\<exists>s' r. Dequeue now env s = Some (s', r) \<and>
    (case r of
       Inr d \<Rightarrow> \<not> s_closed s \<and> \<not> s_closed s' \<and> s_seq s' = s_seq s \<and>
         (\<exists>es'. svc_inv mode now es' s' \<and> popped mode now (live es) d (live es') \<and> (d = None \<longrightarrow> s_wal s' = s_wal s))
     | Inl ServiceClosed \<Rightarrow> s_closed s \<and> s' = s
     | Inl (WalFailed err) \<Rightarrow> \<not> s_closed s \<and>
         (\<exists>m c'. popped mode now (live es) (Some m) c' \<and> failed_write path mode renv s c' err s')
     | Inl _ \<Rightarrow> False)"
proof (cases "s_closed s")
  case True
  then show ?thesis
    by (simp add: Dequeue_def)
next
  case False
  have gq: "good_queue mode t (s_queue s)" "q_messages (s_queue s) = live es"
    using inv by (simp_all add: svc_inv_def)
  obtain r q1 where r: "Pop (s_queue s) now = Some (r, q1)" "good_queue mode now q1"
      "popped mode now (live es) r (q_messages q1)"
    using Pop_messages [OF gq(1) now] unfolding gq(2) by blast
  show ?thesis
  proof (cases r)
    case None
    then have "svc_inv mode now es (s\<lparr>s_queue := q1\<rparr>)" "popped mode now (live es) None (live es)"
      using inv r by (simp_all add: svc_inv_def popped_def)
    then show ?thesis
      using False r(1) None by (auto simp: Dequeue_def)
  next
    case (Some m)
    note pop = r(3) [unfolded Some]
    obtain w' err where w: "WriteDequeue env (m_ID m) (s_wal s) = (w', err)"
      by force
    show ?thesis
    proof (cases err)
      case None
      then obtain e where "svc_inv mode now (es @ [e]) (s\<lparr>s_queue := q1, s_wal := w'\<rparr>)"
          "popped mode now (live es) (Some m) (live (es @ [e]))"
        using dequeue_written [OF inv False r(2) pop] w by blast
      moreover have "Dequeue now env s = Some (s\<lparr>s_queue := q1, s_wal := w'\<rparr>, Inr (Some m))"
        using False r(1) \<open>r = Some m\<close> w None by (simp add: Dequeue_def)
      ultimately show ?thesis
        using False by (auto simp del: live_simps)
    next
      case (Some x)
      then obtain q2 where q2: "Push q1 m = Some q2"
          "failed_write path mode renv s (q_messages q1) x (s\<lparr>s_queue := q2, s_wal := w'\<rparr>)"
        using dequeue_refused [OF inv False valid r(2) pop] w by blast
      then have "Dequeue now env s = Some (s\<lparr>s_queue := q2, s_wal := w'\<rparr>, Inl (WalFailed x))"
        using False r(1) \<open>r = Some m\<close> w Some by (simp add: Dequeue_def)
      then show ?thesis
        using q2(2) pop False by auto
    qed
  qed
qed

section \<open>Draining the service\<close>

text \<open>Consumers that keep calling \<^verbatim>\<open>Dequeue\<close> at one instant until nothing is returned.\<close>

fun drain_service ::
  "go_time \<Rightarrow> append_env list \<Rightarrow> QueueService \<Rightarrow> (QueueService \<times> Message list) option" where
  "drain_service now [] s = Some (s, [])"
| "drain_service now (env # envs) s =
    (case Dequeue now env s of
       None \<Rightarrow> None
     | Some (s', Inr (Some m)) \<Rightarrow>
         (case drain_service now envs s' of None \<Rightarrow> None | Some (s'', ms) \<Rightarrow> Some (s'', m # ms))
     | Some (s', _) \<Rightarrow> Some (s', []))"

definition delivered_before :: "QueueMode \<Rightarrow> Message \<Rightarrow> Message \<Rightarrow> bool" where
  "delivered_before mode a b \<longleftrightarrow> m_Priority b < m_Priority a \<or> m_Priority b = m_Priority a \<and>
     (if mode = ModeLIFO then m_Seq b < m_Seq a else m_Seq a < m_Seq b)"

definition working_env :: "append_env \<Rightarrow> bool" where
  "working_env env \<longleftrightarrow> ae_write_error env = None \<and> ae_sync_ok env \<and> time_ok (ae_now env)"

lemma append_working:
  assumes "appendLocked env rec w = (w', None)"
  shows "working_env env"
proof -
  obtain b where "Marshal (stamped env rec w) = Some b"
    using assms by (rule appendLocked_ok)
  then have "time_ok (ae_now env)"
    by (auto elim!: Marshal_SomeD simp: stamped_def)
  then show ?thesis
    using assms by (auto simp: working_env_def appendLocked_def Let_def split: if_splits option.splits)
qed

lemma Marshal_dequeue: "time_ok (ae_now env) \<Longrightarrow> \<exists>b. Marshal (stamped env (dequeue_entry i) w) = Some b"
  by (simp add: Marshal_def stamped_def dequeue_entry_def zero_entry_def time_MarshalJSON_ok omit_time_def)

lemma WriteDequeue_works:
  assumes "working_env env" "w_open w" "i \<noteq> []"
  shows "\<exists>w'. WriteDequeue env i w = (w', None)"
proof -
  obtain b where "Marshal (stamped env (dequeue_entry i) w) = Some b"
    using Marshal_dequeue [of env i w] assms(1) by (auto simp: working_env_def)
  then show ?thesis
    using appendLocked_succeeds [OF assms(2)] assms by (auto simp: WriteDequeue_def working_env_def)
qed

lemma Dequeue_works:
  assumes inv: "svc_inv mode t es s" and "t \<le> now" "working_env env" "\<not> s_closed s"
  shows "\<exists>s' d es'. Dequeue now env s = Some (s', Inr d) \<and> svc_inv mode now es' s' \<and> \<not> s_closed s' \<and>
    popped mode now (live es) d (live es')"
proof -
  have clean: "clean_env env"
    using assms(3) by (auto simp: working_env_def clean_env_def)
  obtain s' r es' where d: "Dequeue now env s = Some (s', r)" "svc_inv mode now es' s'" "s_closed s' = s_closed s"
      "case r of Inl _ \<Rightarrow> es' = es
       | Inr d \<Rightarrow> \<not> s_closed s \<and> popped mode now (live es) d (live es') \<and> (d = None \<longrightarrow> es' = es)"
    using Dequeue_ok [OF inv assms(2) clean] by blast
  have "\<exists>x. r = Inr x"
  proof (cases r)
    case (Inl err)
    have gq: "good_queue mode t (s_queue s)" "q_messages (s_queue s) = live es" "w_open (s_wal s)"
      using inv assms(4) by (simp_all add: svc_inv_def)
    obtain p q1 where p: "Pop (s_queue s) now = Some (p, q1)" "popped mode now (live es) p (q_messages q1)"
      using Pop_messages [OF gq(1) assms(2)] unfolding gq(2) by blast
    obtain m where m: "p = Some m"
      using d(1) p(1) Inl assms(4) by (cases p) (auto simp: Dequeue_def)
    then have "m_ID m \<noteq> []"
      using p(2) live_key by (auto simp: popped_def)
    then obtain w' where "WriteDequeue env (m_ID m) (s_wal s) = (w', None)"
      using WriteDequeue_works [OF assms(3) gq(3)] by blast
    then show ?thesis
      using d(1) p(1) m assms(4) by (auto simp: Dequeue_def)
  qed simp
  then show ?thesis
    using d assms(4) by auto
qed

lemma WriteEnqueue_works:
  assumes "working_env env" "w_open w" "m_ID m \<noteq> []" "time_ok (m_EnqueuedAt m)" "time_ok (m_AvailableAt m)"
  shows "\<exists>w'. WriteEnqueue env m w = (w', None)"
proof -
  have "\<exists>b. Marshal (stamped env (enqueue_entry m) w) = Some b"
    using assms(1,4,5)
    by (simp add: Marshal_def stamped_def enqueue_entry_def zero_entry_def time_MarshalJSON_ok omit_time_def working_env_def)
  then show ?thesis
    using appendLocked_succeeds [OF assms(2)] assms by (auto simp: WriteEnqueue_def working_env_def)
qed

lemma Enqueue_works:
  assumes inv: "svc_inv mode t es s" and b: "rnd = Some b" "length b = 16" and req: "ok_request req" "Validate req = None"
    and env: "working_env env" and s: "s_seq s \<noteq> - 1" "\<not> s_closed s"
    and now: "time_ok now" "time_ok (now + delay_duration (req_DelaySeconds req))"
    and m: "m = new_message (the (newUUID rnd)) (s_seq s + 1) now req"
  shows "\<exists>s' es'. Enqueue rnd now env req s = Some (s', Inr m) \<and> svc_inv mode t es' s' \<and> \<not> s_closed s' \<and>
    s_seq s' = s_seq s + 1 \<and> live es' = enqueued_messages (live es) m"
proof -
  obtain u where u: "newUUID rnd = Some u" "length u = 36" "list_all uuid_char u"
    using newUUID_ok [OF b(2)] unfolding b(1) by blast
  have m': "m = new_message u (s_seq s + 1) now req"
    using m u(1) by simp
  have "m_ID m \<noteq> []" "time_ok (m_EnqueuedAt m)" "time_ok (m_AvailableAt m)" "w_open (s_wal s)"
    using now m' u(2) inv s(2) by (auto simp: new_message_def svc_inv_def)
  then obtain w' where w: "WriteEnqueue env m (s_wal s) = (w', None)"
    using WriteEnqueue_works [OF env] by blast
  obtain q' e where "Push (s_queue s) m = Some q'"
      "svc_inv mode t (es @ [e]) (s\<lparr>s_seq := s_seq s + 1, s_wal := w', s_queue := q'\<rparr>)"
      "live (es @ [e]) = enqueued_messages (live es) m"
    using enqueue_written [OF inv s(2,1) m' u(3,2) req(1) w] by blast
  moreover from this have "Enqueue rnd now env req s = Some (s\<lparr>s_seq := s_seq s + 1, s_wal := w', s_queue := q'\<rparr>, Inr m)"
    using u(1) req(2) s(2) w m' by (simp add: Enqueue_def Let_def)
  ultimately show ?thesis
    using s(2) by (intro exI [of _ "s\<lparr>s_seq := s_seq s + 1, s_wal := w', s_queue := q'\<rparr>"] exI [of _ "es @ [e]"]) simp
qed

lemma Enqueue_succeeds:
  assumes "svc_inv mode t es s" "ok_random rnd" "ok_request req" "s_seq s \<noteq> - 1"
    and "Validate req = None" "rnd \<noteq> None" "\<not> s_closed s" "working_env env"
    and "time_ok now" "time_ok (now + req_DelaySeconds req * nanos_per_sec)"
  shows "\<exists>s' m. Enqueue rnd now env req s = Some (s', Inr m)"
proof -
  obtain b where b: "rnd = Some b" "length b = 16"
    using assms(2,6) by (auto simp: ok_random_def)
  have "delay_duration (req_DelaySeconds req) = req_DelaySeconds req * nanos_per_sec"
    using assms(5) by (intro delay_duration_exact) (simp_all add: Validate_None_iff)
  then show ?thesis
    using Enqueue_works [OF assms(1) b assms(3,5,8,4,7,9) _ refl] assms(10) by fastforce
qed

lemma popped_delivered_before:
  assumes "popped mode now (live es) (Some m) c'" "live es i = Some m'" "m_AvailableAt m' \<le> now" "m' \<noteq> m" "inj_on m_Seq (ran (live es))"
  shows "delivered_before mode m m'"
proof -
  have "m_Seq m' \<noteq> m_Seq m"
    using assms(1,2,4,5) by (auto simp: popped_def dest!: inj_onD intro: ranI)
  then show ?thesis
    using assms(1-3) by (fastforce simp: popped_def delivered_before_def split: if_splits)
qed

lemma drain_service_ok:
  assumes "svc_inv mode t es s" "t \<le> now" "\<not> s_closed s" "list_all working_env envs"
    and "card (dom (live es)) \<le> length envs" "\<And>i m. live es i = Some m \<Longrightarrow> m_AvailableAt m \<le> now"
  shows "\<exists>s' ms es'. drain_service now envs s = Some (s', ms) \<and> svc_inv mode now es' s' \<and>
    live es' = Map.empty \<and> set ms = ran (live es) \<and> sorted_wrt (delivered_before mode) ms"
  using assms
proof (induction envs arbitrary: t es s)
  case Nil
  then have "live es = Map.empty"
    using finite_live [of es] by simp
  then show ?case
    using svc_inv_later [OF Nil(1,2)] by auto
next
  case (Cons env envs)
  have "working_env env"
    using Cons.prems(4) by simp
  then obtain s1 d es1 where d: "Dequeue now env s = Some (s1, Inr d)" "svc_inv mode now es1 s1" "\<not> s_closed s1"
      "popped mode now (live es) d (live es1)"
    using Dequeue_works [OF Cons.prems(1,2) _ Cons.prems(3)] by blast
  show ?case
  proof (cases d)
    case None
    note p = d(4) [unfolded popped_def None option.case]
    have "live es i = None" for i
      using p Cons.prems(6) by (cases "live es i") (auto simp: not_less [symmetric])
    then have "live es = Map.empty"
      by auto
    then show ?thesis
      using d None p by auto
  next
    case (Some m)
    note p = d(4) [unfolded popped_def Some option.case]
    have card: "card (dom (live es1)) \<le> length envs"
      using p Cons.prems(5) finite_live [of es] by (auto simp: card_Diff_singleton_if)
    have avail: "m_AvailableAt m' \<le> now" if "live es1 i = Some m'" for i m'
      using that p Cons.prems(6) by (auto split: if_splits)
    have "list_all working_env envs"
      using Cons.prems(4) by simp
    then obtain s' ms es' where IH: "drain_service now envs s1 = Some (s', ms)" "svc_inv mode now es' s'"
        "live es' = Map.empty" "set ms = ran (live es1)" "sorted_wrt (delivered_before mode) ms"
      using Cons.IH [OF d(2) order_refl d(3) _ card] avail by blast
    have ran: "ran (live es1) = ran (live es) - {m}"
      using ran_delete [of "live es" "m_ID m" m m_ID] p live_key by auto
    have "inj_on m_Seq (ran (live es))"
      using Cons.prems(1) by (simp add: svc_inv_def stored_ok_def)
    then have "\<forall>m' \<in> set ms. delivered_before mode m m'"
      using popped_delivered_before [OF d(4) [unfolded Some]] Cons.prems(6) unfolding IH(4) ran by (force simp: ran_def)
    moreover have "m \<in> ran (live es)"
      using p by (auto intro: ranI)
    ultimately show ?thesis
      using d(1) Some IH ran by auto
  qed
qed

end
