(* ===== verification/Service_Props.thy ===== *)
theory Service_Props
  imports Service Wal_Props
begin

text \<open>
  The properties of the service: in every reachable state the messages in memory are the live
  messages of the log, so that a restart, also one after a crash in the middle of an append,
  rebuilds the same queue; what each call does on success and on failure; and the arithmetic of
  IDs and delays.
\<close>

section \<open>Runs of the service\<close>

text \<open>
  \<open>service_reach mode path t s\<close>: the service state \<open>s\<close> results from starting on an empty log by calls
  and restarts in any order, with requests as the HTTP interface decodes them, log writes that
  succeed or fail without leaving bytes behind, and a clock that does not run backwards; \<open>t\<close> is
  the latest time a call has carried.  The guard on the counter excludes the wrap-around of the
  64-bit sequence number.  What the next call does when its write fails part of the way or its sync
  fails is part of the contracts of the calls below; in this relation such a call ends the run.
\<close>

inductive service_reach :: "QueueMode \<Rightarrow> string \<Rightarrow> go_time \<Rightarrow> QueueService \<Rightarrow> bool" where
  start: "read_ok env \<Longrightarrow> NewQueueService path mode (Some []) env = Some (Inr s) \<Longrightarrow>
    service_reach mode path t s"
| enqueue: "service_reach mode path t s \<Longrightarrow> ok_random rnd \<Longrightarrow> ok_request req \<Longrightarrow> clean_env env \<Longrightarrow>
    s_seq s \<noteq> - 1 \<Longrightarrow> Enqueue rnd now env req s = Some (s', r) \<Longrightarrow> service_reach mode path t s'"
| dequeue: "service_reach mode path t s \<Longrightarrow> t \<le> now \<Longrightarrow> clean_env env \<Longrightarrow>
    Dequeue now env s = Some (s', d) \<Longrightarrow> service_reach mode path now s'"
| stats: "service_reach mode path t s \<Longrightarrow> t \<le> now \<Longrightarrow> Service_Stats now s = Some (s', x) \<Longrightarrow>
    service_reach mode path now s'"
| snapshot: "service_reach mode path t s \<Longrightarrow> t \<le> now \<Longrightarrow> Service_Snapshot now limit s = Some (s', y) \<Longrightarrow>
    service_reach mode path now s'"
| close: "service_reach mode path t s \<Longrightarrow> Service_Close close_ok s = (s', err) \<Longrightarrow>
    service_reach mode path t s'"
| restart: "service_reach mode path t s \<Longrightarrow> read_ok env \<Longrightarrow>
    NewQueueService path mode (Some (w_disk (s_wal s))) env = Some (Inr s') \<Longrightarrow>
    service_reach mode path t s'"

lemma NewQueueService_mode: "NewQueueService path mode d env = Some (Inr s) \<Longrightarrow> Valid mode"
  by (auto simp: NewQueueService_def split: if_splits)

lemma reach_mode: "service_reach mode path t s \<Longrightarrow> Valid mode"
  by (induction rule: service_reach.induct) (auto dest: NewQueueService_mode)

lemma Enqueue_error_disk:
  assumes "Enqueue rnd now env req s = Some (s', Inl err)" "clean_env env"
  shows "w_disk (s_wal s') = w_disk (s_wal s)"
  using assms WriteEnqueue_error(1) [OF _ assms(2)]
  by (auto simp: Enqueue_def Let_def split: option.splits if_splits prod.splits)

lemma Dequeue_error_disk:
  assumes "Dequeue now env s = Some (s', Inl err)" "clean_env env"
  shows "w_disk (s_wal s') = w_disk (s_wal s)"
  using assms WriteDequeue_error(1) [OF _ assms(2)]
  by (auto simp: Dequeue_def split: option.splits if_splits prod.splits)

lemma delivered_distinct: "sorted_wrt (delivered_before mode) ms \<Longrightarrow> distinct ms"
  by (induction ms) (auto simp: delivered_before_def split: if_splits)

lemma visible_in_card: "finite (dom c) \<Longrightarrow> card (visible_in c now) \<le> card (dom c)"
proof -
  assume "finite (dom c)"
  moreover have "visible_in c now \<subseteq> the ` c ` dom c"
    by (force simp: visible_in_def ran_def image_iff)
  ultimately show ?thesis
    by (metis card_image_le card_mono finite_imageI le_trans)
qed

lemma stored_ok_empty: "stored_ok Map.empty 0"
  by (simp add: stored_ok_def)

lemma service_reach_inv: "service_reach mode path t s \<Longrightarrow> \<exists>es. svc_inv mode t es s"
proof (induction rule: service_reach.induct)
  case (start env path mode s t)
  then show ?case
    using NewQueueService_ok [OF NewQueueService_mode, of path mode "Some []" env s env "[]" 0 "[]" path t]
      stored_ok_empty by auto
next
  case (enqueue mode path t s rnd req env now s' r)
  then obtain es where "svc_inv mode t es s"
    by blast
  from Enqueue_ok [OF this enqueue.hyps(2-5), of now] enqueue.hyps(6) show ?case
    by auto
next
  case (dequeue mode path t s now env s' d)
  then show ?case
    using Dequeue_ok by fastforce
next
  case (stats mode path t s now s' x)
  then show ?case
    using Service_Stats_ok by fastforce
next
  case (snapshot mode path t s now limit s' y)
  then show ?case
    using Service_Snapshot_ok [of mode t _ s now limit] by auto
next
  case (close mode path t s close_ok s' err)
  then show ?case
    using Service_Close_ok by blast
next
  case (restart mode path t s env s')
  then obtain es where es: "svc_inv mode t es s"
    by blast
  then show ?case
    using NewQueueService_ok [OF NewQueueService_mode [OF restart.hyps(3)] restart.hyps(2), of es "s_seq s"
        "w_disk (s_wal s)" path t] restart.hyps(3)
    by (auto simp: svc_inv_def)
qed

section \<open>A concrete run\<close>

definition ex_random :: "8 word list" where
  "ex_random = [1, 2, 3, 4, 5, 6, 0xFF, 8, 0xFF, 10, 11, 12, 13, 14, 15, 0xA0]"

definition ex_request :: EnqueueRequest where
  "ex_request = \<lparr>req_Payload = ''hi'', req_Priority = 5, req_DelaySeconds = 2\<rparr>"

definition ex_service :: QueueService where
  "ex_service = (case NewQueueService ''q.wal'' ModeFIFO (Some []) ex_read of
     Some (Inr s) \<Rightarrow> s
   | _ \<Rightarrow> \<lparr>s_queue = undefined, s_wal = ex_wal, s_seq = 0, s_closed = True\<rparr>)"

lemma ex_service_reach: "service_reach ModeFIFO ''q.wal'' t ex_service"
  "NewQueueService ''q.wal'' ModeFIFO (Some []) ex_read = Some (Inr ex_service)"
proof -
  have "Valid ModeFIFO"
    by (simp add: Valid_def)
  then obtain s where "NewQueueService ''q.wal'' ModeFIFO (Some []) ex_read = Some (Inr s)"
    using NewQueueService_ok [of ModeFIFO ex_read "[]" 0 "[]"] stored_ok_empty by auto
  moreover from this show "NewQueueService ''q.wal'' ModeFIFO (Some []) ex_read = Some (Inr ex_service)"
    by (simp add: ex_service_def)
  ultimately show "service_reach ModeFIFO ''q.wal'' t ex_service"
    using service_reach.start [of ex_read] by simp
qed

lemma ex_request_ok [simp]:
  "ok_request ex_request" "ok_random (Some ex_random)" "clean_env ex_env" "Validate ex_request = None"
proof -
  show "ok_request ex_request"
    by code_simp
  show "ok_random (Some ex_random)" "clean_env ex_env" "Validate ex_request = None"
    by (simp_all add: ok_random_def ex_random_def clean_env_def ex_env_def Validate_def ex_request_def
        MaxDelaySeconds_def)
qed

lemma ex_service_fields [simp]:
  "s_seq ex_service = 0" "\<not> s_closed ex_service" "w_disk (s_wal ex_service) = []"
  "w_open (s_wal ex_service)" "q_messages (s_queue ex_service) = Map.empty" "w_seq (s_wal ex_service) = 0"
proof -
  have "Valid ModeFIFO"
    by (simp add: Valid_def)
  then obtain s where s: "NewQueueService ''q.wal'' ModeFIFO (Some []) ex_read = Some (Inr s)"
      "q_messages (s_queue s) = live []" "\<not> s_closed s" "w_open (s_wal s)" "w_disk (s_wal s) = []"
      "w_seq (s_wal s) = max_seq []"
    using NewQueueService_from [of ModeFIFO ex_read "[]" 0 "''q.wal''" "[]" 0] stored_ok_empty
      Recover_log [of "[]" "\<lparr>w_open = True, w_path = ''q.wal'', w_seq = 0, w_disk = []\<rparr>" ex_read]
    by auto
  moreover have "s = ex_service"
    using s(1) ex_service_reach(2) by simp
  ultimately show "\<not> s_closed ex_service" "w_disk (s_wal ex_service) = []" "w_open (s_wal ex_service)"
    "q_messages (s_queue ex_service) = Map.empty" "w_seq (s_wal ex_service) = 0"
    by simp_all
  show "s_seq ex_service = 0"
    by code_simp
qed

lemma ex_service_seq: "s_seq ex_service \<noteq> - 1"
  by simp

section \<open>Memory and log\<close>

text \<open>
  C18: Memory is always what the log says.  In every reachable state of the service the file
  consists of whole records, and the messages held in memory are exactly the live messages of that
  log, field by field; no two of them share a sequence number, and none has one beyond the
  service's counter.
\<close>

theorem memory_equals_log:
  assumes "service_reach mode path t s"
  shows "\<exists>es. log_of es (w_disk (s_wal s)) \<and> q_messages (s_queue s) = live es \<and>
    (\<forall>i m. live es i = Some m \<longrightarrow> m_ID m = i \<and> 0 < m_Seq m \<and> m_Seq m \<le> s_seq s) \<and>
    inj_on m_Seq (ran (live es)) \<and> Mode (s_queue s) = mode"
proof -
  obtain es where "svc_inv mode t es s"
    using service_reach_inv [OF assms] by blast
  then have "log_of es (w_disk (s_wal s))" "q_messages (s_queue s) = live es" "stored_ok (live es) (s_seq s)"
    "Mode (s_queue s) = mode"
    by (simp_all add: svc_inv_def good_queue_def)
  then show ?thesis
    by (auto simp: stored_ok_def message_valid_def word_neq_0_conv)
qed

theorem memory_equals_log_witness:
  "\<exists>es. log_of es (w_disk (s_wal ex_service)) \<and> q_messages (s_queue ex_service) = live es"
  using memory_equals_log [OF ex_service_reach(1)] by blast

text \<open>
  C19: A restart rebuilds the queue, also after a crash.  From any reachable state, opening the
  service again on the file succeeds and finds exactly the messages that were in memory, even when
  the process died in the middle of appending a further record, so that a proper prefix of that
  record's line stands at the end of the file; the new sequence counter has passed every stored
  message.
\<close>

theorem crash_recovery_restores_queue:
  assumes "service_reach mode path t s" and "written e l" and "n < length l" and "read_ok env"
  shows "\<exists>s'. NewQueueService path mode (Some (w_disk (s_wal s) @ take n l)) env = Some (Inr s') \<and>
    q_messages (s_queue s') = q_messages (s_queue s) \<and> \<not> s_closed s' \<and>
    (\<forall>i m. q_messages (s_queue s') i = Some m \<longrightarrow> m_Seq m \<le> s_seq s')"
proof -
  obtain es where inv: "svc_inv mode t es s"
    using service_reach_inv [OF assms(1)] by blast
  then have es: "log_of es (w_disk (s_wal s))" "q_messages (s_queue s) = live es" "stored_ok (live es) (s_seq s)"
    by (simp_all add: svc_inv_def)
  let ?d = "w_disk (s_wal s) @ take n l"
  have "Recover env \<lparr>w_open = True, w_path = path, w_seq = 0, w_disk = ?d\<rparr> =
      recovered (replay es fold_init) \<lparr>w_open = True, w_path = path, w_seq = 0, w_disk = ?d\<rparr>"
    using assms(4) by (intro Recover_torn [OF es(1) assms(2,3)]) simp_all
  moreover have "Valid mode"
    using assms(1) by (rule reach_mode)
  ultimately show ?thesis
    using NewQueueService_from [OF _ assms(4) es(3)] es(2) by (fastforce simp: stored_ok_def)
qed

theorem crash_recovery_restores_queue_witness:
  "\<exists>s'. NewQueueService ''q.wal'' ModeFIFO (Some (take 30 ex_line)) ex_read = Some (Inr s') \<and>
    q_messages (s_queue s') = Map.empty"
proof -
  have "30 < length ex_line"
    by code_simp
  from crash_recovery_restores_queue [OF ex_service_reach(1) ex_written this ex_ok(1)] show ?thesis
    by auto
qed

section \<open>Calls\<close>

text \<open>
  C20: The contract of \<^verbatim>\<open>Enqueue\<close>, whatever the log's writes and syncs do.  In a reachable state it never
  panics.  On success the returned message carries the request's payload and priority, the ID made
  from the random bytes, the next sequence number, which is above that of every stored message,
  the clock reading, and a visibility time exactly the requested delay later; it is now in memory
  and in the log.  An invalid request, missing random bytes and a closed service are refused, in
  this order, and change nothing at all.  When the log write fails, memory and the sequence counter
  are as before; a record that cannot be encoded leaves the file alone, but a partial write leaves a
  prefix of the record's line and a failed sync the whole line, and a restart on that file finds the
  message that was refused exactly when the text of its record is complete.  With a working log, a
  four-digit year and a valid request on an open service, the call succeeds.
\<close>

theorem enqueue_contract:
  assumes "service_reach mode path t s" and "ok_random rnd" and "ok_request req" and "s_seq s \<noteq> - 1"
    and "read_ok renv"
  shows "\<exists>s' r. Enqueue rnd now env req s = Some (s', r) \<and>
    (case r of
       Inr m \<Rightarrow> Validate req = None \<and> \<not> s_closed s \<and> message_for rnd (s_seq s + 1) now req m \<and>
         s_seq s' = m_Seq m \<and> \<not> s_closed s' \<and>
         (\<forall>i m'. q_messages (s_queue s) i = Some m' \<longrightarrow> m_Seq m' < m_Seq m) \<and>
         q_messages (s_queue s') = enqueued_messages (q_messages (s_queue s)) m \<and>
         (\<exists>es'. log_of es' (w_disk (s_wal s')) \<and> live es' = q_messages (s_queue s'))
     | Inl (InvalidRequest e) \<Rightarrow> Validate req = Some e \<and> s' = s
     | Inl RandFailed \<Rightarrow> Validate req = None \<and> rnd = None \<and> s' = s
     | Inl ServiceClosed \<Rightarrow> Validate req = None \<and> rnd \<noteq> None \<and> s_closed s \<and> s' = s
     | Inl (WalFailed err) \<Rightarrow> Validate req = None \<and> \<not> s_closed s \<and>
         (\<exists>m. message_for rnd (s_seq s + 1) now req m \<and>
            failed_write path mode renv s (enqueued_messages (q_messages (s_queue s)) m) err s')
     | Inl (InvalidMode _) \<Rightarrow> False) \<and>
    (Validate req = None \<and> rnd \<noteq> None \<and> \<not> s_closed s \<and> working_env env \<and> time_ok now \<and>
       time_ok (now + req_DelaySeconds req * nanos_per_sec) \<longrightarrow> (\<exists>m. r = Inr m))"
proof -
  obtain es where inv: "svc_inv mode t es s"
    using service_reach_inv [OF assms(1)] by blast
  then have msgs: "q_messages (s_queue s) = live es"
    by (simp add: svc_inv_def)
  obtain s' r where e: "Enqueue rnd now env req s = Some (s', r)"
      "case r of
         Inr m \<Rightarrow> Validate req = None \<and> \<not> s_closed s \<and> message_for rnd (s_seq s + 1) now req m \<and>
           s_seq s' = s_seq s + 1 \<and> \<not> s_closed s' \<and> (\<exists>es'. svc_inv mode t es' s' \<and> live es' = enqueued_messages (live es) m)
       | Inl (InvalidRequest e) \<Rightarrow> Validate req = Some e \<and> s' = s
       | Inl RandFailed \<Rightarrow> Validate req = None \<and> rnd = None \<and> s' = s
       | Inl ServiceClosed \<Rightarrow> Validate req = None \<and> rnd \<noteq> None \<and> s_closed s \<and> s' = s
       | Inl (WalFailed err) \<Rightarrow> Validate req = None \<and> \<not> s_closed s \<and>
           (\<exists>m. message_for rnd (s_seq s + 1) now req m \<and> failed_write path mode renv s (enqueued_messages (live es) m) err s')
       | Inl (InvalidMode _) \<Rightarrow> False"
    using Enqueue_any [OF inv reach_mode [OF assms(1)] assms(5,2-4), of now env path] by blast
  have works: "\<exists>m. r = Inr m" if "Validate req = None" "rnd \<noteq> None" "\<not> s_closed s" "working_env env" "time_ok now"
    "time_ok (now + req_DelaySeconds req * nanos_per_sec)"
    using Enqueue_succeeds [OF inv assms(2-4) that] e(1) by auto
  have newer: "m_Seq m' < s_seq s + 1" if "live es i = Some m'" for i m'
  proof (rule order.strict_trans1 [OF _ word_less_succ [OF assms(4)]])
    show "m_Seq m' \<le> s_seq s"
      using inv that by (simp add: svc_inv_def stored_ok_def)
  qed
  show ?thesis
  proof (cases r)
    case (Inl err)
    then show ?thesis
      using e works unfolding msgs by (cases err) auto
  next
    case (Inr m)
    then show ?thesis
      using e works newer unfolding msgs by (auto simp: svc_inv_def message_for_def)
  qed
qed

lemma ex_enqueue:
  "(case Enqueue (Some ex_random) ex_time ex_env ex_request ex_service of
      Some (s', Inr m) \<Rightarrow> m_Seq m = 1 \<and> m_ID m = ''01020304-0506-4f08-bf0a-0b0c0d0e0fa0''
    | _ \<Rightarrow> False)"
  by code_simp

lemma ex_enqueue_unsynced:
  "map_option snd (Enqueue (Some ex_random) ex_time (ex_env\<lparr>ae_sync_ok := False\<rparr>) ex_request ex_service) =
     Some (Inl (WalFailed SyncFailed))"
  by code_simp

theorem enqueue_contract_witness:
  "(\<exists>s' m. Enqueue (Some ex_random) ex_time ex_env ex_request ex_service = Some (s', Inr m) \<and>
      m_AvailableAt m = ex_time + 2 * nanos_per_sec \<and> q_messages (s_queue s') = [m_ID m \<mapsto> m] \<and> s_seq s' = 1) \<and>
   (\<exists>s' m. Enqueue (Some ex_random) ex_time (ex_env\<lparr>ae_sync_ok := False\<rparr>) ex_request ex_service =
        Some (s', Inl (WalFailed SyncFailed)) \<and>
      failed_write ''q.wal'' ModeFIFO ex_read ex_service [m_ID m \<mapsto> m] SyncFailed s')"
proof
  note contract = enqueue_contract [OF ex_service_reach(1) ex_request_ok(2,1) ex_service_seq ex_ok(1)]
  show "\<exists>s' m. Enqueue (Some ex_random) ex_time ex_env ex_request ex_service = Some (s', Inr m) \<and>
      m_AvailableAt m = ex_time + 2 * nanos_per_sec \<and> q_messages (s_queue s') = [m_ID m \<mapsto> m] \<and> s_seq s' = 1"
    using contract [of ex_time ex_env] ex_enqueue
    by (auto simp: enqueued_messages_def ex_request_def message_for_def split: option.splits sum.splits)
  show "\<exists>s' m. Enqueue (Some ex_random) ex_time (ex_env\<lparr>ae_sync_ok := False\<rparr>) ex_request ex_service =
        Some (s', Inl (WalFailed SyncFailed)) \<and>
      failed_write ''q.wal'' ModeFIFO ex_read ex_service [m_ID m \<mapsto> m] SyncFailed s'"
    using contract [of ex_time "ex_env\<lparr>ae_sync_ok := False\<rparr>"] ex_enqueue_unsynced
    by (auto simp: enqueued_messages_def)
qed

text \<open>
  C21: The contract of \<^verbatim>\<open>Dequeue\<close>, whatever the log's writes and syncs do.  In a reachable state it never
  panics.  It returns the message the documented rule selects among the stored ones - the visible
  message of highest priority, then the smallest sequence number in FIFO mode and the largest in
  LIFO mode - or nothing when none is visible; a returned message is gone from memory and, durably,
  from the log, so no later call and no restart delivers it again.  A closed service refuses and
  changes nothing.  When the tombstone cannot be written the call fails and memory holds the
  messages it held; but bytes of the tombstone may stand in the file, and a restart on that file
  finds the message the rule selected gone exactly when the text of the tombstone is complete, as
  it is after a failed sync.  With a working log an open service always answers.
\<close>

theorem dequeue_contract:
  assumes "service_reach mode path t s" and "t \<le> now" and "read_ok renv"
  shows "\<exists>s' r. Dequeue now env s = Some (s', r) \<and>
    (case r of
       Inr d \<Rightarrow> \<not> s_closed s \<and> \<not> s_closed s' \<and> s_seq s' = s_seq s \<and>
         popped mode now (q_messages (s_queue s)) d (q_messages (s_queue s')) \<and>
         (\<exists>es'. log_of es' (w_disk (s_wal s')) \<and> live es' = q_messages (s_queue s'))
     | Inl ServiceClosed \<Rightarrow> s_closed s \<and> s' = s
     | Inl (WalFailed err) \<Rightarrow> \<not> s_closed s \<and>
         (\<exists>m c'. popped mode now (q_messages (s_queue s)) (Some m) c' \<and> failed_write path mode renv s c' err s')
     | Inl _ \<Rightarrow> False) \<and>
    (\<not> s_closed s \<and> working_env env \<longrightarrow> (\<exists>d. r = Inr d))"
proof -
  obtain es where inv: "svc_inv mode t es s"
    using service_reach_inv [OF assms(1)] by blast
  then have msgs: "q_messages (s_queue s) = live es"
    by (simp add: svc_inv_def)
  obtain s' r where d: "Dequeue now env s = Some (s', r)"
      "case r of
         Inr d \<Rightarrow> \<not> s_closed s \<and> \<not> s_closed s' \<and> s_seq s' = s_seq s \<and>
           (\<exists>es'. svc_inv mode now es' s' \<and> popped mode now (live es) d (live es') \<and> (d = None \<longrightarrow> s_wal s' = s_wal s))
       | Inl ServiceClosed \<Rightarrow> s_closed s \<and> s' = s
       | Inl (WalFailed err) \<Rightarrow> \<not> s_closed s \<and>
           (\<exists>m c'. popped mode now (live es) (Some m) c' \<and> failed_write path mode renv s c' err s')
       | Inl _ \<Rightarrow> False"
    using Dequeue_any [OF inv reach_mode [OF assms(1)] assms(3,2), of env path] by blast
  have works: "\<exists>d. r = Inr d" if "\<not> s_closed s" "working_env env"
    using Dequeue_works [OF inv assms(2) that(2,1)] d(1) by auto
  show ?thesis
  proof (cases r)
    case (Inl err)
    then show ?thesis
      using d works unfolding msgs by (cases err) auto
  next
    case (Inr x)
    then show ?thesis
      using d works unfolding msgs by (auto simp: svc_inv_def)
  qed
qed

definition ex_service1 :: QueueService where
  "ex_service1 = (case Enqueue (Some ex_random) ex_time ex_env ex_request ex_service of
     Some (s', _) \<Rightarrow> s'
   | None \<Rightarrow> ex_service)"

definition ex_stored :: Message where
  "ex_stored = new_message ''01020304-0506-4f08-bf0a-0b0c0d0e0fa0'' 1 ex_time ex_request"

lemma ex_service1_reach: "service_reach ModeFIFO ''q.wal'' t ex_service1"
  "q_messages (s_queue ex_service1) = [m_ID ex_stored \<mapsto> ex_stored]"
proof -
  obtain s' m where e: "Enqueue (Some ex_random) ex_time ex_env ex_request ex_service = Some (s', Inr m)"
  proof (cases "Enqueue (Some ex_random) ex_time ex_env ex_request ex_service")
    case (Some p)
    then show thesis
      using ex_enqueue that by (cases p; cases "snd p") auto
  qed (use ex_enqueue in simp)
  then have s': "ex_service1 = s'"
    by (simp add: ex_service1_def)
  show "service_reach ModeFIFO ''q.wal'' t ex_service1"
    unfolding s' using service_reach.enqueue [OF ex_service_reach(1) ex_request_ok(2,1,3) _ e] by simp
  have "m_ID m = ''01020304-0506-4f08-bf0a-0b0c0d0e0fa0''"
    using ex_enqueue e by simp
  moreover have "\<exists>u. m = new_message u (s_seq ex_service + 1) ex_time ex_request"
    using e by (auto simp: Enqueue_def Let_def split: option.splits if_splits prod.splits)
  ultimately have m: "m = ex_stored"
    by (auto simp: ex_stored_def new_message_def)
  obtain es where inv: "svc_inv ModeFIFO 0 es ex_service"
    using service_reach_inv [OF ex_service_reach(1)] by blast
  then obtain es' where "svc_inv ModeFIFO 0 es' s'" "live es' = enqueued_messages (live es) m"
    using Enqueue_ok [OF inv ex_request_ok(2,1,3), of ex_time] e by auto
  moreover have "live es = Map.empty"
    using inv ex_service_fields(5) by (simp add: svc_inv_def)
  ultimately show "q_messages (s_queue ex_service1) = [m_ID ex_stored \<mapsto> ex_stored]"
    unfolding s' by (simp add: svc_inv_def enqueued_messages_def m)
qed

lemma ex_dequeue:
  "(case Dequeue (ex_time + 2000000000) ex_env ex_service1 of
      Some (s', Inr (Some m)) \<Rightarrow> m = ex_stored
    | _ \<Rightarrow> False)"
  by code_simp

lemma ex_dequeue_unsynced:
  "map_option snd (Dequeue (ex_time + 2000000000) (ex_env\<lparr>ae_sync_ok := False\<rparr>) ex_service1) =
     Some (Inl (WalFailed SyncFailed))"
  by code_simp

theorem dequeue_contract_witness:
  "(\<exists>s'. Dequeue (ex_time + 2000000000) ex_env ex_service1 = Some (s', Inr (Some ex_stored)) \<and>
      q_messages (s_queue s') = Map.empty) \<and>
   (\<exists>s'. Dequeue (ex_time + 2000000000) (ex_env\<lparr>ae_sync_ok := False\<rparr>) ex_service1 =
        Some (s', Inl (WalFailed SyncFailed)) \<and>
      failed_write ''q.wal'' ModeFIFO ex_read ex_service1 Map.empty SyncFailed s')"
proof
  note contract = dequeue_contract [OF ex_service1_reach(1) order_refl ex_ok(1), of "ex_time + 2000000000"]
  have upd: "[m_ID ex_stored \<mapsto> ex_stored](m_ID ex_stored := None) = Map.empty"
    by simp
  show "\<exists>s'. Dequeue (ex_time + 2000000000) ex_env ex_service1 = Some (s', Inr (Some ex_stored)) \<and>
      q_messages (s_queue s') = Map.empty"
    using contract [of ex_env] ex_dequeue
    by (auto simp: ex_service1_reach(2) popped_def upd split: option.splits sum.splits)
  show "\<exists>s'. Dequeue (ex_time + 2000000000) (ex_env\<lparr>ae_sync_ok := False\<rparr>) ex_service1 =
        Some (s', Inl (WalFailed SyncFailed)) \<and>
      failed_write ''q.wal'' ModeFIFO ex_read ex_service1 Map.empty SyncFailed s'"
    using contract [of "ex_env\<lparr>ae_sync_ok := False\<rparr>"] ex_dequeue_unsynced
    by (auto simp: ex_service1_reach(2) popped_def split: if_splits)
qed

text \<open>
  C22: Inspection is read-only and consistent.  \<^verbatim>\<open>Stats\<close> and \<^verbatim>\<open>Snapshot\<close> never panic, also after
  \<^verbatim>\<open>Close\<close>; taken at the same instant they report the same counts, whatever the limit: the number
  of stored messages, of visible ones, and their difference.  Neither changes the stored messages,
  the log or the sequence counter.
\<close>

theorem inspection_contract:
  assumes "service_reach mode path t s" and "t \<le> now"
  shows "\<exists>s1 st s2 sn. Service_Stats now s = Some (s1, st) \<and> Service_Snapshot now limit s = Some (s2, sn) \<and>
    st = stats_of (q_messages (s_queue s)) now \<and> sn_Stats sn = st \<and> sn_Mode sn = mode \<and> sn_Now sn = now \<and>
    0 \<le> qs_Delayed st \<and>
    (\<forall>s' \<in> {s1, s2}. q_messages (s_queue s') = q_messages (s_queue s) \<and> s_wal s' = s_wal s \<and>
       s_seq s' = s_seq s \<and> s_closed s' = s_closed s)"
proof -
  obtain es where inv: "svc_inv mode t es s"
    using service_reach_inv [OF assms(1)] by blast
  have msgs: "q_messages (s_queue s') = live es" if "svc_inv mode t' es s'" for s' t'
    using that by (simp add: svc_inv_def)
  obtain s1 where s1: "Service_Stats now s = Some (s1, stats_of (live es) now)" "svc_inv mode now es s1"
      "s_wal s1 = s_wal s" "s_seq s1 = s_seq s" "s_closed s1 = s_closed s"
    using Service_Stats_ok [OF inv assms(2)] by blast
  obtain s2 sn where s2: "Service_Snapshot now limit s = Some (s2, sn)" "svc_inv mode now es s2"
      "s_wal s2 = s_wal s" "s_seq s2 = s_seq s" "s_closed s2 = s_closed s"
      "sn_Mode sn = mode" "sn_Now sn = now" "sn_Stats sn = stats_of (live es) now"
    using Service_Snapshot_ok [OF inv assms(2), of limit] by blast
  have "0 \<le> qs_Delayed (stats_of (live es) now)"
    using visible_in_card [of "live es" now] finite_live by (simp add: stats_of_def)
  then show ?thesis
    using s1 s2 msgs [OF inv] msgs [OF s1(2)] msgs [OF s2(2)] by auto
qed

theorem inspection_contract_witness:
  "\<exists>s1 s2 sn. Service_Stats ex_time ex_service1 = Some (s1, stats_of [m_ID ex_stored \<mapsto> ex_stored] ex_time) \<and>
    Service_Snapshot ex_time 10 ex_service1 = Some (s2, sn) \<and>
    sn_Stats sn = stats_of [m_ID ex_stored \<mapsto> ex_stored] ex_time"
  using inspection_contract [OF ex_service1_reach(1) order_refl, of ex_time 10]
  unfolding ex_service1_reach(2) by blast

text \<open>
  C23: A closed service accepts nothing more.  After \<^verbatim>\<open>Close\<close> a valid \<^verbatim>\<open>Enqueue\<close>, a \<^verbatim>\<open>Dequeue\<close> and a
  \<^verbatim>\<open>WalTail\<close> return \<^verbatim>\<open>ErrClosed\<close> and change nothing, whatever the environment does; the messages in
  memory and the file stay as they are; a second \<^verbatim>\<open>Close\<close> does nothing and returns no error.
\<close>

theorem closed_service_refuses:
  assumes "Service_Close close_ok s = (s', err)" and "Validate req = None"
  shows "Enqueue (Some b) now env req s' = Some (s', Inl ServiceClosed) \<and>
    Dequeue now env s' = Some (s', Inl ServiceClosed) \<and>
    Service_WalTail tenv limit s' = Inl ServiceClosed \<and>
    Service_Close close_ok' s' = (s', None) \<and>
    s_queue s' = s_queue s \<and> w_disk (s_wal s') = w_disk (s_wal s)"
proof -
  have "s_closed s'" "s_queue s' = s_queue s" "w_disk (s_wal s') = w_disk (s_wal s)"
    using assms by (auto simp: Service_Close_def Wal.Close_def split: if_splits)
  then show ?thesis
    using assms(2)
    by (simp add: Enqueue_def newUUID_def Let_def Dequeue_def Service_WalTail_def Service_Close_def)
qed

theorem closed_service_refuses_witness:
  "\<exists>s'. fst (Service_Close True ex_service1) = s' \<and>
    Enqueue (Some ex_random) ex_time ex_env ex_request s' = Some (s', Inl ServiceClosed) \<and>
    Dequeue ex_time ex_env s' = Some (s', Inl ServiceClosed)"
  using closed_service_refuses [OF surjective_pairing ex_request_ok(4)] by blast

section \<open>IDs and delays\<close>

text \<open>
  C24: The accepted delays are exact, and the limit is what makes them so.  For a request that
  passes validation the 64-bit product of seconds and nanoseconds does not wrap, so the message
  becomes visible exactly the requested number of seconds after the clock reading and never
  before; without the limit a delay of 9223372037 seconds would wrap to a negative one.
\<close>

theorem validated_delay_is_exact:
  assumes "Validate req = None"
  shows "m_AvailableAt (new_message mid sq now req) = now + req_DelaySeconds req * nanos_per_sec \<and>
    m_EnqueuedAt (new_message mid sq now req) \<le> m_AvailableAt (new_message mid sq now req) \<and>
    delay_duration 9223372037 < 0"
proof (intro conjI)
  have d: "0 \<le> req_DelaySeconds req" "req_DelaySeconds req \<le> MaxDelaySeconds"
    using assms by (simp_all add: Validate_None_iff)
  show "m_AvailableAt (new_message mid sq now req) = now + req_DelaySeconds req * nanos_per_sec"
    using delay_duration_exact [OF d] by (simp add: new_message_def)
  then show "m_EnqueuedAt (new_message mid sq now req) \<le> m_AvailableAt (new_message mid sq now req)"
    using d(1) by (simp add: nanos_per_sec_def) (simp add: new_message_def)
  show "delay_duration 9223372037 < 0"
    by code_simp
qed

theorem validated_delay_is_exact_witness:
  "m_AvailableAt (new_message ''a'' 1 ex_time ex_request) = ex_time + 2 * nanos_per_sec"
  using validated_delay_is_exact [OF ex_request_ok(4)] by (simp add: ex_request_def)

text \<open>
  C25: New IDs are version-4 UUIDs.  From sixteen random bytes \<^verbatim>\<open>newUUID\<close> makes 36 characters in the
  8-4-4-4-12 layout, hexadecimal but for the hyphens at positions 8, 13, 18 and 23, with the
  version digit 4 at position 14 and a variant digit among 8, 9, a and b at position 19; without
  random bytes it fails.
\<close>

theorem new_ids_are_uuids:
  assumes "length b = 16"
  shows "(\<exists>u. newUUID (Some b) = Some u \<and> uuid_shape u) \<and> newUUID None = None"
  using newUUID_shape [OF assms] by (simp add: newUUID_def)

theorem new_ids_are_uuids_witness:
  "\<exists>u. newUUID (Some ex_random) = Some u \<and> uuid_shape u"
  using new_ids_are_uuids [of ex_random] by (simp add: ex_random_def)

section \<open>Delivery\<close>

text \<open>
  C26: Every stored message is delivered, once and in order.  From any reachable open state, at an
  instant when all stored messages are visible, as many successful \<^verbatim>\<open>Dequeue\<close> calls as there are
  messages return all of them, none twice, by descending priority and within a priority by
  ascending sequence number in FIFO mode and descending in LIFO mode; afterwards memory and log
  hold no message.
\<close>

theorem all_messages_are_delivered_in_order:
  assumes "service_reach mode path t s" and "t \<le> now" and "\<not> s_closed s" and "list_all working_env envs"
    and "card (dom (q_messages (s_queue s))) \<le> length envs"
    and "\<And>i m. q_messages (s_queue s) i = Some m \<Longrightarrow> m_AvailableAt m \<le> now"
  shows "\<exists>s' ms es'. drain_service now envs s = Some (s', ms) \<and> set ms = ran (q_messages (s_queue s)) \<and>
    distinct ms \<and> sorted_wrt (delivered_before mode) ms \<and>
    q_messages (s_queue s') = Map.empty \<and> log_of es' (w_disk (s_wal s')) \<and> live es' = Map.empty"
proof -
  obtain es where inv: "svc_inv mode t es s"
    using service_reach_inv [OF assms(1)] by blast
  then have eq: "q_messages (s_queue s) = live es"
    by (simp add: svc_inv_def)
  obtain s' ms es' where d: "drain_service now envs s = Some (s', ms)" "svc_inv mode now es' s'"
      "live es' = Map.empty" "set ms = ran (live es)" "sorted_wrt (delivered_before mode) ms"
    using drain_service_ok [OF inv assms(2-4)] assms(5,6) unfolding eq by blast
  have "distinct ms"
    using d(5) by (rule delivered_distinct)
  then show ?thesis
    using d eq by (auto simp: svc_inv_def)
qed

theorem all_messages_are_delivered_in_order_witness:
  "\<exists>s'. drain_service (ex_time + 2000000000) [ex_env, ex_env] ex_service1 = Some (s', [ex_stored]) \<and>
    q_messages (s_queue s') = Map.empty"
proof -
  let ?now = "ex_time + 2000000000"
  have ok: "working_env ex_env" "\<not> s_closed ex_service1" "m_AvailableAt ex_stored \<le> ?now"
    by code_simp+
  have avail: "m_AvailableAt m \<le> ?now" if "q_messages (s_queue ex_service1) i = Some m" for i m
    using that ok(3) by (auto simp: ex_service1_reach(2) split: if_splits)
  have "list_all working_env [ex_env, ex_env]" "card (dom (q_messages (s_queue ex_service1))) \<le> length [ex_env, ex_env]"
    using ok(1) by (simp_all add: ex_service1_reach(2))
  then obtain s' ms where s': "drain_service ?now [ex_env, ex_env] ex_service1 = Some (s', ms)"
      "set ms = ran (q_messages (s_queue ex_service1))" "distinct ms" "q_messages (s_queue s') = Map.empty"
    using all_messages_are_delivered_in_order [where envs = "[ex_env, ex_env]", OF ex_service1_reach(1) order_refl ok(2)]
      avail by blast
  moreover have "ms = [ex_stored]"
    using s'(2,3) by (cases ms; cases "tl ms") (auto simp: ex_service1_reach(2))
  ultimately show ?thesis
    by blast
qed

end
