(* ===== verification/JsonOut.thy ===== *)
theory JsonOut
  imports JsonStruct
begin

text \<open>
  The encoding side of \<^verbatim>\<open>encoding/json\<close> as the HTTP responses use it: values built from struct fields
  in order, \<^verbatim>\<open>json.RawMessage\<close> through \<^verbatim>\<open>Compact\<close>, and \<^verbatim>\<open>MarshalIndent\<close>, which lays the compact text out
  by running the scanner over it.  Indentation does not change what a text means.
\<close>

section \<open>Values to encode\<close>

datatype jtext =
    TStr bytes
  | TInt int
  | TUint uint64
  | TBool bool
  | TRaw bytes
  | TArr "jtext list"
  | TObj "(bytes \<times> jtext) list"

primrec encode :: "jtext \<Rightarrow> bytes" where
  "encode (TStr s) = json_quote s"
| "encode (TInt i) = Itoa i"
| "encode (TUint w) = dec (unat w)"
| "encode (TBool b) = (if b then ''true'' else ''false'')"
| "encode (TRaw b) = b"
| "encode (TArr xs) = array_text (map encode xs)"
| "encode (TObj ms) = object_text (map (map_prod id encode) ms)"

text \<open>\<^verbatim>\<open>time.Time\<close> is encoded by its \<^verbatim>\<open>MarshalJSON\<close>, which fails for years beyond four digits.\<close>

definition time_text :: "go_time \<Rightarrow> jtext option" where
  "time_text t = map_option TRaw (time_MarshalJSON t)"

section \<open>Scan codes\<close>

text \<open>
  The scanner reports for each byte whether it continues a token (\<^verbatim>\<open>scanContinue\<close>).  At the end of
  the top-level value it reports \<^verbatim>\<open>scanEnd\<close>, between other tokens \<^verbatim>\<open>scanSkipSpace\<close> for white space.
\<close>

definition exp_or_dot :: "char \<Rightarrow> bool" where
  "exp_or_dot c \<longleftrightarrow> c = CHR ''.'' \<or> c = CHR ''e'' \<or> c = CHR ''E''"

definition in_token :: "scan_state \<Rightarrow> char \<Rightarrow> bool" where
  "in_token st c =
    (case st of
       InString _ \<Rightarrow> True
     | InStringEsc _ \<Rightarrow> True
     | InStringEscU _ _ \<Rightarrow> True
     | Lit _ _ \<Rightarrow> True
     | Neg _ \<Rightarrow> True
     | Dot _ \<Rightarrow> True
     | Exp _ \<Rightarrow> True
     | ExpSign _ \<Rightarrow> True
     | Digits1 _ \<Rightarrow> is_digit c \<or> exp_or_dot c
     | Digit0 _ \<Rightarrow> exp_or_dot c
     | Dot0 _ \<Rightarrow> is_digit c \<or> c = CHR ''e'' \<or> c = CHR ''E''
     | Exp0 _ \<Rightarrow> is_digit c
     | _ \<Rightarrow> False)"

definition skips_space :: "scan \<Rightarrow> char \<Rightarrow> bool" where
  "skips_space sc c \<longleftrightarrow> isSpace c \<and> \<not> in_token (fst sc) c \<and> scan_eof sc = None"

section \<open>Indent\<close>

definition newline_indent :: "nat \<Rightarrow> bytes" where
  "newline_indent depth = CHR 0x0A # concat (replicate depth ''  '')"

text \<open>
  One round of the loop for a byte that is not skipped: what is appended, whether an indent is
  now due, and the depth.
\<close>

definition indent_byte :: "char \<Rightarrow> bool \<Rightarrow> bool \<Rightarrow> nat \<Rightarrow> bytes \<times> bool \<times> nat" where
  "indent_byte c token needIndent depth =
    (let closing = (\<not> token \<and> (c = CHR ''}'' \<or> c = CHR '']''));
         due = (needIndent \<and> \<not> closing);
         depth1 = (if due then depth + 1 else depth);
         pre = (if due then newline_indent depth1 else []);
         need1 = (needIndent \<and> closing)
     in if token then (pre @ [c], need1, depth1)
        else if c = CHR ''{'' \<or> c = CHR ''['' then (pre @ [c], True, depth1)
        else if c = CHR '','' then (pre @ c # newline_indent depth1, need1, depth1)
        else if c = CHR '':'' then (pre @ [c, CHR '' ''], need1, depth1)
        else if closing then
          (if need1 then (pre @ [c], False, depth1)
           else (pre @ newline_indent (depth1 - 1) @ [c], need1, depth1 - 1))
        else (pre @ [c], need1, depth1))"

fun indent_loop :: "bytes \<Rightarrow> scan \<Rightarrow> bool \<Rightarrow> nat \<Rightarrow> bytes option" where
  "indent_loop [] sc needIndent depth = (if scan_eof sc = None then None else Some [])"
| "indent_loop (c # src) sc needIndent depth =
    (case step c sc of
       None \<Rightarrow> None
     | Some sc' \<Rightarrow>
         if skips_space sc c then indent_loop src sc' needIndent depth
         else let (out, need', depth') = indent_byte c (in_token (fst sc) c) needIndent depth
              in map_option (\<lambda>rest. out @ rest) (indent_loop src sc' need' depth'))"

definition json_Indent :: "bytes \<Rightarrow> bytes option" where
  "json_Indent src = indent_loop src scan_reset False 0"

definition MarshalIndent :: "jtext option \<Rightarrow> bytes option" where
  "MarshalIndent v = (case v of None \<Rightarrow> None | Some x \<Rightarrow> json_Indent (encode x))"

section \<open>Compact\<close>

text \<open>
  \<^verbatim>\<open>Compact\<close> with HTML escaping, as \<^verbatim>\<open>Marshal\<close> applies it to a \<^verbatim>\<open>json.RawMessage\<close>: white space between
  tokens and after the value is dropped, and \<^verbatim>\<open><\<close>, \<^verbatim>\<open>>\<close>, \<^verbatim>\<open>&\<close>, U+2028 and U+2029 are escaped.  The
  second argument counts the bytes of an escaped rune that are still to be passed over.
\<close>

definition html_char :: "char \<Rightarrow> bool" where
  "html_char c \<longleftrightarrow> c = CHR ''<'' \<or> c = CHR ''>'' \<or> c = CHR ''&''"

definition line_separator :: "bytes \<Rightarrow> bool" where
  "line_separator s =
    (case s of
       a # b # c # _ \<Rightarrow> byte a = 0xE2 \<and> byte b = 0x80 \<and> (byte c = 0xA8 \<or> byte c = 0xA9)
     | _ \<Rightarrow> False)"

fun compact_loop :: "bytes \<Rightarrow> nat \<Rightarrow> scan \<Rightarrow> bytes option" where
  "compact_loop [] n sc = (if scan_eof sc = None then None else Some [])"
| "compact_loop (c # src) n sc =
    (case step c sc of
       None \<Rightarrow> None
     | Some sc' \<Rightarrow>
         if 0 < n then compact_loop src (n - 1) sc'
         else if html_char c then
           map_option (\<lambda>rest. [bs, CHR ''u'', CHR ''0'', CHR ''0'', hex (byte c div 16), hex (byte c mod 16)] @ rest)
             (compact_loop src 0 sc')
         else if line_separator (c # src) then
           map_option (\<lambda>rest. [bs, CHR ''u'', CHR ''2'', CHR ''0'', CHR ''2'', hex (byte (src ! 1) mod 16)] @ rest)
             (compact_loop src 2 sc')
         else if isSpace c \<and> \<not> in_token (fst sc) c then compact_loop src 0 sc'
         else map_option (\<lambda>rest. c # rest) (compact_loop src 0 sc'))"

definition json_Compact :: "bytes \<Rightarrow> bytes option" where
  "json_Compact src = compact_loop src 0 scan_reset"

definition raw_text :: "bytes \<Rightarrow> jtext option" where
  "raw_text b = map_option TRaw (json_Compact b)"

section \<open>What an encoded value denotes\<close>

primrec denote :: "jtext \<Rightarrow> json" where
  "denote (TStr s) = JStr (escape s)"
| "denote (TInt i) = JNum (Itoa i)"
| "denote (TUint w) = JNum (dec (unat w))"
| "denote (TBool b) = JBool b"
| "denote (TRaw b) = the (json_parse b)"
| "denote (TArr xs) = JArr (map denote xs)"
| "denote (TObj ms) = JObj (map (map_prod id denote) ms)"

primrec text_ok :: "jtext \<Rightarrow> nat \<Rightarrow> bool" where
  "text_ok (TStr s) d = True"
| "text_ok (TInt i) d = True"
| "text_ok (TUint w) d = True"
| "text_ok (TBool b) d = True"
| "text_ok (TRaw b) d = (denotes_in d b (the (json_parse b)) \<and> value_head b)"
| "text_ok (TArr xs) d = (0 < d \<and> list_all (\<lambda>p. p (d - 1)) (map text_ok xs))"
| "text_ok (TObj ms) d = (0 < d \<and> list_all (\<lambda>m. plain_name (fst m) \<and> snd m (d - 1)) (map (map_prod id text_ok) ms))"

lemma digit_head: "is_digit c \<Longrightarrow> \<not> isSpace c \<and> c \<noteq> CHR '']''"
  by (auto simp: isSpace_def is_digit_def byte_def)

lemma value_head_dec: "value_head (dec n)"
  using dec_digits [of n] dec_nonempty [of n] digit_head
  by (cases "dec n") (auto simp: value_head_def)

lemma value_head_encode: "text_ok x d \<Longrightarrow> value_head (encode x)"
  using value_head_dec
  by (cases x) (auto simp: json_quote_def object_text_def array_text_def Itoa_def value_head_def isSpace_def
      split: if_splits)

lemma encode_denotes: "text_ok x d \<Longrightarrow> denotes_in d (encode x) (denote x)"
proof (induction x arbitrary: d)
  case (TArr xs)
  then obtain d' where d: "d = Suc d'"
    by (cases d) auto
  have "denotes_in d' (encode x) (denote x) \<and> value_head (encode x)" if "x \<in> set xs" for x
    using that TArr d value_head_encode [of x d'] by (simp add: list_all_iff)
  then have "list_all2 (\<lambda>t v. denotes_in d' t v \<and> value_head t) (map encode xs) (map denote xs)"
    by (simp add: list_all2_conv_all_nth)
  then show ?case
    unfolding d using denotes_array by simp
next
  case (TObj ms)
  then obtain d' where d: "d = Suc d'"
    by (cases d) auto
  have "member_ok_in d' (map_prod id encode m) (map_prod id denote m)" if "m \<in> set ms" for m
  proof -
    have "list_all plain (fst m)" "text_ok (snd m) d'"
      using that TObj.prems d by (auto simp: list_all_iff plain_name_def)
    then show ?thesis
      using that TObj.IH [of m "snd m" d'] by (cases m) (simp add: member_ok_in_def)
  qed
  then have "list_all2 (member_ok_in d') (map (map_prod id encode) ms) (map (map_prod id denote) ms)"
    by (simp add: list_all2_conv_all_nth)
  then show ?case
    unfolding d using denotes_object by simp
qed (auto intro: denotes_in_mono [OF denotes_quote] denotes_in_mono [OF denotes_Itoa]
    denotes_in_mono [OF denotes_dec] denotes_in_mono [OF denotes_literal(1)] denotes_in_mono [OF denotes_literal(2)])

section \<open>Indentation keeps the meaning\<close>

text \<open>
  The scanner on the indented text follows the scanner on the compact one.  The two are in the
  same state, or the first still waits for the end of a number that the second has seen.
\<close>

fun number_state :: "scan_state \<Rightarrow> bytes option" where
  "number_state (Digits1 acc) = Some acc"
| "number_state (Digit0 acc) = Some acc"
| "number_state (Dot0 acc) = Some acc"
| "number_state (Exp0 acc) = Some acc"
| "number_state _ = None"

definition expects_first :: "scan \<Rightarrow> bool" where
  "expects_first sc \<longleftrightarrow> fst sc = BeginStringOrEmpty \<or> fst sc = BeginValueOrEmpty"

definition follows :: "scan \<Rightarrow> scan \<Rightarrow> bool" where
  "follows a b \<longleftrightarrow> a = b \<or> (\<exists>acc. number_state (fst a) = Some acc \<and> b = finish (JNum acc) (snd a))"

lemma number_state_end:
  assumes "number_state (fst a) = Some acc" "\<not> in_token (fst a) c"
  shows "step c a = stateEndValue c (finish (JNum acc) (snd a))"
proof (cases a)
  case (Pair st stk)
  then show ?thesis
    using assms by (cases st) (auto simp: in_token_def exp_or_dot_def state0_def)
qed

lemma finish_token [simp]: "\<not> in_token (fst (finish v stk)) c" "\<not> expects_first (finish v stk)"
  "number_state (fst (finish v stk)) = None"
  by (cases "(v, stk)" rule: finish.cases; simp add: in_token_def expects_first_def)+

lemma finish_not_first [simp]: "fst (finish v stk) \<noteq> BeginStringOrEmpty" "fst (finish v stk) \<noteq> BeginValueOrEmpty"
  "fst (finish v stk) \<noteq> BeginString" "fst (finish v stk) \<noteq> BeginValue"
  by (cases "(v, stk)" rule: finish.cases; simp)+

lemma finish_space: "isSpace c \<Longrightarrow> step c (finish v stk) = Some (finish v stk)"
  by (cases "(v, stk)" rule: finish.cases) auto

lemma finish_rejects:
  assumes "is_digit c \<or> exp_or_dot c"
  shows "step c (finish v stk) = None"
proof -
  have "\<not> isSpace c" "c \<noteq> CHR '':''" "c \<noteq> CHR '',''" "c \<noteq> CHR ''}''" "c \<noteq> CHR '']''"
    using assms by (auto simp: isSpace_def exp_or_dot_def is_digit_def byte_def)
  then show ?thesis
    by (cases "(v, stk)" rule: finish.cases) auto
qed

lemma number_token: "number_state st = Some acc \<Longrightarrow> in_token st c \<Longrightarrow> is_digit c \<or> exp_or_dot c"
  by (cases st) (auto simp: in_token_def exp_or_dot_def)

lemma follows_refl [simp]: "follows a a"
  by (simp add: follows_def)

lemma follows_step:
  assumes "follows a b" "step c b = Some b'"
  shows "step c a = Some b'" "in_token (fst a) c = in_token (fst b) c"
proof -
  consider "a = b" | acc where "number_state (fst a) = Some acc" "b = finish (JNum acc) (snd a)"
    using assms(1) by (auto simp: follows_def)
  then have "step c a = Some b' \<and> in_token (fst a) c = in_token (fst b) c"
  proof cases
    case 2
    then have "\<not> in_token (fst a) c"
      using number_token finish_rejects assms(2) by fastforce
    then show ?thesis
      using 2 number_state_end assms(2) by (simp add: step_after_finish)
  qed (use assms(2) in simp)
  then show "step c a = Some b'" "in_token (fst a) c = in_token (fst b) c"
    by simp_all
qed

lemma follows_eof: "follows a b \<Longrightarrow> scan_eof a = scan_eof b"
proof -
  assume "follows a b"
  then consider "a = b" | acc where "number_state (fst a) = Some acc" "b = finish (JNum acc) (snd a)"
    by (auto simp: follows_def)
  then show ?thesis
  proof cases
    case 2
    then have "\<not> in_token (fst a) (CHR '' '')"
      using number_token [of "fst a" acc "CHR '' ''"] by (auto simp: exp_or_dot_def)
    then have "step (CHR '' '') a = step (CHR '' '') b"
      using 2 number_state_end by (simp add: step_after_finish)
    then show ?thesis
      by (simp add: scan_eof_def)
  qed simp
qed

text \<open>White space between tokens changes no state, but that it ends a number.\<close>

lemma stateEndValue_space: "isSpace c \<Longrightarrow> stateEndValue c (EndValue, stk) = Some b \<Longrightarrow> b = (EndValue, stk)"
  by (cases stk) auto

lemma step_space:
  assumes "isSpace c" "\<not> in_token (fst b) c" "step c b = Some b'"
  shows "follows b b'" "number_state (fst b) = None \<Longrightarrow> b' = b" "expects_first b' = expects_first b"
proof -
  have digit: "\<not> is_digit c"
    using assms(1) digit_head by blast
  show "number_state (fst b) = None \<Longrightarrow> b' = b"
    using assms digit
    by (cases "(c, b)" rule: step.cases)
      (auto simp: in_token_def stateBeginValue_def stateBeginString_def dest: stateEndValue_space
        split: if_splits list.splits)
  moreover have "follows b b'" "\<not> expects_first b" "\<not> expects_first b'" if "number_state (fst b) = Some acc" for acc
  proof -
    have "b' = finish (JNum acc) (snd b)"
      using number_state_end [OF that assms(2)] assms(1,3) finish_space [of c "JNum acc" "snd b"]
      by (simp add: step_after_finish)
    with that show "follows b b'" "\<not> expects_first b" "\<not> expects_first b'"
      using finish_token(2) [of "JNum acc" "snd b"] by (auto simp: follows_def expects_first_def)
  qed
  ultimately show "follows b b'" "expects_first b' = expects_first b"
    by (cases "number_state (fst b)"; auto)+
qed

definition waits :: "scan \<Rightarrow> bool" where
  "waits sc \<longleftrightarrow> fst sc = BeginString \<or> fst sc = BeginValue \<or> expects_first sc"

lemma run_spaces_waits: "list_all isSpace ws \<Longrightarrow> waits sc \<Longrightarrow> run ws sc = Some sc"
  by (induction ws; cases sc)
    (auto simp: waits_def expects_first_def stateBeginValue_def stateBeginString_def)

lemma run_spaces_finish: "list_all isSpace ws \<Longrightarrow> run ws (finish v stk) = Some (finish v stk)"
  by (induction ws) (simp_all add: finish_space)

lemma newline_indent_spaces [simp]: "list_all isSpace (newline_indent n)"
  by (induction n) (simp_all add: newline_indent_def isSpace_def)

text \<open>What a byte between tokens can do.\<close>

definition ended :: "scan \<Rightarrow> bool" where
  "ended sc \<longleftrightarrow> (\<exists>v stk. sc = finish v stk) \<or> (\<exists>f stk. sc = (EndValue, f # stk)) \<or> (\<exists>v stk. sc = (EndTop v, stk))"

lemma ended_finish [simp]: "ended (finish v stk)"
  by (auto simp: ended_def)

lemma between_tokens:
  assumes "step c b = Some b'" "\<not> in_token (fst b) c"
  obtains (space) "isSpace c" "waits b" "b' = b"
  | (opens) "stateBeginValue c (snd b) = Some b'" "\<not> isSpace c" "waits b"
  | (quotes) "c = dq" "b' = (InString [], snd b)" "waits b"
  | (empty) v stk where "expects_first b" "c = CHR ''}'' \<or> c = CHR '']''" "b' = finish v stk"
  | (ended) e where "stateEndValue c e = Some b'" "ended e" "follows b e" "\<not> waits b"
proof (cases "number_state (fst b)")
  case (Some acc)
  then have "\<not> waits b"
    by (auto simp: waits_def expects_first_def)
  then show ?thesis
    using ended [of "finish (JNum acc) (snd b)"] number_state_end [OF Some assms(2)] assms(1) Some
    by (simp add: follows_def)
next
  case None
  obtain st stk where b: "b = (st, stk)"
    by force
  consider "st = BeginValue" | "st = BeginString" | "st = BeginValueOrEmpty" | "st = BeginStringOrEmpty"
    | "st = EndValue" | v where "st = EndTop v"
    using None assms(2) b by (cases st) (auto simp: in_token_def)
  then show ?thesis
  proof cases
    case 1
    then show ?thesis
      using space opens assms(1) b by (cases "isSpace c") (auto simp: waits_def stateBeginValue_def)
  next
    case 2
    then show ?thesis
      using space quotes assms(1) b by (auto simp: waits_def stateBeginString_def split: if_splits)
  next
    case 3
    show ?thesis
    proof (cases "isSpace c")
      case True
      then show ?thesis
        using 3 space assms(1) b by (auto simp: waits_def expects_first_def)
    next
      case False
      show ?thesis
      proof (cases "c = CHR '']''")
        case True
        then obtain vs stk' where "b' = finish (JArr vs) stk'"
          using False 3 assms(1) b by (cases stk) (auto split: frame.splits)
        then show ?thesis
          using 3 True empty b by (auto simp: expects_first_def)
      next
        case neq: False
        then show ?thesis
          using False 3 opens assms(1) b by (auto simp: waits_def expects_first_def)
      qed
    qed
  next
    case 4
    then show ?thesis
      using space quotes empty assms(1) b
      by (auto simp: waits_def expects_first_def stateBeginString_def split: if_splits list.splits frame.splits)
  next
    case 5
    then obtain f stk' where "stk = f # stk'"
      using assms(1) b by (cases stk) auto
    then show ?thesis
      using 5 ended [of b] assms(1) b by (auto simp: ended_def waits_def expects_first_def)
  next
    case (6 v)
    then show ?thesis
      using ended [of b] assms(1) b by (auto simp: ended_def waits_def expects_first_def)
  qed
qed

lemma end_byte:
  assumes "stateEndValue c e = Some b'" "ended e"
  shows "c \<noteq> CHR ''{''" "c \<noteq> CHR ''[''"
    "c = CHR '','' \<or> c = CHR '':'' \<Longrightarrow> waits b'"
    "\<not> expects_first b'"
  using assms
  by (auto simp: ended_def waits_def expects_first_def isSpace_def elim!: stateEndValue.elims
      split: if_splits frame.splits)

lemma step_token: "step c b = Some b' \<Longrightarrow> in_token (fst b) c \<Longrightarrow> \<not> expects_first b' \<and> \<not> expects_first b"
  by (cases "(c, b)" rule: step.cases)
    (auto simp: in_token_def expects_first_def state0_def stateESign_def exp_or_dot_def
      split: if_splits nat.splits list.splits)

lemma begin_value_rejects:
  "stateBeginValue (CHR '','') stk = None" "stateBeginValue (CHR '':'') stk = None"
  "stateBeginValue (CHR ''}'') stk = None" "stateBeginValue (CHR '']'') stk = None"
  by (simp_all add: stateBeginValue_def isSpace_def is_digit_def byte_def)

lemma begin_value_first:
  assumes "stateBeginValue c stk = Some b'" "\<not> isSpace c"
  shows "expects_first b' = (c = CHR ''{'' \<or> c = CHR ''['')"
    "c \<noteq> CHR '',''" "c \<noteq> CHR '':''" "c \<noteq> CHR ''}''" "c \<noteq> CHR '']''"
proof -
  show "expects_first b' = (c = CHR ''{'' \<or> c = CHR ''['')"
  proof (cases "c = CHR ''{'' \<or> c = CHR ''[''")
    case True
    then show ?thesis
      using assms by (auto simp: stateBeginValue_def expects_first_def pushParseState_def split: if_splits)
  next
    case False
    then have "fst b' \<noteq> BeginStringOrEmpty \<and> fst b' \<noteq> BeginValueOrEmpty"
      using assms unfolding stateBeginValue_def by (simp split: if_split_asm) fastforce+
    then show ?thesis
      using False by (simp add: expects_first_def)
  qed
  show "c \<noteq> CHR '',''" "c \<noteq> CHR '':''" "c \<noteq> CHR ''}''" "c \<noteq> CHR '']''"
    using assms(1) begin_value_rejects by fastforce+
qed

lemma follows_waits: "follows a b \<Longrightarrow> waits b \<Longrightarrow> a = b"
  by (auto simp: follows_def waits_def expects_first_def)

lemma waits_eof: "waits b \<Longrightarrow> scan_eof b = None"
  by (cases b) (auto simp: waits_def expects_first_def scan_eof_def stateBeginValue_def
      stateBeginString_def isSpace_def)

lemma follows_ended: "follows a b \<Longrightarrow> follows b e \<Longrightarrow> ended e \<Longrightarrow> follows a e"
  by (auto simp: follows_def)

lemma ended_step: "ended e \<Longrightarrow> step c e = stateEndValue c e"
  by (auto simp: ended_def step_after_finish)

lemma ended_space: "ended e \<Longrightarrow> isSpace c \<Longrightarrow> step c e = Some e"
  by (auto simp: ended_def finish_space)

lemma run_spaces_ended: "list_all isSpace ws \<Longrightarrow> ended e \<Longrightarrow> run ws e = Some e"
  by (induction ws) (simp_all add: ended_space)

lemma space_before_end:
  assumes "follows a e" "ended e"
  shows "run (newline_indent n) a = Some e"
proof -
  have "isSpace (CHR 0x0A)"
    by (simp add: isSpace_def)
  then have "step (CHR 0x0A) a = Some e"
    using follows_step(1) [OF assms(1)] ended_space [OF assms(2)] by blast
  moreover have "newline_indent n = CHR 0x0A # tl (newline_indent n)" "list_all isSpace (tl (newline_indent n))"
    using newline_indent_spaces [of n] by (simp_all add: newline_indent_def)
  ultimately show ?thesis
    using run_spaces_ended [OF _ assms(2)] by (metis option.case(2) run.simps(2))
qed

lemma indent_byte_ok:
  assumes "step c b = Some b'" "\<not> skips_space b c" "follows a b"
    and "indent_byte c (in_token (fst b) c) (expects_first b) depth = (out, need, depth')"
  shows "run out a = Some b' \<and> need = expects_first b'"
proof (cases "in_token (fst b) c")
  case True
  then show ?thesis
    using step_token [OF assms(1) True] follows_step(1) [OF assms(3,1)] assms(4)
    by (auto simp: indent_byte_def)
next
  case False
  note a = follows_step(1) [OF assms(3,1)]
  from assms(1) False show ?thesis
  proof (cases rule: between_tokens)
    case space
    then show ?thesis
      using assms(2) False waits_eof by (simp add: skips_space_def)
  next
    case opens
    then have "a = b" "run (newline_indent n) b = Some b" for n
      using follows_waits [OF assms(3)] run_spaces_waits by simp_all
    then show ?thesis
      using opens begin_value_first [OF opens(1,2)] False a assms(4)
      by (auto simp: indent_byte_def run_append Let_def split: if_splits)
  next
    case quotes
    then have "a = b" "run (newline_indent n) b = Some b" for n
      using follows_waits [OF assms(3)] run_spaces_waits by simp_all
    then show ?thesis
      using quotes False a assms(4)
      by (auto simp: indent_byte_def run_append Let_def expects_first_def split: if_splits)
  next
    case (empty v stk)
    then show ?thesis
      using a False assms(4) by (auto simp: indent_byte_def Let_def)
  next
    case (ended e)
    then have first: "\<not> expects_first b"
      by (auto simp: waits_def)
    note eb = end_byte [OF ended(1,2)]
    have post: "waits b' \<Longrightarrow> run (newline_indent n) b' = Some b'" "waits b' \<Longrightarrow> run '' '' b' = Some b'" for n
      using run_spaces_waits [of "newline_indent n" b'] run_spaces_waits [of "'' ''" b']
      by (simp_all add: isSpace_def del: run.simps)
    have pre: "run (newline_indent n @ [c]) a = Some b'" for n
      using space_before_end [OF follows_ended [OF assms(3) ended(3,2)] ended(2)] ended_step [OF ended(2)] ended(1)
      by (simp add: run_append)
    show ?thesis
      using a eb first False assms(4) pre post
      by (auto simp: indent_byte_def Let_def run_append split: if_splits)
  qed
qed

lemma indent_loop_follows:
  assumes "indent_loop s b (expects_first b) depth = Some out" "follows a b"
  shows "\<exists>a' b'. run out a = Some a' \<and> run s b = Some b' \<and> follows a' b' \<and> scan_eof b' \<noteq> None"
  using assms
proof (induction s arbitrary: a b depth out)
  case Nil
  then have "scan_eof b \<noteq> None" "out = []"
    by (auto split: if_splits)
  then show ?case
    using Nil.prems(2) by (intro exI [of _ a] exI [of _ b]) simp
next
  case (Cons c s)
  obtain b' where b': "step c b = Some b'"
    using Cons.prems(1) by (auto split: option.splits)
  show ?case
  proof (cases "skips_space b c")
    case True
    then have sp: "isSpace c" "\<not> in_token (fst b) c"
      by (simp_all add: skips_space_def)
    have "follows a b'"
    proof (cases "number_state (fst b)")
      case None
      then show ?thesis
        using step_space(2) [OF sp b'] Cons.prems(2) by simp
    next
      case (Some acc)
      then have "a = b"
        using Cons.prems(2) by (auto simp: follows_def)
      then show ?thesis
        using step_space(1) [OF sp b'] by simp
    qed
    then show ?thesis
      using Cons.IH [of b' depth out a] Cons.prems(1) True b' step_space(3) [OF sp b'] by simp
  next
    case False
    obtain e need depth' where e: "indent_byte c (in_token (fst b) c) (expects_first b) depth = (e, need, depth')"
      by (cases "indent_byte c (in_token (fst b) c) (expects_first b) depth")
    then obtain rest where rest: "indent_loop s b' need depth' = Some rest" "out = e @ rest"
      using Cons.prems(1) False b' by auto
    have "run e a = Some b' \<and> need = expects_first b'"
      by (rule indent_byte_ok [OF b' False Cons.prems(2) e])
    then show ?thesis
      using Cons.IH [of b' depth' rest b'] rest b' by (auto simp: run_append)
  qed
qed

theorem json_Indent_meaning:
  assumes "json_Indent s = Some t"
  shows "json_parse t = json_parse s" "json_parse s \<noteq> None"
proof -
  have "indent_loop s scan_reset (expects_first scan_reset) 0 = Some t"
    using assms by (simp add: json_Indent_def expects_first_def scan_reset_def)
  then obtain a b where "run t scan_reset = Some a" "run s scan_reset = Some b" "follows a b" "scan_eof b \<noteq> None"
    using indent_loop_follows by (metis follows_refl)
  then show "json_parse t = json_parse s" "json_parse s \<noteq> None"
    using follows_eof by (auto simp: json_parse_def)
qed

lemma indent_loop_total:
  "run s b = Some b' \<Longrightarrow> scan_eof b' \<noteq> None \<Longrightarrow> \<exists>out. indent_loop s b need depth = Some out"
  by (induction s arbitrary: b need depth)
    (auto simp: Let_def split: option.splits prod.splits)

lemma json_Indent_total:
  assumes "json_parse s \<noteq> None"
  shows "\<exists>t. json_Indent s = Some t"
  using assms indent_loop_total [of s scan_reset]
  by (auto simp: json_parse_def json_Indent_def split: option.splits)

lemma MarshalIndent_ok:
  assumes "text_ok x d" "d \<le> maxNestingDepth"
  shows "\<exists>t. MarshalIndent (Some x) = Some t \<and> json_parse t = Some (denote x)"
proof -
  have "json_parse (encode x) = Some (denote x)"
    using json_parse_denotes [OF encode_denotes [OF assms(1)] assms(2)] .
  then show ?thesis
    using json_Indent_total [of "encode x"] json_Indent_meaning(1) by (fastforce simp: MarshalIndent_def)
qed

end
