(* ===== verification/JsonIn.thy ===== *)
theory JsonIn
  imports JsonOut
begin

text \<open>
  The decoding side of \<^verbatim>\<open>encoding/json\<close> as the HTTP handlers use it: a \<^verbatim>\<open>Decoder\<close> that reads the first
  value of a stream and leaves the rest alone, and what holds of every string the scanner accepts:
  unquoting it gives valid UTF-8, and writing the result again takes at most six bytes per byte read.
\<close>

section \<open>The first value of a stream\<close>

datatype stream_stop = BadByte | NeedsMore scan

text \<open>
  \<^verbatim>\<open>readValue\<close>: the loop ends with the byte that closes an outermost object or array, or at the byte
  after any other value, which it does not consume.
\<close>

fun readValue :: "bytes \<Rightarrow> scan \<Rightarrow> stream_stop + json" where
  "readValue [] sc = Inl (NeedsMore sc)"
| "readValue (c # buf) sc =
    (if \<not> in_token (fst sc) c \<and> scan_eof sc \<noteq> None then Inr (the (scan_eof sc))
     else case step c sc of
       None \<Rightarrow> Inl BadByte
     | Some sc' \<Rightarrow>
         if \<not> in_token (fst sc) c \<and> (c = CHR ''}'' \<or> c = CHR '']'') \<and> scan_eof sc' \<noteq> None
         then Inr (the (scan_eof sc'))
         else readValue buf sc')"

text \<open>
  How a stream ends: at its end, after the limit of a \<^verbatim>\<open>MaxBytesReader\<close>, or with another error.
\<close>

datatype stream_end = AtEOF | AtLimit | Broken

datatype decode_error = MaxBytesError | OtherDecodeError

definition Decoder_value :: "bytes \<Rightarrow> stream_end \<Rightarrow> decode_error + json" where
  "Decoder_value buf fin =
    (case readValue buf scan_reset of
       Inr v \<Rightarrow> Inr v
     | Inl BadByte \<Rightarrow> Inl OtherDecodeError
     | Inl (NeedsMore sc) \<Rightarrow>
         (case fin of
            AtLimit \<Rightarrow> Inl MaxBytesError
          | Broken \<Rightarrow> Inl OtherDecodeError
          | AtEOF \<Rightarrow> (case scan_eof sc of None \<Rightarrow> Inl OtherDecodeError | Some v \<Rightarrow> Inr v)))"

definition Decoder_Decode ::
  "bytes list \<Rightarrow> 'a field_decoder \<Rightarrow> 'a \<Rightarrow> bytes \<Rightarrow> stream_end \<Rightarrow> decode_error + 'a" where
  "Decoder_Decode names field zero buf fin =
    (case Decoder_value buf fin of
       Inl err \<Rightarrow> Inl err
     | Inr v \<Rightarrow>
         (case decode_struct names field v zero of
            None \<Rightarrow> Inl OtherDecodeError
          | Some x \<Rightarrow> Inr x))"

section \<open>A body that is one object\<close>

lemma readValue_object:
  assumes "run (CHR ''{'' # p) scan_reset = Some sc" "run q sc = Some (EndTop v, [])"
  shows "readValue (q @ rest) sc = Inr v \<or> rest = [] \<and> readValue (q @ rest) sc = Inl (NeedsMore (EndTop v, []))"
  using assms
proof (induction q arbitrary: p sc)
  case Nil
  then show ?case
    by (cases rest) (auto simp: in_token_def scan_eof_def isSpace_def)
next
  case (Cons c q)
  obtain sc' where sc': "step c sc = Some sc'" "run q sc' = Some (EndTop v, [])"
    using Cons.prems(2) by (auto split: option.splits)
  have run': "run (CHR ''{'' # p @ [c]) scan_reset = Some sc'"
    using Cons.prems(1) sc'(1) run_append [of "CHR ''{'' # p" "[c]" scan_reset] by simp
  have top: "u = v" if "sc1 = (EndTop u, [])" "run q1 sc1 = Some (EndTop v, [])" for u sc1 q1
    using that run_after_top [of q1 u "[]"] run_top_spaces [of q1 u "[]"] by auto
  show ?case
  proof (cases "\<not> in_token (fst sc) c \<and> scan_eof sc \<noteq> None")
    case True
    then show ?thesis
      using object_end [OF Cons.prems(1)] top [OF _ Cons.prems(2)] by auto
  next
    case False
    show ?thesis
    proof (cases "scan_eof sc' = None")
      case True
      then have "readValue ((c # q) @ rest) sc = readValue (q @ rest) sc'"
        using False sc'(1) by auto
      then show ?thesis
        using Cons.IH [OF run' sc'(2)] by simp
    next
      case eof: False
      then have "the (scan_eof sc') = v"
        using object_end [OF run'] top [OF _ sc'(2)] by auto
      then show ?thesis
        using False sc'(1) Cons.IH [OF run' sc'(2)] by auto
    qed
  qed
qed

lemma Decoder_value_object:
  assumes "json_parse t = Some v" "t = CHR ''{'' # p"
  shows "Decoder_value (t @ rest) AtEOF = Inr v"
proof -
  have "run t scan_reset = Some (EndTop v, [])"
    by (rule json_parse_object_end [OF assms])
  moreover obtain sc where sc: "run (CHR ''{'' # []) scan_reset = Some sc" "step (CHR ''{'') scan_reset = Some sc"
    "scan_eof scan_reset = None" "\<not> in_token (fst scan_reset) (CHR ''{'')" "scan_eof sc = None"
    by (simp add: scan_reset_def stateBeginValue_def isSpace_def pushParseState_def maxNestingDepth_def
        scan_eof_def in_token_def)
  ultimately have "run p sc = Some (EndTop v, [])"
    using assms(2) by simp
  from readValue_object [OF sc(1) this, of rest] show ?thesis
    using assms(2) sc(2-) by (auto simp: Decoder_value_def scan_eof_def isSpace_def)
qed

section \<open>Strings the scanner accepts\<close>

text \<open>The bytes between two quotes are a sequence of units: a plain byte or an escape.\<close>

definition string_unit :: "bytes \<Rightarrow> bool" where
  "string_unit u \<longleftrightarrow>
    (\<exists>c. u = [c] \<and> plain c) \<or>
    (\<exists>e. u = [bs, e] \<and> (short_escape e \<or> e = CHR ''/'')) \<or>
    (\<exists>h1 h2 h3 h4. u = [bs, CHR ''u'', h1, h2, h3, h4] \<and> is_hex h1 \<and> is_hex h2 \<and> is_hex h3 \<and> is_hex h4)"

definition string_body :: "bytes \<Rightarrow> bool" where
  "string_body s \<longleftrightarrow> (\<exists>us. s = concat us \<and> list_all string_unit us)"

lemma string_body_Nil [simp]: "string_body []"
  by (auto simp: string_body_def intro: exI [of _ "[]"])

lemma string_body_append: "string_body s \<Longrightarrow> string_unit u \<Longrightarrow> string_body (s @ u)"
proof -
  assume "string_body s" "string_unit u"
  then obtain us where "s = concat us" "list_all string_unit us"
    by (auto simp: string_body_def)
  with \<open>string_unit u\<close> show ?thesis
    unfolding string_body_def by (intro exI [of _ "us @ [u]"]) simp
qed

primrec strings_ok :: "(bytes \<Rightarrow> bool) \<Rightarrow> json \<Rightarrow> bool" where
  "strings_ok P JNull = True"
| "strings_ok P (JBool b) = True"
| "strings_ok P (JNum s) = True"
| "strings_ok P (JStr r) = P r"
| "strings_ok P (JArr vs) = list_all (\<lambda>b. b) (map (strings_ok P) vs)"
| "strings_ok P (JObj ms) = list_all snd (map (map_prod id (strings_ok P)) ms)"

fun frame_ok :: "(bytes \<Rightarrow> bool) \<Rightarrow> frame \<Rightarrow> bool" where
  "frame_ok P (ObjectKey ms k) = strings_ok P (JObj ms)"
| "frame_ok P (ObjectValue ms k) = strings_ok P (JObj ms)"
| "frame_ok P (ArrayValue vs) = strings_ok P (JArr vs)"

definition body_within :: "nat \<Rightarrow> bytes \<Rightarrow> bool" where
  "body_within n s \<longleftrightarrow> string_body s \<and> length s \<le> n"

definition partial_escape :: "bytes \<Rightarrow> nat \<Rightarrow> bool" where
  "partial_escape u k \<longleftrightarrow> (\<exists>hs. u = bs # CHR ''u'' # hs \<and> list_all is_hex hs \<and> length hs + k = 3)"

fun state_ok :: "nat \<Rightarrow> scan_state \<Rightarrow> bool" where
  "state_ok n (InString acc) = body_within n acc"
| "state_ok n (InStringEsc acc) = (\<exists>s. acc = s @ [bs] \<and> string_body s \<and> length acc \<le> n)"
| "state_ok n (InStringEscU acc k) = (\<exists>s u. acc = s @ u \<and> string_body s \<and> partial_escape u k \<and> length acc \<le> n)"
| "state_ok n (EndTop v) = strings_ok (body_within n) v"
| "state_ok n (Lit rest v) = strings_ok (body_within n) v"
| "state_ok n _ = True"

definition scan_ok :: "nat \<Rightarrow> scan \<Rightarrow> bool" where
  "scan_ok n sc \<longleftrightarrow> state_ok n (fst sc) \<and> list_all (frame_ok (body_within n)) (snd sc)"

lemma strings_ok_mono: "strings_ok P v \<Longrightarrow> (\<And>s. P s \<Longrightarrow> Q s) \<Longrightarrow> strings_ok Q v"
proof (induction v)
  case (JArr vs)
  then show ?case
    by (auto simp: list_all_iff)
next
  case (JObj ms)
  then show ?case
    by (force simp: list_all_iff)
qed simp_all

lemma frame_ok_mono: "frame_ok P f \<Longrightarrow> (\<And>s. P s \<Longrightarrow> Q s) \<Longrightarrow> frame_ok Q f"
  by (cases f) (auto intro: strings_ok_mono simp del: strings_ok.simps)

lemma body_within_Suc: "body_within n s \<Longrightarrow> body_within (Suc n) s"
  by (simp add: body_within_def)

lemma state_ok_Suc: "state_ok n st \<Longrightarrow> state_ok (Suc n) st"
  by (cases st) (auto intro: body_within_Suc strings_ok_mono [OF _ body_within_Suc], blast)

lemma scan_ok_Suc: "scan_ok n sc \<Longrightarrow> scan_ok (Suc n) sc"
  by (auto simp: scan_ok_def list_all_iff intro: state_ok_Suc frame_ok_mono [OF _ body_within_Suc])

lemma finish_ok:
  "strings_ok (body_within n) v \<Longrightarrow> list_all (frame_ok (body_within n)) stk \<Longrightarrow> scan_ok n (finish v stk)"
  by (cases "(v, stk)" rule: finish.cases) (auto simp: scan_ok_def)

lemma stateEndValue_ok: "stateEndValue c sc = Some sc' \<Longrightarrow> scan_ok n sc \<Longrightarrow> scan_ok n sc'"
  by (cases "(c, sc)" rule: stateEndValue.cases)
    (auto simp: scan_ok_def split: if_splits frame.splits
      intro: finish_ok [unfolded scan_ok_def, THEN conjunct1] finish_ok [unfolded scan_ok_def, THEN conjunct2])

lemma string_unit_intros:
  "plain c \<Longrightarrow> string_unit [c]"
  "c \<in> set [CHR ''b'', CHR ''f'', CHR ''n'', CHR ''r'', CHR ''t'', bs, CHR ''/'', dq] \<Longrightarrow> string_unit [bs, c]"
  by (auto simp: string_unit_def short_escape_def)

lemma step_InString_ok:
  assumes "step c (InString acc, stk) = Some sc'" "body_within n acc" "list_all (frame_ok (body_within (Suc n))) stk"
  shows "scan_ok (Suc n) sc'"
proof -
  have body: "string_body acc" "length acc \<le> n"
    using assms(2) by (simp_all add: body_within_def)
  consider "c = dq" | "c = bs" | "plain c" "c \<noteq> dq" "c \<noteq> bs"
    using assms(1) by (auto simp: plain_def split: if_splits)
  then show ?thesis
  proof cases
    case 3
    then show ?thesis
      using assms(1,3) body string_body_append [OF body(1) string_unit_intros(1)]
      by (auto simp: scan_ok_def body_within_def plain_def)
  qed (use assms(1,3) body finish_ok [of "Suc n" "JStr acc" stk] in \<open>auto simp: scan_ok_def body_within_def\<close>)
qed

lemma step_InStringEsc_ok:
  assumes "step c (InStringEsc (s @ [bs]), stk) = Some sc'" "string_body s" "length s < n"
    and stk: "list_all (frame_ok (body_within (Suc n))) stk"
  shows "scan_ok (Suc n) sc'"
proof (cases "c = CHR ''u''")
  case True
  then show ?thesis
    using assms by (auto simp: scan_ok_def partial_escape_def intro!: exI [of _ s])
next
  case False
  then have "string_body (s @ [bs, c])" "sc' = (InString (s @ [bs, c]), stk)"
    using assms(1) string_body_append [OF assms(2) string_unit_intros(2) [of c]] by (auto split: if_splits)
  then show ?thesis
    using assms(3) stk by (simp add: scan_ok_def body_within_def)
qed

lemma step_InStringEscU_ok:
  assumes "step c (InStringEscU (s @ bs # CHR ''u'' # hs) k, stk) = Some sc'"
    and s: "string_body s" "list_all is_hex hs" "length hs + k = 3" "length s + length hs + 2 \<le> n"
    and stk: "list_all (frame_ok (body_within (Suc n))) stk"
  shows "scan_ok (Suc n) sc'"
proof -
  have c: "is_hex c"
    using assms(1) by (simp split: if_splits)
  show ?thesis
  proof (cases k)
    case 0
    then obtain h1 h2 h3 where "hs = [h1, h2, h3]"
      using s(3) by (auto simp: length_Suc_conv numeral_eq_Suc)
    then have "string_unit (bs # CHR ''u'' # hs @ [c])"
      using s(2) c by (auto simp: string_unit_def)
    then have "string_body (s @ bs # CHR ''u'' # hs @ [c])"
      by (rule string_body_append [OF s(1)])
    then show ?thesis
      using assms(1) 0 c s stk by (auto simp: scan_ok_def body_within_def)
  next
    case (Suc k')
    have "partial_escape (bs # CHR ''u'' # hs @ [c]) k'"
      using s(2,3) c Suc by (simp add: partial_escape_def)
    then have "state_ok (Suc n) (InStringEscU (s @ bs # CHR ''u'' # hs @ [c]) k')"
      unfolding state_ok.simps
      by (intro exI [of _ s] exI [of _ "bs # CHR ''u'' # hs @ [c]"]) (use s in simp)
    moreover have "sc' = (InStringEscU (s @ bs # CHR ''u'' # hs @ [c]) k', stk)"
      using assms(1) Suc c by simp
    ultimately show ?thesis
      using stk by (simp add: scan_ok_def)
  qed
qed

lemma step_string_ok:
  assumes "step c (st, stk) = Some sc'" "scan_ok n (st, stk)"
    and "(\<exists>acc. st = InString acc) \<or> (\<exists>acc. st = InStringEsc acc) \<or> (\<exists>acc k. st = InStringEscU acc k)"
  shows "scan_ok (Suc n) sc'"
proof -
  have stk: "list_all (frame_ok (body_within (Suc n))) stk"
    using scan_ok_Suc [OF assms(2)] by (simp add: scan_ok_def)
  from assms(3) consider acc where "st = InString acc" | acc where "st = InStringEsc acc"
    | acc k where "st = InStringEscU acc k"
    by blast
  then show ?thesis
  proof cases
    case 1
    then show ?thesis
      using assms(1,2) stk step_InString_ok by (auto simp: scan_ok_def simp del: step.simps)
  next
    case (2 acc)
    then obtain s where "acc = s @ [bs]" "string_body s" "length acc \<le> n"
      using assms(2) by (auto simp: scan_ok_def)
    then show ?thesis
      using step_InStringEsc_ok [OF _ _ _ stk] assms(1) 2 by (simp del: step.simps)
  next
    case (3 acc k)
    then obtain s hs where "acc = s @ bs # CHR ''u'' # hs" "string_body s" "list_all is_hex hs"
        "length hs + k = 3" "length acc \<le> n"
      using assms(2) by (auto simp: scan_ok_def partial_escape_def)
    then show ?thesis
      using step_InStringEscU_ok [OF _ _ _ _ _ stk] assms(1) 3 by (simp del: step.simps)
  qed
qed

lemma begin_ok:
  assumes "list_all (frame_ok (body_within n)) stk"
  shows "stateBeginValue c stk = Some sc \<Longrightarrow> scan_ok n sc"
    "stateBeginString c stk = Some sc \<Longrightarrow> scan_ok n sc"
    "state0 acc c stk = Some sc \<Longrightarrow> scan_ok n sc"
    "stateESign acc c stk = Some sc \<Longrightarrow> scan_ok n sc"
proof -
  show "stateBeginValue c stk = Some sc \<Longrightarrow> scan_ok n sc"
    using assms unfolding stateBeginValue_def
    by (auto simp: scan_ok_def pushParseState_def body_within_def simp del: isSpace_def split: if_split_asm)
  show "stateBeginString c stk = Some sc \<Longrightarrow> scan_ok n sc"
    using assms by (auto simp: stateBeginString_def scan_ok_def body_within_def split: if_splits)
  show "state0 acc c stk = Some sc \<Longrightarrow> scan_ok n sc"
    using assms stateEndValue_ok [OF _ finish_ok, of c "JNum acc" stk sc n]
    by (auto simp: state0_def scan_ok_def split: if_splits)
  show "stateESign acc c stk = Some sc \<Longrightarrow> scan_ok n sc"
    using assms by (auto simp: stateESign_def scan_ok_def split: if_splits)
qed

definition in_string :: "scan_state \<Rightarrow> bool" where
  "in_string st \<longleftrightarrow>
    (\<exists>acc. st = InString acc) \<or> (\<exists>acc. st = InStringEsc acc) \<or> (\<exists>acc k. st = InStringEscU acc k)"

lemma step_other_ok:
  assumes "step c sc = Some sc'" "scan_ok n sc" "\<not> in_string (fst sc)"
  shows "scan_ok n sc'"
proof -
  obtain st stk where sc: "sc = (st, stk)"
    by force
  have stk: "list_all (frame_ok (body_within n)) stk"
    using assms(2) sc by (simp add: scan_ok_def)
  note num = stateEndValue_ok [OF _ finish_ok [OF _ stk]]
  have False': "\<not> in_string st"
    using assms(3) sc by simp
  show ?thesis
  proof (cases st)
    case BeginStringOrEmpty
    show ?thesis
    proof (cases "c = CHR ''}''")
      case True
      then obtain ms k stk' where "stk = ObjectKey ms k # stk'" "sc' = finish (JObj ms) stk'"
        using assms(1) sc BeginStringOrEmpty by (auto simp: isSpace_def split: list.splits frame.splits)
      then show ?thesis
        using stk finish_ok [of n "JObj ms" stk'] by simp
    next
      case False
      then show ?thesis
        using assms sc BeginStringOrEmpty begin_ok(2) [OF stk] by (auto split: if_splits)
    qed
  next
    case BeginValueOrEmpty
    then show ?thesis
      using assms sc stk begin_ok(1) [OF stk] stateEndValue_ok [of c "(EndValue, stk)" sc' n]
      by (auto simp: scan_ok_def split: if_splits)
  next
    case (Lit rest v)
    then show ?thesis
      using assms sc stk finish_ok [of n v stk] by (auto simp: scan_ok_def split: if_splits list.splits)
  next
    case (EndTop v)
    then show ?thesis
      using assms sc by (auto split: if_splits)
  next
    case EndValue
    then show ?thesis
      using assms sc stateEndValue_ok by auto
  qed (use False' assms(1) sc stk begin_ok [OF stk] num in
      \<open>auto simp: scan_ok_def in_string_def simp del: stateEndValue.simps split: if_splits\<close>)
qed

lemma step_ok: "step c sc = Some sc' \<Longrightarrow> scan_ok n sc \<Longrightarrow> scan_ok (Suc n) sc'"
  using step_string_ok [of c "fst sc" "snd sc" sc' n] step_other_ok [of c sc sc' n] scan_ok_Suc
  by (cases "in_string (fst sc)") (auto simp: in_string_def)

lemma scan_eof_ok:
  assumes "scan_eof sc = Some v" "scan_ok n sc"
  shows "strings_ok (body_within n) v"
proof -
  obtain stk where "step (CHR '' '') sc = Some (EndTop v, stk)"
    using assms(1) by (auto simp: scan_eof_def split: option.splits scan_state.splits)
  moreover have "\<not> in_string (fst sc)"
    using calculation by (cases sc) (auto simp: in_string_def is_hex_def byte_def split: if_splits nat.splits)
  ultimately show ?thesis
    using step_other_ok [OF _ assms(2)] by (fastforce simp: scan_ok_def)
qed

lemma readValue_ok:
  assumes "scan_ok n sc"
  shows "readValue buf sc = Inr v \<Longrightarrow> strings_ok (body_within (n + length buf)) v"
    and "readValue buf sc = Inl (NeedsMore sc') \<Longrightarrow> scan_ok (n + length buf) sc'"
  using assms
proof (induction buf arbitrary: n sc)
  case (Cons c buf)
  have mono: "strings_ok (body_within m) v \<Longrightarrow> m \<le> k \<Longrightarrow> strings_ok (body_within k) v" for m k
    by (erule strings_ok_mono) (simp add: body_within_def)
  {
    case 1
    then show ?case
      using scan_eof_ok [of sc v n] scan_eof_ok [of _ v "Suc n"] step_ok [of c sc _ n] Cons.IH(1) [of _ "Suc n"]
        mono [of n "n + length (c # buf)"] mono [of "Suc n" "n + length (c # buf)"]
      by (auto split: if_splits option.splits)
  next
    case 2
    then show ?case
      using step_ok [of c sc _ n] Cons.IH(2) [of _ "Suc n"] by (auto split: if_splits option.splits)
  }
qed simp_all

lemma Decoder_value_ok:
  assumes "Decoder_value buf fin = Inr v"
  shows "strings_ok (body_within (length buf)) v"
proof -
  have "scan_ok 0 scan_reset"
    by (simp add: scan_ok_def scan_reset_def)
  from readValue_ok [OF this, of buf] show ?thesis
    using assms scan_eof_ok
    by (auto simp: Decoder_value_def split: sum.splits stream_stop.splits stream_end.splits option.splits)
qed

section \<open>What such a string is unquoted to\<close>

text \<open>A rune text is decoded as one rune whatever follows; \<open>runes n s\<close>: \<open>s\<close> is made of \<open>n\<close> of them.\<close>

definition rune_text :: "bytes \<Rightarrow> bool" where
  "rune_text u \<longleftrightarrow> u \<noteq> [] \<and> (\<forall>t. \<not> ill_formed (u @ t) \<and> snd (DecodeRune (u @ t)) = length u)"

inductive runes :: "nat \<Rightarrow> bytes \<Rightarrow> bool" where
  none: "runes 0 []"
| more_runes: "rune_text u \<Longrightarrow> runes n s \<Longrightarrow> runes (Suc n) (u @ s)"

lemma rune_text_ascii: "byte c < 0x80 \<Longrightarrow> rune_text [c]"
  by (simp add: rune_text_def DecodeRune_ascii ill_formed_ascii)

lemma EncodeRune_three:
  assumes "0x800 \<le> r" "r < 0x10000" "\<not> surrogate r"
  shows "rune_text [chr (0xE0 + r div 4096), chr (0x80 + r div 64 mod 64), chr (0x80 + r mod 64)]"
proof -
  define x y where "x = r div 4096" and "y = r div 64 mod 64"
  have eq: "r div 64 = 64 * x + y" "y < 64"
    unfolding x_def y_def by (simp_all add: div_mult2_eq [of r 64 64, simplified])
  have "x < 16" "32 \<le> r div 64"
    using assms by (simp_all add: x_def div_less_iff_less_mult less_eq_div_iff_mult_less_eq)
  moreover have "x = 0 \<longrightarrow> 32 \<le> y"
    using eq calculation by auto
  moreover have "x = 13 \<longrightarrow> y < 32"
  proof
    assume "x = 13"
    then have "r div 4096 < 14"
      unfolding x_def by simp
    then have "r < 0xE000"
      by (simp add: div_less_iff_less_mult)
    then have "r < 0xD800"
      using assms(3) by (auto simp: surrogate_def)
    then have "r div 64 < 864"
      by (simp add: div_less_iff_less_mult)
    then show "y < 32"
      using eq \<open>x = 13\<close> by simp
  qed
  moreover have "r mod 64 \<le> 63"
    using mod_less_divisor [of 64 r] by linarith
  ultimately show ?thesis
    using assms eq by (auto simp: x_def [symmetric] y_def [symmetric] rune_text_def ill_formed_def DecodeRune.simps cont_def)
qed

lemma EncodeRune_four:
  assumes "0x10000 \<le> r" "r \<le> 0x10FFFF"
  shows "rune_text [chr (0xF0 + r div 262144), chr (0x80 + r div 4096 mod 64), chr (0x80 + r div 64 mod 64), chr (0x80 + r mod 64)]"
proof -
  define x y where "x = r div 262144" and "y = r div 4096 mod 64"
  have eq: "r div 4096 = 64 * x + y" "y < 64"
    unfolding x_def y_def by (simp_all add: div_mult2_eq [of r 4096 64, simplified])
  have "16 \<le> r div 4096" "r div 4096 < 272"
    using assms by (simp_all add: div_less_iff_less_mult less_eq_div_iff_mult_less_eq)
  then have "x < 5" "x = 0 \<longrightarrow> 16 \<le> y" "x = 4 \<longrightarrow> y < 16"
    using eq by auto
  moreover have "r mod 64 \<le> 63" "r div 64 mod 64 \<le> 63"
    using mod_less_divisor [of 64 r] mod_less_divisor [of 64 "r div 64"] by linarith+
  ultimately show ?thesis
    using assms eq by (auto simp: x_def [symmetric] y_def [symmetric] rune_text_def ill_formed_def DecodeRune.simps cont_def)
qed

lemma rune_text_EncodeRune: "rune_text (EncodeRune r)"
proof -
  define r' where "r' = (if surrogate r \<or> r > 0x10FFFF then RuneError else r)"
  have r': "\<not> surrogate r'" "r' \<le> 0x10FFFF"
    by (auto simp: r'_def RuneError_def surrogate_def)
  consider "r' < 0x80" | "0x80 \<le> r'" "r' < 0x800" | "0x800 \<le> r'" "r' < 0x10000" | "0x10000 \<le> r'"
    by linarith
  then show ?thesis
  proof cases
    case 1
    then show ?thesis
      using rune_text_ascii [of "chr r'"] by (simp add: EncodeRune_def r'_def [symmetric])
  next
    case 2
    then have "2 \<le> r' div 64" "r' div 64 < 32"
      by (simp_all add: div_less_iff_less_mult less_eq_div_iff_mult_less_eq)
    then show ?thesis
      using 2 by (simp add: EncodeRune_def r'_def [symmetric] rune_text_def ill_formed_def DecodeRune.simps cont_def)
  next
    case 3
    then show ?thesis
      using EncodeRune_three [OF _ _ r'(1)] by (simp add: EncodeRune_def r'_def [symmetric])
  next
    case 4
    then show ?thesis
      using EncodeRune_four [OF _ r'(2)] by (simp add: EncodeRune_def r'_def [symmetric])
  qed
qed

lemma runes_valid: "runes n s \<Longrightarrow> valid_utf8 s"
proof (induction rule: runes.induct)
  case (more_runes u n s)
  then obtain c t where "u @ s = c # t" "snd (DecodeRune (c # t)) = length u" "\<not> ill_formed (c # t)"
    by (cases u) (auto simp: rune_text_def)
  moreover have "drop (length u) (u @ s) = s"
    by simp
  ultimately show ?case
    using more_runes.IH by simp
qed simp

lemma escape_rune_short:
  assumes "s \<noteq> []"
  shows "length (escape_rune s) \<le> 6"
  using assms
proof (cases rule: escape_rune_cases)
  case ascii
  then show ?thesis by (simp add: escape_byte_def)
next
  case high
  have "snd (DecodeRune s) \<le> 4"
    using assms by (cases s) (auto simp: DecodeRune.simps Let_def split: list.split)
  then show ?thesis
    using high by simp
qed simp_all

lemma runes_escape: "runes n s \<Longrightarrow> length (escape s) \<le> 6 * n"
proof (induction rule: runes.induct)
  case (more_runes u n s)
  then obtain c t where ct: "u @ s = c # t" "snd (DecodeRune (c # t)) = length u"
    by (cases u) (auto simp: rune_text_def)
  moreover have "drop (length u) (u @ s) = s"
    by simp
  ultimately have "escape (u @ s) = escape_rune (u @ s) @ escape s"
    by simp
  then show ?case
    using escape_rune_short [of "u @ s"] more_runes ct by simp
qed simp

text \<open>One step of unquoting takes one rune text from one or more units.\<close>

lemma string_unit_cases:
  assumes "string_unit u"
  obtains (plain) c where "u = [c]" "plain c"
  | (short) e where "u = [bs, e]" "short_escape e \<or> e = CHR ''/''"
  | (long) h1 h2 h3 h4 where "u = [bs, CHR ''u'', h1, h2, h3, h4]" "is_hex h1" "is_hex h2" "is_hex h3" "is_hex h4"
proof -
  from assms consider "\<exists>c. u = [c] \<and> plain c"
    | "\<exists>e. u = [bs, e] \<and> (short_escape e \<or> e = CHR ''/'')"
    | "\<exists>h1 h2 h3 h4. u = [bs, CHR ''u'', h1, h2, h3, h4] \<and> is_hex h1 \<and> is_hex h2 \<and> is_hex h3 \<and> is_hex h4"
    unfolding string_unit_def by argo
  then show thesis
  proof cases
    case 1
    then show ?thesis using plain by auto
  next
    case 2
    then show ?thesis using short by auto
  next
    case 3
    then show ?thesis using long by auto
  qed
qed

lemma simple_escape:
  assumes "short_escape e \<or> e = CHR ''/''"
  shows "e \<noteq> CHR ''u''" "byte (unescape e) < 0x80"
  using assms unfolding short_escape_def list.set insert_iff empty_iff
  by (elim disjE; simp add: unescape_def byte_def)+

lemma string_unit_plain:
  assumes "string_unit u" "u @ v = c # t" "c \<noteq> bs"
  shows "u = [c]"
  using assms(1) by (cases rule: string_unit_cases) (use assms(2,3) in simp_all)

lemma high_units:
  assumes "list_all string_unit us" "list_all (\<lambda>c. 0x80 \<le> byte c) (take w (concat us))" "w \<le> length (concat us)"
  shows "drop w (concat us) = concat (drop w us)"
  using assms
proof (induction w arbitrary: us)
  case (Suc w)
  then obtain u us' where us: "us = u # us'"
    by (cases us) auto
  obtain c t where ct: "concat us = c # t"
    using Suc.prems(3) by (cases "concat us") auto
  then have "c \<noteq> bs"
    using Suc.prems(2) by auto
  then have "u = [c]"
    using string_unit_plain [of u "concat us'" c t] Suc.prems(1) us ct by simp
  then show ?case
    using Suc.IH [of us'] Suc.prems us by simp
qed simp

lemma unquote_rune_plain:
  assumes "list_all string_unit us" "concat us = c # t" "plain c"
  shows "\<exists>k. 1 \<le> k \<and> k \<le> length us \<and> snd (unquote_rune (c # t)) \<le> length (c # t) \<and>
    rune_text (fst (unquote_rune (c # t))) \<and> drop (snd (unquote_rune (c # t))) (c # t) = concat (drop k us)"
proof -
  define w where "w = snd (DecodeRune (c # t))"
  have w: "1 \<le> w" "w \<le> length (c # t)"
    using DecodeRune_width [of "c # t"] by (simp_all add: w_def)
  have uq: "unquote_rune (c # t) = (EncodeRune (fst (DecodeRune (c # t))), w)"
    using assms(3) w(1) by (simp add: unquote_rune_def plain_def w_def)
  obtain u us' where us: "us = u # us'"
    using assms(2) by (cases us) auto
  have "\<exists>k. 1 \<le> k \<and> k \<le> length us \<and> drop w (c # t) = concat (drop k us)"
  proof (cases "w = 1")
    case True
    have "u = [c]"
      using string_unit_plain [of u "concat us'" c t] assms us by (simp add: plain_def)
    then show ?thesis
      using True assms(2) us by (intro exI [of _ 1]) simp
  next
    case False
    then have "\<not> byte c < 0x80" "\<not> ill_formed (c # t)"
      using DecodeRune_ascii [of c t] by (auto simp: w_def ill_formed_def)
    then have "list_all (\<lambda>c. 0x80 \<le> byte c) (take w (concat us))"
      using high_rune_bytes [of "c # t"] assms(2) by (simp add: w_def not_less)
    moreover have "length (concat us) = sum_list (map length us)"
      by (simp add: length_concat)
    ultimately have "drop w (c # t) = concat (drop w us)"
      using high_units [OF assms(1)] w(2) assms(2) by simp
    then show ?thesis
      using w(1) by (intro exI [of _ "min w (length us)"]) (auto simp: us min_def)
  qed
  then show ?thesis
    using w(2) rune_text_EncodeRune by (auto simp: uq)
qed

lemma unquote_rune_escape:
  assumes "list_all string_unit us" "concat us = bs # t"
  shows "\<exists>k. 1 \<le> k \<and> k \<le> length us \<and> snd (unquote_rune (bs # t)) \<le> length (bs # t) \<and>
    rune_text (fst (unquote_rune (bs # t))) \<and> drop (snd (unquote_rune (bs # t))) (bs # t) = concat (drop k us)"
proof -
  obtain u us' where us: "us = u # us'"
    using assms(2) by (cases us) auto
  then have "string_unit u"
    using assms(1) by simp
  then show ?thesis
  proof (cases rule: string_unit_cases)
    case (plain c)
    then show ?thesis
      using us assms(2) by (simp add: plain_def)
  next
    case 1: (short e)
    have "getu4 (bs # e # v) = None" "byte (unescape e) < 0x80" for v
      using simple_escape [OF 1(2)] by (simp_all add: getu4_def split: list.split)
    then show ?thesis
      using 1 us assms(2) rune_text_ascii [of "unescape e"]
      by (intro exI [of _ 1]) (auto simp: unquote_rune_def)
  next
    case 2: (long h1 h2 h3 h4)
    then have t: "t = CHR ''u'' # h1 # h2 # h3 # h4 # concat us'"
      using assms(2) us by simp
    obtain r where uq: "unquote_rune (bs # t) = unquote_u4 r (bs # t)"
      using 2(2-) by (simp add: unquote_rune_def getu4_def t)
    show ?thesis
    proof (cases "snd (unquote_u4 r (bs # t)) = 12")
      case True
      then obtain r1 d where pair: "getu4 (concat us') = Some r1" "fst (unquote_u4 r (bs # t)) = EncodeRune d"
        by (auto simp: unquote_u4_def t Let_def split: if_splits option.splits)
      then obtain u2 us2 where us2: "us' = u2 # us2"
        by (cases us') (auto simp: getu4_def)
      then have "string_unit u2"
        using assms(1) us by simp
      then have "length u2 = 6"
        by (cases rule: string_unit_cases)
          (use pair(1) us2 simple_escape in \<open>auto simp: getu4_def plain_def split: list.splits if_splits\<close>)
      then show ?thesis
        using True pair us us2 rune_text_EncodeRune
        by (intro exI [of _ 2]) (unfold uq, simp add: t)
    next
      case False
      then have "snd (unquote_u4 r (bs # t)) = 6" "\<exists>d. fst (unquote_u4 r (bs # t)) = EncodeRune d"
        by (auto simp: unquote_u4_def Let_def split: if_splits option.splits)
      then show ?thesis
        using us rune_text_EncodeRune by (intro exI [of _ 1]) (unfold uq, auto simp: t)
    qed
  qed
qed

lemma unquote_runes:
  assumes "list_all string_unit us"
  shows "\<exists>n \<le> length (concat us). runes n (unquote (concat us))"
  using assms
proof (induction "length us" arbitrary: us rule: less_induct)
  case less
  show ?case
  proof (cases "concat us")
    case Nil
    then show ?thesis
      using runes.none by (intro exI [of _ 0]) (simp add: Nil del: concat_eq_Nil_conv)
  next
    case (Cons c t)
    have "c = bs \<or> plain c"
      using less.prems Cons string_unit_plain [of "hd us" "concat (tl us)" c t]
      by (cases us) (auto elim!: string_unit_cases)
    then obtain k where k: "1 \<le> k" "k \<le> length us" "snd (unquote_rune (c # t)) \<le> length (c # t)"
        "rune_text (fst (unquote_rune (c # t)))" "drop (snd (unquote_rune (c # t))) (c # t) = concat (drop k us)"
      using unquote_rune_escape [OF less.prems] unquote_rune_plain [OF less.prems Cons] Cons by blast
    have "list_all string_unit (drop k us)"
      using less.prems set_drop_subset [of k us] by (auto simp: list_all_iff)
    moreover have "length (drop k us) < length us"
      unfolding length_drop using k(1,2) by linarith
    ultimately obtain n where n: "n \<le> length (concat (drop k us))" "runes n (unquote (concat (drop k us)))"
      using less.hyps by blast
    have "length (concat (drop k us)) + 1 \<le> length (c # t)"
      using k(3) unquote_rune_width [of "c # t"] arg_cong [OF k(5), of length] by simp
    moreover have "unquote (c # t) = fst (unquote_rune (c # t)) @ unquote (concat (drop k us))"
      using k(5) by simp
    ultimately show ?thesis
      using n k(4) unfolding Cons by (intro exI [of _ "Suc n"]) (auto intro: runes.more_runes)
  qed
qed

lemma body_within_unquote:
  assumes "body_within n s"
  shows "valid_utf8 (unquote s)" "length (escape (unquote s)) \<le> 6 * n"
proof -
  obtain us where us: "s = concat us" "list_all string_unit us" "length s \<le> n"
    using assms by (auto simp: body_within_def string_body_def)
  then obtain m where m: "m \<le> length s" "runes m (unquote s)"
    using unquote_runes by blast
  then show "valid_utf8 (unquote s)" "length (escape (unquote s)) \<le> 6 * n"
    using runes_valid runes_escape [OF m(2)] us(3) by simp_all
qed

end
