(* ===== verification/ModelJson.thy ===== *)
theory ModelJson
  imports Model JsonIn
begin

text \<open>
  The JSON shapes that the struct tags of \<^verbatim>\<open>src/pkg/model/message.go\<close> give to messages, requests and
  views: the server encodes the first and the last, the client decodes them, and the request
  travels the other way.  What is sent is what arrives.
\<close>

section \<open>Encoding\<close>

definition message_json :: "Message \<Rightarrow> jtext option" where
  "message_json m = do {
     enqueued \<leftarrow> time_text (m_EnqueuedAt m);
     available \<leftarrow> time_text (m_AvailableAt m);
     Some (TObj [(''id'', TStr (m_ID m)), (''seq'', TUint (m_Seq m)), (''payload'', TStr (m_Payload m)),
       (''priority'', TInt (m_Priority m)), (''enqueued_at'', enqueued),
       (''available_at'', available), (''status'', TStr (m_Status m))])
   }"

definition messages_json :: "Message list \<Rightarrow> jtext option" where
  "messages_json ms = map_option TArr (those (map message_json ms))"

definition request_json :: "EnqueueRequest \<Rightarrow> jtext" where
  "request_json r = TObj [(''payload'', TStr (req_Payload r)), (''priority'', TInt (req_Priority r)),
     (''delay_seconds'', TInt (req_DelaySeconds r))]"

definition stats_json :: "QueueStats \<Rightarrow> jtext" where
  "stats_json s = TObj [(''total'', TInt (qs_Total s)), (''ready'', TInt (qs_Available s)),
     (''delayed'', TInt (qs_Delayed s))]"

definition snapshot_json :: "QueueSnapshot \<Rightarrow> jtext option" where
  "snapshot_json s = do {
     now \<leftarrow> time_text (sn_Now s);
     ready \<leftarrow> messages_json (sn_Ready s);
     delayed \<leftarrow> messages_json (sn_Delayed s);
     Some (TObj [(''mode'', TStr (sn_Mode s)), (''now'', now), (''stats'', stats_json (sn_Stats s)),
       (''ready'', ready), (''delayed'', delayed), (''ready_truncated'', TBool (sn_ReadyTruncated s)),
       (''delayed_truncated'', TBool (sn_DelayedTruncated s))])
   }"

definition waltail_json :: "WalTail \<Rightarrow> jtext option" where
  "waltail_json t =
    map_option (\<lambda>records. TObj [(''path'', TStr (wt_Path t)), (''size_bytes'', TInt (wt_SizeBytes t)),
        (''truncated'', TBool (wt_Truncated t)), (''records'', TArr records)])
      (those (map raw_text (wt_Records t)))"

section \<open>Decoding\<close>

definition zero_request :: EnqueueRequest where
  "zero_request = \<lparr>req_Payload = [], req_Priority = 0, req_DelaySeconds = 0\<rparr>"

definition request_names :: "bytes list" where
  "request_names = [''payload'', ''priority'', ''delay_seconds'']"

definition request_field :: "EnqueueRequest field_decoder" where
  "request_field name v r =
    (if name = ''payload'' then map_option (\<lambda>x. r\<lparr>req_Payload := x\<rparr>) (decode_string v (req_Payload r))
     else if name = ''priority'' then map_option (\<lambda>x. r\<lparr>req_Priority := x\<rparr>) (decode_int v (req_Priority r))
     else if name = ''delay_seconds'' then
       map_option (\<lambda>x. r\<lparr>req_DelaySeconds := x\<rparr>) (decode_int v (req_DelaySeconds r))
     else Some r)"

definition zero_message :: Message where
  "zero_message = \<lparr>m_ID = [], m_Seq = 0, m_Payload = [], m_Priority = 0, m_EnqueuedAt = 0,
     m_AvailableAt = 0, m_Status = []\<rparr>"

definition message_names :: "bytes list" where
  "message_names = [''id'', ''seq'', ''payload'', ''priority'', ''enqueued_at'', ''available_at'', ''status'']"

definition message_field :: "Message field_decoder" where
  "message_field name v m =
    (if name = ''id'' then map_option (\<lambda>x. m\<lparr>m_ID := x\<rparr>) (decode_string v (m_ID m))
     else if name = ''seq'' then map_option (\<lambda>x. m\<lparr>m_Seq := x\<rparr>) (decode_uint v (m_Seq m))
     else if name = ''payload'' then map_option (\<lambda>x. m\<lparr>m_Payload := x\<rparr>) (decode_string v (m_Payload m))
     else if name = ''priority'' then map_option (\<lambda>x. m\<lparr>m_Priority := x\<rparr>) (decode_int v (m_Priority m))
     else if name = ''enqueued_at'' then map_option (\<lambda>x. m\<lparr>m_EnqueuedAt := x\<rparr>) (decode_time v (m_EnqueuedAt m))
     else if name = ''available_at'' then map_option (\<lambda>x. m\<lparr>m_AvailableAt := x\<rparr>) (decode_time v (m_AvailableAt m))
     else if name = ''status'' then map_option (\<lambda>x. m\<lparr>m_Status := x\<rparr>) (decode_string v (m_Status m))
     else Some m)"

definition zero_stats :: QueueStats where
  "zero_stats = \<lparr>qs_Total = 0, qs_Available = 0, qs_Delayed = 0\<rparr>"

definition stats_names :: "bytes list" where
  "stats_names = [''total'', ''ready'', ''delayed'']"

definition stats_field :: "QueueStats field_decoder" where
  "stats_field name v s =
    (if name = ''total'' then map_option (\<lambda>x. s\<lparr>qs_Total := x\<rparr>) (decode_int v (qs_Total s))
     else if name = ''ready'' then map_option (\<lambda>x. s\<lparr>qs_Available := x\<rparr>) (decode_int v (qs_Available s))
     else if name = ''delayed'' then map_option (\<lambda>x. s\<lparr>qs_Delayed := x\<rparr>) (decode_int v (qs_Delayed s))
     else Some s)"

definition zero_snapshot :: QueueSnapshot where
  "zero_snapshot = \<lparr>sn_Mode = [], sn_Now = 0, sn_Stats = zero_stats, sn_Ready = [], sn_Delayed = [],
     sn_ReadyTruncated = False, sn_DelayedTruncated = False\<rparr>"

definition snapshot_names :: "bytes list" where
  "snapshot_names = [''mode'', ''now'', ''stats'', ''ready'', ''delayed'', ''ready_truncated'', ''delayed_truncated'']"

definition decode_messages :: "json \<Rightarrow> Message list option" where
  "decode_messages = decode_slice (decode_struct message_names message_field) zero_message"

definition snapshot_field :: "QueueSnapshot field_decoder" where
  "snapshot_field name v s =
    (if name = ''mode'' then map_option (\<lambda>x. s\<lparr>sn_Mode := x\<rparr>) (decode_string v (sn_Mode s))
     else if name = ''now'' then map_option (\<lambda>x. s\<lparr>sn_Now := x\<rparr>) (decode_time v (sn_Now s))
     else if name = ''stats'' then
       map_option (\<lambda>x. s\<lparr>sn_Stats := x\<rparr>) (decode_struct stats_names stats_field v (sn_Stats s))
     else if name = ''ready'' then map_option (\<lambda>x. s\<lparr>sn_Ready := x\<rparr>) (decode_messages v)
     else if name = ''delayed'' then map_option (\<lambda>x. s\<lparr>sn_Delayed := x\<rparr>) (decode_messages v)
     else if name = ''ready_truncated'' then
       map_option (\<lambda>x. s\<lparr>sn_ReadyTruncated := x\<rparr>) (decode_bool v (sn_ReadyTruncated s))
     else if name = ''delayed_truncated'' then
       map_option (\<lambda>x. s\<lparr>sn_DelayedTruncated := x\<rparr>) (decode_bool v (sn_DelayedTruncated s))
     else Some s)"

interpretation rq: json_struct request_names request_field
  by unfold_locales code_simp

interpretation mg: json_struct message_names message_field
  by unfold_locales code_simp

interpretation st: json_struct stats_names stats_field
  by unfold_locales code_simp

interpretation sn: json_struct snapshot_names snapshot_field
  by unfold_locales code_simp

section \<open>What is encoded is decoded\<close>

lemma plain_names [simp]:
  "plain_name ''id''" "plain_name ''seq''" "plain_name ''payload''" "plain_name ''priority''"
  "plain_name ''enqueued_at''" "plain_name ''available_at''" "plain_name ''status''"
  "plain_name ''delay_seconds''" "plain_name ''total''" "plain_name ''ready''"
  "plain_name ''delayed''" "plain_name ''mode''" "plain_name ''now''" "plain_name ''stats''"
  "plain_name ''ready_truncated''" "plain_name ''delayed_truncated''" "plain_name ''path''"
  "plain_name ''size_bytes''" "plain_name ''truncated''" "plain_name ''records''"
  by code_simp+

lemma struct_names [simp]:
  "''id'' \<in> set message_names" "''seq'' \<in> set message_names" "''payload'' \<in> set message_names"
  "''priority'' \<in> set message_names" "''enqueued_at'' \<in> set message_names"
  "''available_at'' \<in> set message_names" "''status'' \<in> set message_names"
  "''payload'' \<in> set request_names" "''priority'' \<in> set request_names" "''delay_seconds'' \<in> set request_names"
  "''total'' \<in> set stats_names" "''ready'' \<in> set stats_names" "''delayed'' \<in> set stats_names"
  "''mode'' \<in> set snapshot_names" "''now'' \<in> set snapshot_names" "''stats'' \<in> set snapshot_names"
  "''ready'' \<in> set snapshot_names" "''delayed'' \<in> set snapshot_names"
  "''ready_truncated'' \<in> set snapshot_names" "''delayed_truncated'' \<in> set snapshot_names"
  by (simp_all add: message_names_def request_names_def stats_names_def snapshot_names_def)

lemma time_text_ok:
  assumes "time_text t = Some x"
  shows "time_ok t" "text_ok x d" "denote x = JStr (format_rfc3339 t)"
proof -
  have x: "time_ok t" "x = TRaw (dq # format_rfc3339 t @ [dq])"
    using assms by (auto simp: time_text_def time_MarshalJSON_def time_ok_def split: if_splits)
  moreover have "json_parse (dq # format_rfc3339 t @ [dq]) = Some (JStr (format_rfc3339 t))"
    using json_parse_denotes [OF denotes_time] by simp
  ultimately show "time_ok t" "text_ok x d" "denote x = JStr (format_rfc3339 t)"
    using denotes_in_mono [OF denotes_time, of d t] by (simp_all add: value_head_def isSpace_def)
qed

lemma time_text_some: "time_ok t \<Longrightarrow> \<exists>x. time_text t = Some x"
  by (auto simp: time_text_def time_MarshalJSON_def time_ok_def)

text \<open>A message the server can encode and the client decodes to the same message.\<close>

definition message_sendable :: "Message \<Rightarrow> bool" where
  "message_sendable m \<longleftrightarrow> valid_utf8 (m_ID m) \<and> valid_utf8 (m_Payload m) \<and> valid_utf8 (m_Status m) \<and>
     int64_range (m_Priority m) \<and> time_ok (m_EnqueuedAt m) \<and> time_ok (m_AvailableAt m)"

lemma decode_string_quote [simp]: "decode_string (JStr (escape s)) old = Some (ToValidUTF8 s)"
  by (simp add: decode_string_def unquote_escape)

lemma decode_int_Itoa [simp]: "int64_range i \<Longrightarrow> decode_int (JNum (Itoa i)) old = Some i"
  by (simp add: decode_int_def ParseInt_Itoa)

lemma decode_uint_dec [simp]: "decode_uint (JNum (dec (unat w))) old = Some w"
  by (simp add: decode_uint_def ParseUint_dec)

lemma decode_time_format [simp]: "time_ok t \<Longrightarrow> decode_time (JStr (format_rfc3339 t)) old = Some t"
  by (simp add: decode_time_def time_Parse_format)

lemma decode_bool_bool [simp]: "decode_bool (JBool b) old = Some b"
  by (simp add: decode_bool_def)

lemma message_json_ok:
  assumes "message_sendable m"
  shows "\<exists>x. message_json m = Some x \<and> text_ok x 1 \<and>
    decode_struct message_names message_field (denote x) zero_message = Some m"
proof -
  obtain a b where ab: "time_text (m_EnqueuedAt m) = Some a" "time_text (m_AvailableAt m) = Some b"
    using assms time_text_some by (force simp: message_sendable_def)
  note t = time_text_ok [OF ab(1)] time_text_ok [OF ab(2)]
  show ?thesis
    using assms ab t(2) [of 0] t(5) [of 0] t(3,6)
    by (simp add: message_json_def decode_struct_def mg.decode_member_field message_field_def
        zero_message_def message_sendable_def ToValidUTF8_valid)
qed

lemma messages_json_ok:
  assumes "list_all message_sendable ms"
  shows "\<exists>x. messages_json ms = Some x \<and> text_ok x 2 \<and> decode_messages (denote x) = Some ms"
proof -
  have "\<exists>xs. those (map message_json ms) = Some xs \<and> list_all (\<lambda>x. text_ok x 1) xs \<and>
      decode_elements (decode_struct message_names message_field) zero_message (map denote xs) = Some ms"
    using assms
  proof (induction ms)
    case (Cons m ms)
    then obtain x xs where "message_json m = Some x" "text_ok x 1"
        "decode_struct message_names message_field (denote x) zero_message = Some m"
        "those (map message_json ms) = Some xs" "list_all (\<lambda>x. text_ok x 1) xs"
        "decode_elements (decode_struct message_names message_field) zero_message (map denote xs) = Some ms"
      using message_json_ok [of m] by auto
    then show ?case
      by simp
  qed simp
  then show ?thesis
    by (auto simp: messages_json_def decode_messages_def decode_slice_def list.pred_map comp_def list_all_iff)
qed

lemma stats_json_ok:
  assumes "int64_range (qs_Total s)" "int64_range (qs_Available s)" "int64_range (qs_Delayed s)"
  shows "text_ok (stats_json s) 1" "decode_struct stats_names stats_field (denote (stats_json s)) old = Some s"
  using assms
  by (simp_all add: stats_json_def decode_struct_def st.decode_member_field stats_field_def)

definition snapshot_sendable :: "QueueSnapshot \<Rightarrow> bool" where
  "snapshot_sendable s \<longleftrightarrow> valid_utf8 (sn_Mode s) \<and> time_ok (sn_Now s) \<and>
     int64_range (qs_Total (sn_Stats s)) \<and> int64_range (qs_Available (sn_Stats s)) \<and>
     int64_range (qs_Delayed (sn_Stats s)) \<and>
     list_all message_sendable (sn_Ready s) \<and> list_all message_sendable (sn_Delayed s)"

lemma text_ok_mono: "text_ok x d \<Longrightarrow> d \<le> d' \<Longrightarrow> text_ok x d'"
proof (induction x arbitrary: d d')
  case (TArr xs)
  then show ?case
    by (fastforce simp: list_all_iff)
next
  case (TObj ms)
  then show ?case
    by (fastforce simp: list_all_iff)
qed (auto intro: denotes_in_mono)

lemma snapshot_json_ok:
  assumes "snapshot_sendable s"
  shows "\<exists>x. snapshot_json s = Some x \<and> text_ok x 3 \<and>
    decode_struct snapshot_names snapshot_field (denote x) zero_snapshot = Some s"
proof -
  obtain t r d where x: "time_text (sn_Now s) = Some t" "messages_json (sn_Ready s) = Some r"
      "messages_json (sn_Delayed s) = Some d" "text_ok r 2" "text_ok d 2"
      "decode_messages (denote r) = Some (sn_Ready s)" "decode_messages (denote d) = Some (sn_Delayed s)"
    using assms time_text_some messages_json_ok by (metis snapshot_sendable_def)
  note t = time_text_ok [OF x(1)]
  have st: "text_ok (stats_json (sn_Stats s)) 2"
      "decode_struct stats_names stats_field (denote (stats_json (sn_Stats s))) old = Some (sn_Stats s)" for old
    using stats_json_ok [of "sn_Stats s"] text_ok_mono [of "stats_json (sn_Stats s)" 1 2] assms
    by (simp_all add: snapshot_sendable_def)
  show ?thesis
    using assms x t(1,3) t(2) [of 2] st
    by (simp add: snapshot_json_def decode_struct_def [of snapshot_names] sn.decode_member_field
        snapshot_field_def zero_snapshot_def snapshot_sendable_def ToValidUTF8_valid)
qed

lemma request_json_ok:
  assumes "valid_utf8 (req_Payload r)" "int64_range (req_Priority r)" "int64_range (req_DelaySeconds r)"
  shows "text_ok (request_json r) 1"
    "decode_struct request_names request_field (denote (request_json r)) zero_request = Some r"
  using assms
  by (simp_all add: request_json_def decode_struct_def rq.decode_member_field request_field_def
      zero_request_def ToValidUTF8_valid)

end
