(* ===== verification/Api.thy ===== *)
theory Api
  imports Service ModelJson
begin

text \<open>
  The HTTP interface of \<^verbatim>\<open>src/pkg/api/handlers.go\<close>: the routing table of \<^verbatim>\<open>NewHandler\<close> under the
  matching rules of \<^verbatim>\<open>http.ServeMux\<close>, each handler with its status codes and JSON bodies, and the
  recovery middleware.  The handlers work on any implementation of the Go interface \<^verbatim>\<open>Queue\<close>, here a
  record of its methods; the service is the implementation the server uses.

  A handler returns \<^const>\<open>None\<close> when the queue's method panics.  The text of an error that ends with an
  operating system message is an argument; the console page is one too, since it is a file the
  build embeds.
\<close>

section \<open>Requests and responses\<close>

record http_request =
  rq_Method :: string
  rq_Path :: string
  rq_RawQuery :: string
  rq_Body :: bytes
  rq_BodyBroken :: bool

text \<open>
  \<open>rq_Path\<close> is the escaped path.  The body is the bytes that can be read; when \<open>rq_BodyBroken\<close> is set,
  reading past them fails instead of ending.
\<close>

record http_response =
  rs_Status :: nat
  rs_Header :: "(string \<times> string) list"
  rs_Body :: bytes

text \<open>
  What a request gets: a handler's response, or the multiplexer's own reply; a redirect keeps the
  query and replaces the path.
\<close>

datatype http_reply =
    Reply http_response
  | Redirect bytes bytes
  | MethodNotAllowed "string list"
  | NotFound
  | BadRequest

fun reply_status :: "http_reply \<Rightarrow> nat" where
  "reply_status (Reply r) = rs_Status r"
| "reply_status (Redirect path query) = 301"
| "reply_status (MethodNotAllowed ms) = 405"
| "reply_status NotFound = 404"
| "reply_status BadRequest = 400"

section \<open>Percent escapes and queries\<close>

fun pct_unescape :: "bool \<Rightarrow> bytes \<Rightarrow> bytes option" where
  "pct_unescape query [] = Some []"
| "pct_unescape query (c # s) =
    (if c = CHR ''%'' then
       (case s of
          a # b # t \<Rightarrow>
            if is_hex a \<and> is_hex b
            then map_option (\<lambda>r. chr (hex_val a * 16 + hex_val b) # r) (pct_unescape query t)
            else None
        | _ \<Rightarrow> None)
     else map_option (\<lambda>r. (if query \<and> c = CHR ''+'' then CHR '' '' else c) # r) (pct_unescape query s))"

primrec split_at :: "char \<Rightarrow> bytes \<Rightarrow> bytes list" where
  "split_at x [] = [[]]"
| "split_at x (c # s) =
    (if c = x then [] # split_at x s else (c # hd (split_at x s)) # tl (split_at x s))"

definition cut :: "char \<Rightarrow> bytes \<Rightarrow> bytes \<times> bytes" where
  "cut x s = (takeWhile (\<lambda>c. c \<noteq> x) s, tl (dropWhile (\<lambda>c. c \<noteq> x) s))"

definition query_pair :: "bytes \<Rightarrow> (bytes \<times> bytes) option" where
  "query_pair part =
    (if CHR '';'' \<in> set part \<or> part = [] then None
     else case (pct_unescape True (fst (cut (CHR ''='') part)), pct_unescape True (snd (cut (CHR ''='') part))) of
       (Some k, Some v) \<Rightarrow> Some (k, v)
     | _ \<Rightarrow> None)"

text \<open>\<^verbatim>\<open>r.URL.Query().Get(key)\<close>: the first value of the key, the empty string when there is none.\<close>

definition query_get :: "string \<Rightarrow> bytes \<Rightarrow> bytes" where
  "query_get key query =
    (case map_of (List.map_filter query_pair (split_at (CHR ''&'') query)) key of
       None \<Rightarrow> []
     | Some v \<Rightarrow> v)"

section \<open>The multiplexer\<close>

definition path_segments :: "bytes \<Rightarrow> bytes list" where
  "path_segments p =
    fold (\<lambda>s acc. if s = [] \<or> s = ''.'' then acc else if s = ''..'' then butlast acc else acc @ [s])
      (split_at (CHR ''/'') p) []"

definition cleanPath :: "bytes \<Rightarrow> bytes" where
  "cleanPath p0 =
    (if p0 = [] then ''/''
     else
       let p = (if hd p0 = CHR ''/'' then p0 else CHR ''/'' # p0);
           np = (if path_segments p = [] then ''/'' else concat (map (\<lambda>s. CHR ''/'' # s) (path_segments p)))
       in if last p = CHR ''/'' \<and> np \<noteq> ''/'' then np @ ''/'' else np)"

text \<open>The first segment of a path, unescaped when it can be, and what follows it.\<close>

definition firstSegment :: "bytes \<Rightarrow> bytes \<times> bytes" where
  "firstSegment path =
    (if path = ''/'' then (''/'', [])
     else
       let p = tl path; seg = takeWhile (\<lambda>c. c \<noteq> CHR ''/'') p
       in (case pct_unescape False seg of None \<Rightarrow> seg | Some u \<Rightarrow> u, dropWhile (\<lambda>c. c \<noteq> CHR ''/'') p))"

datatype endpoint = ep_enqueue | ep_dequeue | ep_messages | ep_wal | ep_stats | ep_health | ep_console

text \<open>
  The patterns that \<^verbatim>\<open>NewHandler\<close> registers; \<^verbatim>\<open>{$}\<close> is the segment of a lone slash.
\<close>

definition routes :: "(string \<times> string \<times> endpoint) list" where
  "routes =
    [(''POST'', ''enqueue'', ep_enqueue), (''POST'', ''dequeue'', ep_dequeue), (''GET'', ''dequeue'', ep_dequeue),
     (''GET'', ''messages'', ep_messages), (''GET'', ''wal'', ep_wal), (''GET'', ''stats'', ep_stats),
     (''GET'', ''health'', ep_health), (''GET'', ''/'', ep_console)]"

definition path_routes :: "bytes \<Rightarrow> (string \<times> endpoint) list" where
  "path_routes path =
    (case firstSegment path of
       (seg, rest) \<Rightarrow>
         if path \<noteq> [] \<and> rest = [] then [(m, ep). (m, s, ep) \<leftarrow> routes, s = seg] else [])"

text \<open>A \<^verbatim>\<open>HEAD\<close> request matches what \<^verbatim>\<open>GET\<close> matches.\<close>

definition match_route :: "string \<Rightarrow> bytes \<Rightarrow> endpoint option" where
  "match_route method path =
    (case map_of (path_routes path) method of
       Some ep \<Rightarrow> Some ep
     | None \<Rightarrow> if method = ''HEAD'' then map_of (path_routes path) ''GET'' else None)"

definition matchingMethods :: "bytes \<Rightarrow> string list" where
  "matchingMethods path =
    (let ms = map fst (path_routes path @ (if path \<noteq> [] \<and> last path = CHR ''/'' then [] else path_routes (path @ ''/'')))
     in [m \<leftarrow> [''GET'', ''HEAD'', ''POST'']. m \<in> set ms \<or> m = ''HEAD'' \<and> ''GET'' \<in> set ms])"

definition findHandler :: "http_request \<Rightarrow> http_reply + endpoint" where
  "findHandler r =
    (if rq_Path r = ''*'' then Inl BadRequest
     else
       let path = (if rq_Method r = ''CONNECT'' then rq_Path r else cleanPath (rq_Path r))
       in if path \<noteq> rq_Path r then
            Inl (Redirect path (rq_RawQuery r))
          else
            (case match_route (rq_Method r) path of
               Some ep \<Rightarrow> Inr ep
             | None \<Rightarrow>
                 Inl (if matchingMethods path \<noteq> [] then MethodNotAllowed (matchingMethods path) else NotFound)))"

section \<open>Writing responses\<close>

definition encode_failure_body :: bytes where
  "encode_failure_body =
    ''{'' @ [CHR 0x0A] @ ''  \"error\": \"failed to encode response\"'' @ [CHR 0x0A] @ ''}'' @ [CHR 0x0A]"

definition writeJSON :: "nat \<Rightarrow> jtext option \<Rightarrow> http_response" where
  "writeJSON status v =
    (case MarshalIndent v of
       None \<Rightarrow> \<lparr>rs_Status = 500, rs_Header = [(''Content-Type'', ''application/json'')], rs_Body = encode_failure_body\<rparr>
     | Some body \<Rightarrow>
         \<lparr>rs_Status = status, rs_Header = [(''Content-Type'', ''application/json'')], rs_Body = body @ [CHR 0x0A]\<rparr>)"

definition writeError :: "nat \<Rightarrow> string \<Rightarrow> http_response" where
  "writeError status msg = writeJSON status (Some (TObj [(''error'', TStr msg)]))"

definition request_Error :: "request_error \<Rightarrow> string" where
  "request_Error err =
    (case err of
       PayloadEmpty \<Rightarrow> ''payload must not be empty''
     | DelayNegative d \<Rightarrow> ''delay_seconds must be >= 0, got '' @ Itoa d
     | DelayTooLong d \<Rightarrow> ''delay_seconds must be <= '' @ Itoa MaxDelaySeconds @ '' (ten years), got '' @ Itoa d)"

definition service_Error :: "(service_error \<Rightarrow> string) \<Rightarrow> service_error \<Rightarrow> string" where
  "service_Error sys err =
    (case err of
       ServiceClosed \<Rightarrow> ''queue service is closed''
     | InvalidRequest e \<Rightarrow> request_Error e
     | _ \<Rightarrow> sys err)"

definition writeServiceError :: "(service_error \<Rightarrow> string) \<Rightarrow> service_error \<Rightarrow> http_response" where
  "writeServiceError sys err =
    (if err = ServiceClosed then writeError 503 (service_Error sys err)
     else writeError 500 (service_Error sys err))"

section \<open>Handlers\<close>

record 's Queue =
  qi_Enqueue :: "EnqueueRequest \<Rightarrow> 's \<Rightarrow> ('s \<times> (service_error + Message)) option"
  qi_Dequeue :: "'s \<Rightarrow> ('s \<times> (service_error + Message option)) option"
  qi_Stats :: "'s \<Rightarrow> ('s \<times> QueueStats) option"
  qi_Snapshot :: "int \<Rightarrow> 's \<Rightarrow> ('s \<times> QueueSnapshot) option"
  qi_WalTail :: "int \<Rightarrow> 's \<Rightarrow> service_error + WalTail"

record api_env =
  ae_sys :: "service_error \<Rightarrow> string"
  ae_consoleHTML :: bytes

definition maxEnqueueBodyBytes :: nat where "maxEnqueueBodyBytes = 2 ^ 20"
definition defaultMessageLimit :: int where "defaultMessageLimit = 100"
definition maxMessageLimit :: int where "maxMessageLimit = 1000"
definition defaultWalLimit :: int where "defaultWalLimit = 50"
definition maxWalLimit :: int where "maxWalLimit = 500"

definition limited_end :: "nat \<Rightarrow> http_request \<Rightarrow> stream_end" where
  "limited_end n r =
    (if n < length (rq_Body r) then AtLimit else if rq_BodyBroken r then Broken else AtEOF)"

definition api_enqueue ::
  "api_env \<Rightarrow> 's Queue \<Rightarrow> http_request \<Rightarrow> 's \<Rightarrow> ('s \<times> http_response) option" where
  "api_enqueue env q r s =
    (case Decoder_Decode request_names request_field zero_request
            (take maxEnqueueBodyBytes (rq_Body r)) (limited_end maxEnqueueBodyBytes r) of
       Inl MaxBytesError \<Rightarrow> Some (s, writeError 413 ''request body too large'')
     | Inl OtherDecodeError \<Rightarrow> Some (s, writeError 400 ''invalid JSON body'')
     | Inr req \<Rightarrow>
         (case Validate req of
            Some err \<Rightarrow> Some (s, writeError 400 (request_Error err))
          | None \<Rightarrow>
              (case qi_Enqueue q req s of
                 None \<Rightarrow> None
               | Some (s', Inl err) \<Rightarrow> Some (s', writeServiceError (ae_sys env) err)
               | Some (s', Inr msg) \<Rightarrow> Some (s', writeJSON 201 (message_json msg)))))"

definition api_dequeue :: "api_env \<Rightarrow> 's Queue \<Rightarrow> 's \<Rightarrow> ('s \<times> http_response) option" where
  "api_dequeue env q s =
    (case qi_Dequeue q s of
       None \<Rightarrow> None
     | Some (s', Inl err) \<Rightarrow> Some (s', writeServiceError (ae_sys env) err)
     | Some (s', Inr None) \<Rightarrow> Some (s', \<lparr>rs_Status = 204, rs_Header = [], rs_Body = []\<rparr>)
     | Some (s', Inr (Some msg)) \<Rightarrow> Some (s', writeJSON 200 (message_json msg)))"

text \<open>The \<^verbatim>\<open>limit\<close> of a query: the default, a number in range, or an error.\<close>

definition parse_limit :: "int \<Rightarrow> int \<Rightarrow> bytes \<Rightarrow> int option" where
  "parse_limit dflt maxl query =
    (let raw = query_get ''limit'' query
     in if raw = [] then Some dflt
        else case ParseInt raw of
          None \<Rightarrow> None
        | Some n \<Rightarrow> if n < 1 \<or> n > maxl then None else Some n)"

definition limit_error :: "int \<Rightarrow> http_response" where
  "limit_error maxl = writeError 400 (''limit must be an integer between 1 and '' @ Itoa maxl)"

definition api_messages :: "'s Queue \<Rightarrow> http_request \<Rightarrow> 's \<Rightarrow> ('s \<times> http_response) option" where
  "api_messages q r s =
    (case parse_limit defaultMessageLimit maxMessageLimit (rq_RawQuery r) of
       None \<Rightarrow> Some (s, limit_error maxMessageLimit)
     | Some limit \<Rightarrow>
         map_option (\<lambda>(s', snap). (s', writeJSON 200 (snapshot_json snap))) (qi_Snapshot q limit s))"

definition api_wal :: "api_env \<Rightarrow> 's Queue \<Rightarrow> http_request \<Rightarrow> 's \<Rightarrow> ('s \<times> http_response) option" where
  "api_wal env q r s =
    (case parse_limit defaultWalLimit maxWalLimit (rq_RawQuery r) of
       None \<Rightarrow> Some (s, limit_error maxWalLimit)
     | Some limit \<Rightarrow>
         (case qi_WalTail q limit s of
            Inl err \<Rightarrow> Some (s, writeServiceError (ae_sys env) err)
          | Inr tail \<Rightarrow> Some (s, writeJSON 200 (waltail_json tail))))"

definition api_console :: "api_env \<Rightarrow> http_response" where
  "api_console env =
    \<lparr>rs_Status = 200,
     rs_Header = [(''Content-Type'', ''text/html; charset=utf-8''), (''Cache-Control'', ''no-store'')],
     rs_Body = ae_consoleHTML env\<rparr>"

definition api_stats :: "'s Queue \<Rightarrow> 's \<Rightarrow> ('s \<times> http_response) option" where
  "api_stats q s = map_option (\<lambda>(s', st). (s', writeJSON 200 (Some (stats_json st)))) (qi_Stats q s)"

definition api_health :: http_response where
  "api_health = writeJSON 200 (Some (TObj [(''status'', TStr ''healthy'')]))"

definition run_handler ::
  "api_env \<Rightarrow> 's Queue \<Rightarrow> endpoint \<Rightarrow> http_request \<Rightarrow> 's \<Rightarrow> ('s \<times> http_response) option" where
  "run_handler env q ep r s =
    (case ep of
       ep_enqueue \<Rightarrow> api_enqueue env q r s
     | ep_dequeue \<Rightarrow> api_dequeue env q s
     | ep_messages \<Rightarrow> api_messages q r s
     | ep_wal \<Rightarrow> api_wal env q r s
     | ep_stats \<Rightarrow> api_stats q s
     | ep_health \<Rightarrow> Some (s, api_health)
     | ep_console \<Rightarrow> Some (s, api_console env))"

text \<open>
  The middleware turns a panic into a response; the state it leaves is the one before the call,
  which is of no consequence since no handler panics on the service.
\<close>

definition recoverMiddleware :: "'s \<Rightarrow> ('s \<times> http_response) option \<Rightarrow> 's \<times> http_response" where
  "recoverMiddleware s res =
    (case res of None \<Rightarrow> (s, writeError 500 ''internal server error'') | Some x \<Rightarrow> x)"

definition ServeHTTP :: "api_env \<Rightarrow> 's Queue \<Rightarrow> http_request \<Rightarrow> 's \<Rightarrow> 's \<times> http_reply" where
  "ServeHTTP env q r s =
    (case findHandler r of
       Inl reply \<Rightarrow> (s, reply)
     | Inr ep \<Rightarrow> (case recoverMiddleware s (run_handler env q ep r s) of (s', resp) \<Rightarrow> (s', Reply resp)))"

section \<open>The service behind the interface\<close>

text \<open>What one call of the service reads from outside.\<close>

record call_env =
  ce_rand :: "random_bytes option"
  ce_now :: go_time
  ce_append :: append_env
  ce_tail :: tail_env

definition service_queue :: "call_env \<Rightarrow> QueueService Queue" where
  "service_queue ce =
    \<lparr>qi_Enqueue = Enqueue (ce_rand ce) (ce_now ce) (ce_append ce),
     qi_Dequeue = Dequeue (ce_now ce) (ce_append ce),
     qi_Stats = Service_Stats (ce_now ce),
     qi_Snapshot = Service_Snapshot (ce_now ce),
     qi_WalTail = Service_WalTail (ce_tail ce)\<rparr>"

section \<open>What a decoded request is like\<close>

definition request_within :: "nat \<Rightarrow> EnqueueRequest \<Rightarrow> bool" where
  "request_within n req \<longleftrightarrow> valid_utf8 (req_Payload req) \<and> length (escape (req_Payload req)) \<le> 6 * n \<and>
     int64_range (req_Priority req) \<and> int64_range (req_DelaySeconds req)"

lemma ParseInt_range: "ParseInt s = Some i \<Longrightarrow> int64_range i"
  by (auto simp: ParseInt_def int64_range_def Let_def split: if_splits)

lemma request_field_within:
  assumes "request_field name v r = Some r'" "strings_ok (body_within n) v" "request_within n r"
  shows "request_within n r'"
  using assms
  by (auto simp: request_field_def decode_string_def decode_int_def request_within_def
      dest: ParseInt_range body_within_unquote split: if_splits json.splits)

lemma decode_request_within:
  assumes "decode_members request_names request_field ms r = Some r'"
    "strings_ok (body_within n) (JObj ms)" "request_within n r"
  shows "request_within n r'"
  using assms
proof (induction ms arbitrary: r)
  case (Cons m ms)
  then obtain r1 where r1: "decode_member request_names request_field m r = Some r1"
      "decode_members request_names request_field ms r1 = Some r'"
    by (auto split: option.splits)
  have "strings_ok (body_within n) (snd m)"
    using Cons.prems(2) by (cases m) simp
  then have "request_within n r1"
    using r1(1) Cons.prems(3) request_field_within by (auto simp: decode_member_def split: option.splits)
  then show ?case
    using Cons.IH [OF r1(2)] Cons.prems(2) by simp
qed simp

lemma Decoder_request_within:
  assumes "Decoder_Decode request_names request_field zero_request buf fin = Inr req"
  shows "request_within (length buf) req"
proof -
  have zero: "request_within (length buf) zero_request"
    by (simp add: request_within_def zero_request_def int64_range_def)
  obtain v where v: "Decoder_value buf fin = Inr v" "decode_struct request_names request_field v zero_request = Some req"
    using assms by (auto simp: Decoder_Decode_def split: sum.splits option.splits)
  then show ?thesis
    using Decoder_value_ok [OF v(1)] zero decode_request_within
    by (auto simp: decode_struct_def split: json.splits)
qed

lemma decoded_request_ok:
  assumes "Decoder_Decode request_names request_field zero_request (take maxEnqueueBodyBytes body) fin = Inr req"
  shows "ok_request req"
proof -
  have "length (take maxEnqueueBodyBytes body) \<le> 2 ^ 20"
    by (simp add: maxEnqueueBodyBytes_def)
  then show ?thesis
    using Decoder_request_within [OF assms] unfolding request_within_def ok_request_def by simp
qed

section \<open>The contract of the Queue interface\<close>

text \<open>
  What the handlers rely on: on a good state no method panics, whatever well-formed request it is
  given, and each leaves a good state.
\<close>

locale queue_interface =
  fixes q :: "'s Queue" and before :: "'s \<Rightarrow> bool" and after :: "'s \<Rightarrow> bool"
  assumes Enqueue_law: "before s \<Longrightarrow> ok_request req \<Longrightarrow> \<exists>s' r. qi_Enqueue q req s = Some (s', r) \<and> after s'"
    and Dequeue_law: "before s \<Longrightarrow> \<exists>s' r. qi_Dequeue q s = Some (s', r) \<and> after s'"
    and Stats_law: "before s \<Longrightarrow> \<exists>s' st. qi_Stats q s = Some (s', st) \<and> after s'"
    and Snapshot_law: "before s \<Longrightarrow> \<exists>s' sn. qi_Snapshot q limit s = Some (s', sn) \<and> after s'"
    and idle_law: "before s \<Longrightarrow> after s"
begin

lemma enqueue_handler:
  assumes "before s"
  shows "\<exists>s' resp. api_enqueue env q r s = Some (s', resp) \<and> after s'"
proof -
  let ?d = "Decoder_Decode request_names request_field zero_request
    (take maxEnqueueBodyBytes (rq_Body r)) (limited_end maxEnqueueBodyBytes r)"
  show ?thesis
  proof (cases ?d)
    case (Inl err)
    then show ?thesis
      using assms idle_law by (cases err) (simp_all add: api_enqueue_def)
  next
    case (Inr req)
    show ?thesis
    proof (cases "Validate req")
      case None
      obtain s' res where "qi_Enqueue q req s = Some (s', res)" "after s'"
        using Enqueue_law [OF assms decoded_request_ok [OF Inr]] by blast
      then show ?thesis
        using Inr None by (cases res) (simp_all add: api_enqueue_def)
    next
      case (Some err)
      then show ?thesis
        using Inr assms idle_law by (simp add: api_enqueue_def)
    qed
  qed
qed

lemma dequeue_handler:
  assumes "before s"
  shows "\<exists>s' resp. api_dequeue env q s = Some (s', resp) \<and> after s'"
proof -
  obtain s' res where "qi_Dequeue q s = Some (s', res)" "after s'"
    using Dequeue_law [OF assms] by blast
  then show ?thesis
    by (cases res; cases "projr res") (simp_all add: api_dequeue_def)
qed

lemma inspection_handlers:
  assumes "before s"
  shows "\<exists>s' resp. api_messages q r s = Some (s', resp) \<and> after s'"
    and "\<exists>s' resp. api_wal env q r s = Some (s', resp) \<and> after s'"
    and "\<exists>s' resp. api_stats q s = Some (s', resp) \<and> after s'"
proof -
  show "\<exists>s' resp. api_messages q r s = Some (s', resp) \<and> after s'"
  proof (cases "parse_limit defaultMessageLimit maxMessageLimit (rq_RawQuery r)")
    case None
    then show ?thesis
      using idle_law [OF assms] by (simp add: api_messages_def)
  next
    case (Some limit)
    then show ?thesis
      using Snapshot_law [OF assms, of limit] by (auto simp: api_messages_def)
  qed
  show "\<exists>s' resp. api_wal env q r s = Some (s', resp) \<and> after s'"
    using idle_law [OF assms] by (auto simp: api_wal_def split: option.split sum.split)
  show "\<exists>s' resp. api_stats q s = Some (s', resp) \<and> after s'"
    using Stats_law [OF assms] by (auto simp: api_stats_def)
qed

lemma handlers_ok:
  assumes "before s"
  shows "\<exists>s' resp. run_handler env q ep r s = Some (s', resp) \<and> after s'"
  using enqueue_handler [OF assms] dequeue_handler [OF assms] inspection_handlers [OF assms] idle_law [OF assms]
  by (cases ep) (simp_all add: run_handler_def)

end

text \<open>The service meets the contract, as long as its calls get what they need from outside.\<close>

definition service_before :: "QueueMode \<Rightarrow> go_time \<Rightarrow> call_env \<Rightarrow> QueueService \<Rightarrow> bool" where
  "service_before mode t ce s \<longleftrightarrow> t \<le> ce_now ce \<and> ok_random (ce_rand ce) \<and> clean_env (ce_append ce) \<and>
     s_seq s \<noteq> - 1 \<and> (\<exists>es. svc_inv mode t es s)"

definition service_after :: "QueueMode \<Rightarrow> go_time \<Rightarrow> QueueService \<Rightarrow> bool" where
  "service_after mode t s \<longleftrightarrow> (\<exists>es. svc_inv mode t es s)"

interpretation sq: queue_interface "service_queue ce" "service_before mode t ce" "service_after mode (ce_now ce)"
  for mode t ce
proof unfold_locales
  fix s assume b: "service_before mode t ce s"
  then obtain es where inv: "svc_inv mode t es s" and t: "t \<le> ce_now ce" and env: "clean_env (ce_append ce)"
    and rnd: "ok_random (ce_rand ce)" and seq: "s_seq s \<noteq> - 1"
    by (auto simp: service_before_def)
  show "\<exists>s' r. qi_Enqueue (service_queue ce) req s = Some (s', r) \<and> service_after mode (ce_now ce) s'"
    if req: "ok_request req" for req
  proof -
    obtain s' r es' where "Enqueue (ce_rand ce) (ce_now ce) (ce_append ce) req s = Some (s', r)" "svc_inv mode t es' s'"
      using Enqueue_ok [OF inv rnd req env seq, of "ce_now ce"] by blast
    then show ?thesis
      using svc_inv_later [OF _ t, of mode es' s'] by (auto simp: service_queue_def service_after_def)
  qed
  show "\<exists>s' r. qi_Dequeue (service_queue ce) s = Some (s', r) \<and> service_after mode (ce_now ce) s'"
    using Dequeue_ok [OF inv t env] by (auto simp: service_queue_def service_after_def)
  show "\<exists>s' st. qi_Stats (service_queue ce) s = Some (s', st) \<and> service_after mode (ce_now ce) s'"
    using Service_Stats_ok [OF inv t] by (auto simp: service_queue_def service_after_def)
  show "\<exists>s' sn. qi_Snapshot (service_queue ce) limit s = Some (s', sn) \<and> service_after mode (ce_now ce) s'" for limit
    using Service_Snapshot_ok [OF inv t, of limit] by (auto simp: service_queue_def service_after_def)
  show "service_after mode (ce_now ce) s"
    using svc_inv_later [OF inv t] by (auto simp: service_after_def)
qed

section \<open>JSON bodies\<close>

text \<open>A body is the text of an object value when a JSON reader, of either kind, gets that value from it.\<close>

definition object_body :: "bytes \<Rightarrow> json \<Rightarrow> bool" where
  "object_body b v \<longleftrightarrow> json_parse b = Some v \<and> (\<exists>p. b = CHR ''{'' # p)"

lemma object_body_readers:
  assumes "object_body b v"
  shows "unmarshal_struct names field zero b =
      (case decode_struct names field v zero of None \<Rightarrow> Inl JSONDecodeError | Some x \<Rightarrow> Inr x)"
    and "Decoder_Decode names field zero b AtEOF =
      (case decode_struct names field v zero of None \<Rightarrow> Inl OtherDecodeError | Some x \<Rightarrow> Inr x)"
  using assms Decoder_value_object [of b v _ "[]"]
  by (auto simp: object_body_def unmarshal_struct_def Decoder_Decode_def)

lemma json_Indent_brace: "json_Indent (CHR ''{'' # s) = Some t \<Longrightarrow> \<exists>p. t = CHR ''{'' # p"
  by (auto simp: json_Indent_def scan_reset_def skips_space_def isSpace_def indent_byte_def in_token_def
      split: option.splits)

lemma writeJSON_object:
  assumes "text_ok (TObj ms) d" "d \<le> maxNestingDepth"
  shows "rs_Status (writeJSON status (Some (TObj ms))) = status"
    and "object_body (rs_Body (writeJSON status (Some (TObj ms)))) (denote (TObj ms))"
proof -
  obtain t where t: "MarshalIndent (Some (TObj ms)) = Some t" "json_parse t = Some (denote (TObj ms))"
    using MarshalIndent_ok [OF assms] by blast
  moreover obtain p where p: "t = CHR ''{'' # p"
    using json_Indent_brace t(1) by (auto simp: MarshalIndent_def object_text_def)
  moreover have "json_parse (t @ [CHR 0x0A]) = Some (denote (TObj ms))"
    using json_parse_trailing_space [OF t(2) p, of "[CHR 0x0A]"] by (simp add: isSpace_def)
  ultimately show "rs_Status (writeJSON status (Some (TObj ms))) = status"
    "object_body (rs_Body (writeJSON status (Some (TObj ms)))) (denote (TObj ms))"
    by (simp_all add: writeJSON_def object_body_def)
qed

lemma writeError_body:
  "rs_Status (writeError status msg) = status"
  "object_body (rs_Body (writeError status msg)) (JObj [(''error'', JStr (escape msg))])"
proof -
  have "plain_name ''error''"
    by code_simp
  then have "text_ok (TObj [(''error'', TStr msg)]) 1"
    by simp
  from writeJSON_object [OF this] show "rs_Status (writeError status msg) = status"
    "object_body (rs_Body (writeError status msg)) (JObj [(''error'', JStr (escape msg))])"
    by (simp_all add: writeError_def maxNestingDepth_def)
qed

lemma writeJSON_message:
  assumes "message_sendable m"
  shows "rs_Status (writeJSON status (message_json m)) = status"
    and "unmarshal_struct message_names message_field zero_message (rs_Body (writeJSON status (message_json m))) = Inr m"
proof -
  obtain x where x: "message_json m = Some x" "text_ok x 1"
      "decode_struct message_names message_field (denote x) zero_message = Some m"
    using message_json_ok [OF assms] by blast
  then obtain ms where ms: "x = TObj ms"
    by (auto simp: message_json_def bind_eq_Some_conv)
  have "1 \<le> maxNestingDepth" "3 \<le> maxNestingDepth"
    by (simp_all add: maxNestingDepth_def)
  note wj = writeJSON_object [OF x(2) [unfolded ms] this(1)]
  show "rs_Status (writeJSON status (message_json m)) = status"
    "unmarshal_struct message_names message_field zero_message (rs_Body (writeJSON status (message_json m))) = Inr m"
    using wj(1) x object_body_readers(1) [OF wj(2), of message_names message_field zero_message] by (simp_all add: ms)
qed

lemma writeJSON_snapshot:
  assumes "snapshot_sendable sn"
  shows "rs_Status (writeJSON status (snapshot_json sn)) = status"
    and "Decoder_Decode snapshot_names snapshot_field zero_snapshot (rs_Body (writeJSON status (snapshot_json sn))) AtEOF
      = Inr sn"
proof -
  obtain x where x: "snapshot_json sn = Some x" "text_ok x 3"
      "decode_struct snapshot_names snapshot_field (denote x) zero_snapshot = Some sn"
    using snapshot_json_ok [OF assms] by blast
  then obtain ms where ms: "x = TObj ms"
    by (auto simp: snapshot_json_def bind_eq_Some_conv)
  have "1 \<le> maxNestingDepth" "3 \<le> maxNestingDepth"
    by (simp_all add: maxNestingDepth_def)
  note wj = writeJSON_object [OF x(2) [unfolded ms] this(2)]
  show "rs_Status (writeJSON status (snapshot_json sn)) = status"
    "Decoder_Decode snapshot_names snapshot_field zero_snapshot (rs_Body (writeJSON status (snapshot_json sn))) AtEOF
      = Inr sn"
    using wj(1) x object_body_readers(2) [OF wj(2), of snapshot_names snapshot_field zero_snapshot] by (simp_all add: ms)
qed

section \<open>Stored messages can be sent\<close>

lemma time_ok_zero: "time_ok 0"
  by code_simp

lemma written_times:
  assumes "written e l"
  shows "time_ok (derefTime (le_EnqueuedAt e))" "time_ok (derefTime (le_AvailableAt e))" "int64_range (derefInt (le_Priority e))"
proof -
  have "Marshal e = Some l" "entry_range e"
    using assms by (simp_all add: written_def)
  then show "time_ok (derefTime (le_EnqueuedAt e))" "time_ok (derefTime (le_AvailableAt e))"
    "int64_range (derefInt (le_Priority e))"
    by (auto elim!: Marshal_SomeD omit_time_SomeD
        simp: derefTime_def derefInt_def entry_range_def time_ok_zero int64_range_def split: option.splits)
qed

lemma live_times:
  assumes "list_all2 written es ls" "live es i = Some m"
  shows "time_ok (m_EnqueuedAt m) \<and> time_ok (m_AvailableAt m) \<and> int64_range (m_Priority m)"
  using assms
proof (induction es arbitrary: ls rule: rev_induct)
  case (snoc e es)
  then obtain ls' l where l: "list_all2 written es ls'" "written e l"
    by (auto simp: list_all2_append1 list_all2_Cons1)
  have new: "time_ok (m_EnqueuedAt (recovered_message (normal_entry e)))"
    "time_ok (m_AvailableAt (recovered_message (normal_entry e)))"
    "int64_range (m_Priority (recovered_message (normal_entry e)))"
    using written_times [OF l(2)] by (simp_all add: recovered_message_def normal_entry_def)
  show ?case
    using snoc.IH [OF l(1)] snoc.prems(2) new by (auto simp: apply_live_def split: if_splits)
qed simp

lemma svc_inv_sendable:
  assumes "svc_inv mode t es s" "live es i = Some m"
  shows "message_sendable m"
proof -
  obtain ls where "list_all2 written es ls"
    using assms(1) by (auto simp: svc_inv_def log_of_def)
  from live_times [OF this assms(2)] show ?thesis
    using assms by (auto simp: svc_inv_def stored_ok_def message_valid_def message_sendable_def)
qed

section \<open>What a snapshot lists\<close>

lemma limited_subset: "set (limited limit xs) \<subseteq> set xs"
  by (auto simp: limited_def dest: in_set_takeD)

lemma limited_length: "0 < limit \<Longrightarrow> int (length (limited limit xs)) \<le> limit"
  by (simp add: limited_def)

lemma Service_Snapshot_bounds:
  assumes "svc_inv mode t es s" "t \<le> now" "Service_Snapshot now limit s = Some (s', sn)"
  shows "set (sn_Ready sn) \<union> set (sn_Delayed sn) \<subseteq> ran (live es)"
    and "0 < limit \<Longrightarrow> int (length (sn_Ready sn)) \<le> limit \<and> int (length (sn_Delayed sn)) \<le> limit"
proof -
  obtain rs ds where l: "in_order (ready_lt mode) (visible (q_abs (s_queue s)) now) rs"
      "in_order delayed_lt (hidden (q_abs (s_queue s)) now) ds"
      "sn_Ready sn = map fst (limited limit rs)" "sn_Delayed sn = map fst (limited limit ds)"
    using Service_Snapshot_lists [OF assms] by blast
  have "fst e \<in> ran (live es)" if e: "e \<in> ran (q_abs (s_queue s))" for e
  proof -
    obtain i where "q_abs (s_queue s) i = Some e"
      using e by (auto simp: ran_def)
    then have "q_messages (s_queue s) i = Some (fst e)"
      by (simp add: q_messages_def)
    moreover have "q_messages (s_queue s) = live es"
      using assms(1) by (simp add: svc_inv_def)
    ultimately show ?thesis
      by (auto intro: ranI)
  qed
  then show "set (sn_Ready sn) \<union> set (sn_Delayed sn) \<subseteq> ran (live es)"
    using l limited_subset [of limit rs] limited_subset [of limit ds]
    by (fastforce simp: in_order_def visible_def hidden_def)
  show "0 < limit \<Longrightarrow> int (length (sn_Ready sn)) \<le> limit \<and> int (length (sn_Delayed sn)) \<le> limit"
    using l limited_length [of limit rs] limited_length [of limit ds] by simp
qed

lemma stats_of_range:
  assumes "finite (dom c)" "card (dom c) < 2 ^ 63" "card (visible_in c now) \<le> card (dom c)"
  shows "int64_range (qs_Total (stats_of c now))" "int64_range (qs_Available (stats_of c now))"
    "int64_range (qs_Delayed (stats_of c now))"
  using assms(2,3) by (simp_all add: stats_of_def int64_range_def)

text \<open>A message that the service hands back can be sent, because its record could be written.\<close>

lemma WriteEnqueue_times:
  assumes "WriteEnqueue env m w = (w', None)"
  shows "time_ok (m_EnqueuedAt m)" "time_ok (m_AvailableAt m)"
proof -
  obtain b where "Marshal (stamped env (enqueue_entry m) w) = Some b"
    using assms by (auto simp: WriteEnqueue_def split: if_splits elim!: appendLocked_ok)
  then show "time_ok (m_EnqueuedAt m)" "time_ok (m_AvailableAt m)"
    by (auto elim!: Marshal_SomeD omit_time_SomeD simp: stamped_def enqueue_entry_def)
qed

lemma Enqueue_sendable:
  assumes "Enqueue rnd now env req s = Some (s', Inr m)" "ok_random rnd" "ok_request req"
  shows "message_sendable m"
proof -
  obtain u w' where u: "newUUID rnd = Some u" "m = new_message u (s_seq s + 1) now req"
      "WriteEnqueue env m (s_wal s) = (w', None)"
    using assms(1) by (auto simp: Enqueue_def Let_def split: option.splits if_splits prod.splits)
  have "valid_utf8 u"
    using u(1) assms(2) newUUID_ok uuid_valid
    by (cases rnd) (auto simp: ok_random_def newUUID_def elim!: newUUID_ok)
  then show ?thesis
    using WriteEnqueue_times [OF u(3)] u(2) assms(3) ops_valid(3)
    by (simp add: message_sendable_def ok_request_def new_message_def)
qed

lemma Enqueue_needs:
  assumes "Enqueue rnd now env req s = Some (s', Inr m)"
  shows "working_env env" "time_ok now" "time_ok (m_AvailableAt m)"
proof -
  obtain u w' where u: "m = new_message u (s_seq s + 1) now req" "WriteEnqueue env m (s_wal s) = (w', None)"
    using assms by (auto simp: Enqueue_def Let_def split: option.splits if_splits prod.splits)
  then show "working_env env" "time_ok now" "time_ok (m_AvailableAt m)"
    using WriteEnqueue_times [OF u(2)] append_working
    by (auto simp: WriteEnqueue_def new_message_def split: if_splits)
qed

lemma Dequeue_needs:
  assumes "Dequeue now env s = Some (s', Inr (Some m))"
  shows "working_env env"
  using assms append_working
  by (auto simp: Dequeue_def WriteDequeue_def split: option.splits if_splits prod.splits)

end
