(* ===== verification/Api_Props.thy ===== *)
theory Api_Props
  imports Api Service_Props
begin

text \<open>
  The properties of the HTTP interface: no request can panic the server or break the agreement of
  memory and log; the status codes and bodies of each endpoint; the limits and the routing table;
  and that requests and messages come through the wire unchanged.
\<close>

section \<open>Any request at all\<close>

definition good_call :: "go_time \<Rightarrow> call_env \<Rightarrow> bool" where
  "good_call t ce \<longleftrightarrow> t \<le> ce_now ce \<and> ok_random (ce_rand ce) \<and> clean_env (ce_append ce)"

lemma reach_before:
  assumes "service_reach mode path t s" "good_call t ce" "s_seq s \<noteq> - 1"
  shows "service_before mode t ce s"
  using assms service_reach_inv [OF assms(1)] by (auto simp: service_before_def good_call_def)

lemma writeJSON_status: "rs_Status (writeJSON status v) \<in> {status, 500}"
  by (simp add: writeJSON_def split: option.split)

lemma writeServiceError_status: "rs_Status (writeServiceError sys err) \<in> {500, 503}"
  by (simp add: writeServiceError_def writeError_body)

definition documented_status :: "nat set" where
  "documented_status = {200, 201, 204, 301, 400, 404, 405, 413, 500, 503}"

lemma handler_status:
  assumes "run_handler env q ep r s = Some (s', resp)"
  shows "rs_Status resp \<in> documented_status"
proof -
  have js: "rs_Status (writeJSON 201 v) \<in> documented_status" "rs_Status (writeJSON 200 v) \<in> documented_status"
    "rs_Status (writeServiceError sys err) \<in> documented_status" for v sys err
    using writeJSON_status [of 201 v] writeJSON_status [of 200 v] writeServiceError_status [of sys err]
    by (auto simp: documented_status_def)
  have codes: "{200, 204, 400, 413} \<subseteq> documented_status"
    by (simp add: documented_status_def)
  show ?thesis
    using assms js codes
    by (cases ep)
      (auto simp: run_handler_def api_enqueue_def api_dequeue_def api_messages_def api_wal_def api_stats_def
        api_health_def api_console_def limit_error_def writeError_body
        split: sum.splits decode_error.splits option.splits)
qed

lemma mux_status: "findHandler r = Inl reply \<Longrightarrow> reply_status reply \<in> documented_status"
  by (auto simp: findHandler_def Let_def documented_status_def split: if_splits option.splits)

lemma handler_reach:
  assumes "service_reach mode path t s" "good_call t ce" "s_seq s \<noteq> - 1"
    and "run_handler env (service_queue ce) ep r s = Some (s', resp)"
  shows "\<exists>t' \<le> ce_now ce. service_reach mode path t' s'"
proof -
  have t: "t \<le> ce_now ce" "ok_random (ce_rand ce)" "clean_env (ce_append ce)"
    using assms(2) by (simp_all add: good_call_def)
  note step = service_reach.intros(2-5) [OF assms(1)]
  have enq: ?thesis if h: "api_enqueue env (service_queue ce) r s = Some (s', resp)"
  proof (cases "s' = s")
    case True
    then show ?thesis
      using assms(1) t(1) by blast
  next
    case False
    then obtain req res where "Decoder_Decode request_names request_field zero_request
        (take maxEnqueueBodyBytes (rq_Body r)) (limited_end maxEnqueueBodyBytes r) = Inr req"
        "Enqueue (ce_rand ce) (ce_now ce) (ce_append ce) req s = Some (s', res)"
      using h by (auto simp: api_enqueue_def service_queue_def split: sum.splits decode_error.splits option.splits)
    then show ?thesis
      using step(1) [OF t(2) decoded_request_ok t(3) assms(3)] t(1) by blast
  qed
  have deq: ?thesis if "api_dequeue env (service_queue ce) s = Some (s', resp)"
    using that step(2) [OF t(1,3)]
    by (auto simp: api_dequeue_def service_queue_def split: sum.splits option.splits prod.splits)
  have msg: ?thesis if "api_messages (service_queue ce) r s = Some (s', resp)"
    using that step(4) [OF t(1)] assms(1) t(1)
    by (auto simp: api_messages_def service_queue_def split: option.splits)
  have sta: ?thesis if "api_stats (service_queue ce) s = Some (s', resp)"
    using that step(3) [OF t(1)] by (auto simp: api_stats_def service_queue_def)
  have wal: ?thesis if "api_wal env (service_queue ce) r s = Some (s', resp)"
    using that assms(1) t(1) by (auto simp: api_wal_def split: option.splits sum.splits)
  show ?thesis
    using assms(1,4) t(1) enq deq msg sta wal by (cases ep) (auto simp: run_handler_def)
qed

lemma any_handler_returns:
  assumes "service_reach mode path t s" "good_call t ce" "s_seq s \<noteq> - 1"
  shows "\<exists>s' resp. run_handler env (service_queue ce) ep r s = Some (s', resp)"
  using sq.handlers_ok [OF reach_before [OF assms], of env ep r] by blast

text \<open>
  C27: No HTTP request breaks the queue.  Whatever bytes arrive as method, path, query and body,
  the handler that serves them does not panic, so the recovery middleware has nothing to do; the
  service is left in a reachable state again, in which memory and log agree; and the status is one
  of those the interface documents.
\<close>

theorem any_http_request_is_safe:
  assumes "service_reach mode path t s" and "good_call t ce" and "s_seq s \<noteq> - 1"
  shows "\<exists>s' reply. ServeHTTP env (service_queue ce) r s = (s', reply) \<and>
    (\<forall>ep. findHandler r = Inr ep \<longrightarrow>
       (\<exists>resp. run_handler env (service_queue ce) ep r s = Some (s', resp) \<and> reply = Reply resp)) \<and>
    (\<exists>t' \<le> ce_now ce. service_reach mode path t' s') \<and> reply_status reply \<in> documented_status"
proof (cases "findHandler r")
  case (Inl reply)
  then show ?thesis
    using mux_status [OF Inl] assms(1,2) by (auto simp: ServeHTTP_def good_call_def)
next
  case (Inr ep)
  obtain s' resp where h: "run_handler env (service_queue ce) ep r s = Some (s', resp)"
    using any_handler_returns [OF assms] by blast
  then have "ServeHTTP env (service_queue ce) r s = (s', Reply resp)"
    using Inr by (simp add: ServeHTTP_def recoverMiddleware_def)
  then show ?thesis
    using Inr h handler_reach [OF assms h] handler_status [OF h] by simp
qed

definition ex_call :: call_env where
  "ex_call = \<lparr>ce_rand = Some ex_random, ce_now = ex_time, ce_append = ex_env, ce_tail = ex_tail\<rparr>"

definition ex_post :: http_request where
  "ex_post = \<lparr>rq_Method = ''POST'', rq_Path = ''/enqueue'', rq_RawQuery = [],
     rq_Body = ''{\"payload\":\"hi\",\"priority\":5,\"delay_seconds\":2}'', rq_BodyBroken = False\<rparr>"

lemma ex_good_call: "good_call ex_time ex_call"
  by (simp add: good_call_def ex_call_def)

definition ex_api :: api_env where
  "ex_api = \<lparr>ae_sys = (\<lambda>_. ''write failed''), ae_consoleHTML = ''<html></html>''\<rparr>"

theorem any_http_request_is_safe_witness:
  "\<exists>s' reply. ServeHTTP ex_api (service_queue ex_call) ex_post ex_service = (s', reply) \<and>
    (\<exists>t'. service_reach ModeFIFO ''q.wal'' t' s') \<and> reply_status reply \<in> documented_status"
  using any_http_request_is_safe [OF ex_service_reach(1) ex_good_call ex_service_seq, of ex_api ex_post] by auto

section \<open>Enqueue and dequeue over HTTP\<close>

definition error_body :: "bytes \<Rightarrow> bool" where
  "error_body b \<longleftrightarrow> (\<exists>msg. object_body b (JObj [(''error'', JStr (escape msg))]))"

lemma error_bodies:
  "error_body (rs_Body (writeError status msg))" "error_body (rs_Body (writeServiceError sys err))"
  "rs_Status (writeServiceError sys err) = (if err = ServiceClosed then 503 else 500)"
  using writeError_body(2) by (auto simp: error_body_def writeServiceError_def writeError_body(1) intro: exI)

lemma enqueue_response:
  assumes "svc_inv mode t es s" "ok_random (ce_rand ce)" "clean_env (ce_append ce)" "s_seq s \<noteq> - 1"
    and "ok_request req" "Validate req = None"
    and "Decoder_Decode request_names request_field zero_request
      (take maxEnqueueBodyBytes (rq_Body r)) (limited_end maxEnqueueBodyBytes r) = Inr req"
  shows "\<exists>s' res es' resp. Enqueue (ce_rand ce) (ce_now ce) (ce_append ce) req s = Some (s', res) \<and> svc_inv mode t es' s' \<and>
    api_enqueue env (service_queue ce) r s = Some (s', resp) \<and>
    (case res of
       Inl err \<Rightarrow> resp = writeServiceError (ae_sys env) err \<and> es' = es \<and> s_seq s' = s_seq s \<and>
         w_disk (s_wal s') = w_disk (s_wal s)
     | Inr m \<Rightarrow> m_Seq m = s_seq s + 1 \<and> m_EnqueuedAt m = ce_now ce \<and> live es' = enqueued_messages (live es) m \<and>
         rs_Status resp = 201 \<and> unmarshal_struct message_names message_field zero_message (rs_Body resp) = Inr m)"
proof -
  obtain s' res es' where e: "Enqueue (ce_rand ce) (ce_now ce) (ce_append ce) req s = Some (s', res)"
      "svc_inv mode t es' s'"
      "case res of
         Inl _ \<Rightarrow> es' = es \<and> s_queue s' = s_queue s \<and> s_seq s' = s_seq s \<and> s_closed s' = s_closed s
       | Inr m \<Rightarrow> \<not> s_closed s \<and> s_seq s' = s_seq s + 1 \<and> m_Seq m = s_seq s' \<and>
           live es' = enqueued_messages (live es) m"
    using Enqueue_ok [OF assms(1,2,5,3,4), of "ce_now ce"] by blast
  show ?thesis
  proof (cases res)
    case (Inl err)
    then show ?thesis
      using assms(6,7) e Enqueue_error_disk [OF _ assms(3)] by (auto simp: api_enqueue_def service_queue_def)
  next
    case (Inr m)
    have "message_sendable m"
      using Enqueue_sendable [OF _ assms(2,5)] e(1) Inr by blast
    note wj = writeJSON_message [OF this, of 201]
    have "m_EnqueuedAt m = ce_now ce"
      using e(1) Inr by (auto simp: Enqueue_def Let_def new_message_def split: option.splits if_splits prod.splits)
    moreover have "api_enqueue env (service_queue ce) r s = Some (s', writeJSON 201 (message_json m))"
      using assms(6,7) e(1) Inr by (simp add: api_enqueue_def service_queue_def)
    ultimately show ?thesis
      using wj e Inr by auto
  qed
qed

lemma too_large_means_too_long:
  assumes "Decoder_Decode names field zero buf (limited_end n r) = Inl MaxBytesError"
  shows "n < length (rq_Body r)"
  using assms
  by (auto simp: Decoder_Decode_def Decoder_value_def limited_end_def
      split: sum.splits option.splits stream_stop.splits stream_end.splits if_splits)

text \<open>
  C28: What \<^verbatim>\<open>POST /enqueue\<close> answers is what happened, on every branch and whatever the log's writes and
  syncs do.  A body cut off by the limit gets 413, and only a body of more than 1 MiB can; one that
  does not decode gets 400, and so does a request that is not valid; without random bytes it is
  500, on a closed service 503; in all these cases nothing changes.  Otherwise the message that the
  request asks for gets the next sequence number.  When the log works and the times have four-digit
  years, the status is 201, the body decodes on the client's side to that message, and it is stored
  in memory and durably in the log.  In every other case the status is 500, memory and counter are
  as before, and a restart finds the message exactly when the failed write had transferred the whole
  text of its record.
\<close>

theorem http_enqueue_contract:
  assumes "service_reach mode path t s" and "ok_random (ce_rand ce)" and "s_seq s \<noteq> - 1" and "read_ok renv"
  shows "\<exists>s' resp. api_enqueue env (service_queue ce) r s = Some (s', resp) \<and>
    (rs_Status resp \<noteq> 201 \<longrightarrow> error_body (rs_Body resp)) \<and>
    (case Decoder_Decode request_names request_field zero_request
        (take maxEnqueueBodyBytes (rq_Body r)) (limited_end maxEnqueueBodyBytes r) of
       Inl MaxBytesError \<Rightarrow> rs_Status resp = 413 \<and> maxEnqueueBodyBytes < length (rq_Body r) \<and> s' = s
     | Inl OtherDecodeError \<Rightarrow> rs_Status resp = 400 \<and> s' = s
     | Inr req \<Rightarrow>
         if Validate req \<noteq> None then rs_Status resp = 400 \<and> s' = s
         else if ce_rand ce = None then rs_Status resp = 500 \<and> s' = s
         else if s_closed s then rs_Status resp = 503 \<and> s' = s
         else \<exists>m. message_for (ce_rand ce) (s_seq s + 1) (ce_now ce) req m \<and>
           (if working_env (ce_append ce) \<and> time_ok (ce_now ce) \<and> time_ok (m_AvailableAt m)
            then rs_Status resp = 201 \<and>
              unmarshal_struct message_names message_field zero_message (rs_Body resp) = Inr m \<and>
              q_messages (s_queue s') = enqueued_messages (q_messages (s_queue s)) m \<and> s_seq s' = s_seq s + 1 \<and>
              (\<exists>es'. log_of es' (w_disk (s_wal s')) \<and> live es' = q_messages (s_queue s'))
            else rs_Status resp = 500 \<and>
              (\<exists>err. failed_write path mode renv s (enqueued_messages (q_messages (s_queue s)) m) err s')))"
proof -
  obtain es where inv: "svc_inv mode t es s"
    using service_reach_inv [OF assms(1)] by blast
  then have msgs: "q_messages (s_queue s) = live es"
    by (simp add: svc_inv_def)
  let ?d = "Decoder_Decode request_names request_field zero_request
    (take maxEnqueueBodyBytes (rq_Body r)) (limited_end maxEnqueueBodyBytes r)"
  show ?thesis
  proof (cases ?d)
    case (Inl err)
    then show ?thesis
      using too_large_means_too_long
      by (cases err) (simp_all add: api_enqueue_def writeError_body error_bodies)
  next
    case (Inr req)
    show ?thesis
    proof (cases "Validate req")
      case (Some err)
      then show ?thesis
        using Inr by (simp add: api_enqueue_def writeError_body error_bodies)
    next
      case None
      note ok = decoded_request_ok [OF Inr]
      obtain s' res where e: "Enqueue (ce_rand ce) (ce_now ce) (ce_append ce) req s = Some (s', res)"
          "case res of
             Inr m \<Rightarrow> Validate req = None \<and> \<not> s_closed s \<and> message_for (ce_rand ce) (s_seq s + 1) (ce_now ce) req m \<and>
               s_seq s' = s_seq s + 1 \<and> \<not> s_closed s' \<and> (\<exists>es'. svc_inv mode t es' s' \<and> live es' = enqueued_messages (live es) m)
           | Inl (InvalidRequest e) \<Rightarrow> Validate req = Some e \<and> s' = s
           | Inl RandFailed \<Rightarrow> Validate req = None \<and> ce_rand ce = None \<and> s' = s
           | Inl ServiceClosed \<Rightarrow> Validate req = None \<and> ce_rand ce \<noteq> None \<and> s_closed s \<and> s' = s
           | Inl (WalFailed err) \<Rightarrow> Validate req = None \<and> \<not> s_closed s \<and>
               (\<exists>m. message_for (ce_rand ce) (s_seq s + 1) (ce_now ce) req m \<and>
                  failed_write path mode renv s (enqueued_messages (live es) m) err s')
           | Inl (InvalidMode _) \<Rightarrow> False"
        using Enqueue_any [OF inv reach_mode [OF assms(1)] assms(4,2) ok assms(3), of "ce_now ce" "ce_append ce" path] by blast
      show ?thesis
      proof (cases res)
        case (Inr m)
        have "message_sendable m"
          using Enqueue_sendable [OF _ assms(2) ok] e(1) Inr by blast
        note wj = writeJSON_message [OF this, of 201]
        have rnd: "ce_rand ce \<noteq> None"
          using e(2) Inr by (cases "ce_rand ce") auto
        have "api_enqueue env (service_queue ce) r s = Some (s', writeJSON 201 (message_json m))"
          using None \<open>?d = Inr req\<close> e(1) Inr by (simp add: api_enqueue_def service_queue_def)
        moreover have "message_for (ce_rand ce) (s_seq s + 1) (ce_now ce) req m" "\<not> s_closed s" "s_seq s' = s_seq s + 1"
          "q_messages (s_queue s') = enqueued_messages (live es) m"
          "\<exists>es'. log_of es' (w_disk (s_wal s')) \<and> live es' = q_messages (s_queue s')"
          using e(2) Inr by (auto simp: svc_inv_def)
        ultimately show ?thesis
          using None \<open>?d = Inr req\<close> rnd wj Enqueue_needs [of "ce_rand ce" "ce_now ce" "ce_append ce" req s s' m] e(1) Inr
          unfolding msgs by auto
      next
        case (Inl err)
        have resp: "api_enqueue env (service_queue ce) r s = Some (s', writeServiceError (ae_sys env) err)"
          using None \<open>?d = Inr req\<close> e(1) Inl by (simp add: api_enqueue_def service_queue_def)
        have "\<not> (working_env (ce_append ce) \<and> time_ok (ce_now ce) \<and> time_ok (m_AvailableAt m))"
          if "message_for (ce_rand ce) (s_seq s + 1) (ce_now ce) req m" "\<not> s_closed s" "ce_rand ce \<noteq> None" for m
          using Enqueue_succeeds [where env = "ce_append ce" and now = "ce_now ce",
              OF inv assms(2) ok assms(3) None that(3,2)] that(1) e(1) Inl
          by (auto simp: message_for_def)
        then show ?thesis
          using None \<open>?d = Inr req\<close> e(2) Inl resp unfolding msgs
          by (cases err) (auto simp: error_bodies)
      qed
    qed
  qed
qed

lemma ex_decoded:
  "Decoder_Decode request_names request_field zero_request
     (take maxEnqueueBodyBytes (rq_Body ex_post)) (limited_end maxEnqueueBodyBytes ex_post) = Inr ex_request"
  by code_simp

lemma ex_post_accepted:
  "\<exists>s' resp. api_enqueue ex_api (service_queue ex_call) ex_post ex_service = Some (s', resp) \<and> rs_Status resp = 201"
proof -
  obtain s' m where m: "Enqueue (Some ex_random) ex_time ex_env ex_request ex_service = Some (s', Inr m)"
    using ex_enqueue by (auto split: option.splits prod.splits sum.splits)
  then have "api_enqueue ex_api (service_queue ex_call) ex_post ex_service = Some (s', writeJSON 201 (message_json m))"
    by (simp add: api_enqueue_def ex_decoded service_queue_def ex_call_def)
  then show ?thesis
    using writeJSON_message(1) [OF Enqueue_sendable [OF m]] by simp
qed

theorem http_enqueue_contract_witness:
  "\<exists>s' resp m. api_enqueue ex_api (service_queue ex_call) ex_post ex_service = Some (s', resp) \<and>
    rs_Status resp = 201 \<and> m_Payload m = ''hi'' \<and> m_Priority m = 5 \<and>
    unmarshal_struct message_names message_field zero_message (rs_Body resp) = Inr m \<and>
    q_messages (s_queue s') = [m_ID m \<mapsto> m]"
proof -
  have env: "ce_rand ex_call = Some ex_random" "Validate ex_request = None" "\<not> s_closed ex_service"
    by (simp_all add: ex_call_def)
  have rnd: "ok_random (ce_rand ex_call)"
    by (simp add: env)
  from http_enqueue_contract [OF ex_service_reach(1) rnd ex_service_seq ex_ok(1), of ex_api ex_post] ex_post_accepted
  show ?thesis
    by (auto simp: ex_decoded env enqueued_messages_def message_for_def ex_request_def split: if_splits)
qed

lemma dequeue_response:
  assumes "svc_inv mode t es s" "t \<le> ce_now ce" "clean_env (ce_append ce)"
  shows "\<exists>s' res es' resp. Dequeue (ce_now ce) (ce_append ce) s = Some (s', res) \<and> svc_inv mode (ce_now ce) es' s' \<and>
    api_dequeue env (service_queue ce) s = Some (s', resp) \<and>
    (case res of
       Inl err \<Rightarrow> resp = writeServiceError (ae_sys env) err \<and> es' = es \<and> w_disk (s_wal s') = w_disk (s_wal s)
     | Inr d \<Rightarrow> popped mode (ce_now ce) (live es) d (live es') \<and>
         (case d of
            None \<Rightarrow> resp = \<lparr>rs_Status = 204, rs_Header = [], rs_Body = []\<rparr>
          | Some m \<Rightarrow> rs_Status resp = 200 \<and>
              unmarshal_struct message_names message_field zero_message (rs_Body resp) = Inr m))"
proof -
  obtain s' res es' where d: "Dequeue (ce_now ce) (ce_append ce) s = Some (s', res)" "svc_inv mode (ce_now ce) es' s'"
      "case res of Inl _ \<Rightarrow> es' = es
       | Inr d \<Rightarrow> \<not> s_closed s \<and> popped mode (ce_now ce) (live es) d (live es') \<and> (d = None \<longrightarrow> es' = es)"
    using Dequeue_ok [OF assms] by blast
  show ?thesis
  proof (cases res)
    case (Inl err)
    then show ?thesis
      using d Dequeue_error_disk [OF _ assms(3)] by (auto simp: api_dequeue_def service_queue_def)
  next
    case (Inr x)
    show ?thesis
    proof (cases x)
      case None
      then show ?thesis
        using d Inr by (auto simp: api_dequeue_def service_queue_def)
    next
      case (Some m)
      then have "live es (m_ID m) = Some m"
        using d(3) Inr by (simp add: popped_def)
      note wj = writeJSON_message [OF svc_inv_sendable [OF assms(1) this], of 200]
      show ?thesis
        using d Inr Some wj by (auto simp: api_dequeue_def service_queue_def)
    qed
  qed
qed

text \<open>
  C29: What \<^verbatim>\<open>POST\<close> or \<^verbatim>\<open>GET /dequeue\<close> answers is what happened, on every branch and whatever the log's
  writes and syncs do.  On a closed service it is 503 and nothing changes.  Otherwise the answer
  follows the selection rule.  When no stored message is visible it is 204 without a body, and
  messages and log stay.  When the rule selects a message and the log works, it is 200, the body
  decodes on the client's side to that message, and the message is gone from memory and, by its
  tombstone, from the log.  When the log does not work it is 500, memory holds the messages it held,
  and a restart finds the message gone exactly when the failed write had transferred the whole text
  of the tombstone.  Errors carry a JSON error object.
\<close>

theorem http_dequeue_contract:
  assumes "service_reach mode path t s" and "t \<le> ce_now ce" and "read_ok renv"
  shows "\<exists>s' resp. api_dequeue env (service_queue ce) s = Some (s', resp) \<and>
    (if s_closed s then rs_Status resp = 503 \<and> error_body (rs_Body resp) \<and> s' = s
     else \<exists>d c'. popped mode (ce_now ce) (q_messages (s_queue s)) d c' \<and>
       (case d of
          None \<Rightarrow> rs_Status resp = 204 \<and> rs_Body resp = [] \<and> q_messages (s_queue s') = c' \<and> s_wal s' = s_wal s
        | Some m \<Rightarrow>
            if working_env (ce_append ce)
            then rs_Status resp = 200 \<and>
              unmarshal_struct message_names message_field zero_message (rs_Body resp) = Inr m \<and>
              q_messages (s_queue s') = c' \<and> (\<exists>es'. log_of es' (w_disk (s_wal s')) \<and> live es' = c')
            else rs_Status resp = 500 \<and> error_body (rs_Body resp) \<and>
              (\<exists>err. failed_write path mode renv s c' err s')))"
proof -
  obtain es where inv: "svc_inv mode t es s"
    using service_reach_inv [OF assms(1)] by blast
  then have msgs: "q_messages (s_queue s) = live es"
    by (simp add: svc_inv_def)
  obtain s' res where d: "Dequeue (ce_now ce) (ce_append ce) s = Some (s', res)"
      "case res of
         Inr d \<Rightarrow> \<not> s_closed s \<and> \<not> s_closed s' \<and> s_seq s' = s_seq s \<and>
           (\<exists>es'. svc_inv mode (ce_now ce) es' s' \<and> popped mode (ce_now ce) (live es) d (live es') \<and> (d = None \<longrightarrow> s_wal s' = s_wal s))
       | Inl ServiceClosed \<Rightarrow> s_closed s \<and> s' = s
       | Inl (WalFailed err) \<Rightarrow> \<not> s_closed s \<and>
           (\<exists>m c'. popped mode (ce_now ce) (live es) (Some m) c' \<and> failed_write path mode renv s c' err s')
       | Inl _ \<Rightarrow> False"
    using Dequeue_any [OF inv reach_mode [OF assms(1)] assms(3,2), of "ce_append ce" path] by blast
  show ?thesis
  proof (cases res)
    case (Inl err)
    then have "api_dequeue env (service_queue ce) s = Some (s', writeServiceError (ae_sys env) err)"
      using d(1) by (simp add: api_dequeue_def service_queue_def)
    moreover have "\<not> working_env (ce_append ce)" if "\<not> s_closed s"
      using Dequeue_works [OF inv assms(2) _ that, of "ce_append ce"] d(1) Inl by auto
    ultimately show ?thesis
      using d(2) Inl unfolding msgs by (cases err) (auto simp: error_bodies split_option_ex)
  next
    case (Inr x)
    then obtain es' where x: "\<not> s_closed s" "svc_inv mode (ce_now ce) es' s'" "popped mode (ce_now ce) (live es) x (live es')"
        "x = None \<longrightarrow> s_wal s' = s_wal s"
      using d(2) by auto
    then have eqs: "q_messages (s_queue s') = live es'" "log_of es' (w_disk (s_wal s'))"
      by (simp_all add: svc_inv_def)
    show ?thesis
    proof (cases x)
      case None
      then show ?thesis
        using d(1) Inr x eqs unfolding msgs by (auto simp: api_dequeue_def service_queue_def intro!: exI [of _ None])
    next
      case (Some m)
      then have "live es (m_ID m) = Some m"
        using x(3) by (simp add: popped_def)
      note wj = writeJSON_message [OF svc_inv_sendable [OF inv this], of 200]
      have "api_dequeue env (service_queue ce) s = Some (s', writeJSON 200 (message_json m))"
        using d(1) Inr Some by (simp add: api_dequeue_def service_queue_def)
      moreover have "working_env (ce_append ce)"
        using Dequeue_needs d(1) Inr Some by blast
      ultimately show ?thesis
        using x(1,3) eqs Some wj unfolding msgs by (intro exI conjI) (auto intro!: exI [of _ "Some m"])
    qed
  qed
qed

definition ex_call2 :: call_env where
  "ex_call2 = ex_call\<lparr>ce_now := ex_time + 2000000000\<rparr>"

lemma ex_get_delivers:
  "\<exists>s' resp. api_dequeue ex_api (service_queue ex_call2) ex_service1 = Some (s', resp) \<and> rs_Status resp = 200"
proof -
  obtain s' where s': "Dequeue (ex_time + 2000000000) ex_env ex_service1 = Some (s', Inr (Some ex_stored))"
    using ex_dequeue by (auto split: option.splits prod.splits sum.splits)
  obtain es where inv: "svc_inv ModeFIFO 0 es ex_service1"
    using service_reach_inv [OF ex_service1_reach(1)] by blast
  then have "q_messages (s_queue ex_service1) = live es"
    by (simp add: svc_inv_def)
  then have "live es (m_ID ex_stored) = Some ex_stored"
    using ex_service1_reach(2) by (metis fun_upd_same)
  from writeJSON_message(1) [OF svc_inv_sendable [OF inv this]] s' show ?thesis
    by (simp add: api_dequeue_def service_queue_def ex_call2_def ex_call_def)
qed

theorem http_dequeue_contract_witness:
  "\<exists>s' resp es'. api_dequeue ex_api (service_queue ex_call2) ex_service1 = Some (s', resp) \<and>
    rs_Status resp = 200 \<and> log_of es' (w_disk (s_wal s')) \<and> live es' = Map.empty \<and>
    unmarshal_struct message_names message_field zero_message (rs_Body resp) = Inr ex_stored"
proof -
  have "0 \<le> ce_now ex_call2" "\<not> s_closed ex_service1"
    by code_simp+
  with http_dequeue_contract [OF ex_service1_reach(1) this(1) ex_ok(1), of ex_api] ex_get_delivers show ?thesis
    by (auto simp: ex_service1_reach(2) popped_def split: if_splits option.splits)
qed

section \<open>Bodies\<close>

lemma Enqueue_writes:
  assumes "Enqueue rnd now env req s = Some (s', Inr m)" "ok_random rnd" "ok_request req" "s_seq s \<noteq> - 1"
  obtains l where "written (stamped env (enqueue_entry m) (s_wal s)) l" "w_disk (s_wal s') = w_disk (s_wal s) @ l @ [newline]"
    "message_valid m"
proof -
  obtain u w' where u: "newUUID rnd = Some u" "m = new_message u (s_seq s + 1) now req"
      "WriteEnqueue env m (s_wal s) = (w', None)" "s_wal s' = w'"
    using assms(1) by (auto simp: Enqueue_def Let_def split: option.splits if_splits prod.splits)
  have id: "length u = 36" "list_all uuid_char u" "u \<noteq> []"
    using u(1) assms(2) by (cases rnd; auto simp: ok_random_def newUUID_def elim!: newUUID_ok)+
  have "appendLocked env (enqueue_entry m) (s_wal s) = (w', None)"
    using u(3) by (auto simp: WriteEnqueue_def split: if_splits)
  then obtain b where b: "Marshal (stamped env (enqueue_entry m) (s_wal s)) = Some b"
      "w_disk w' = w_disk (s_wal s) @ b @ [newline]"
    by (rule appendLocked_ok) simp
  have "room (enqueue_entry m)"
    unfolding u(2) by (rule room_enqueue [OF id(1) assms(3)])
  then have "written (stamped env (enqueue_entry m) (s_wal s)) b"
    by (rule room_written [OF room_stamped b(1)])
  moreover have "message_valid m"
    unfolding u(2) by (rule new_message_valid [OF id(2,3) assms(3) succ_nonzero [OF assms(4)]])
  ultimately show thesis
    using that b(2) u(4) by simp
qed

lemma recovered_enqueue:
  assumes "message_valid m"
  shows "normal_entry (stamped env (enqueue_entry m) w) = stamped env (enqueue_entry m) w"
    "recovered_message (stamped env (enqueue_entry m) w) = m"
  using assms ops_valid
  by (cases m; simp add: message_valid_def stamped_def enqueue_entry_def zero_entry_def normal_entry_def
      ToValidUTF8_valid recovered_message_def derefInt_def derefTime_def)+

lemma enqueue_handler_created:
  assumes "api_enqueue env (service_queue ce) r s = Some (s', resp)" "rs_Status resp = 201"
  obtains req m where "Decoder_Decode request_names request_field zero_request
      (take maxEnqueueBodyBytes (rq_Body r)) (limited_end maxEnqueueBodyBytes r) = Inr req"
    "Enqueue (ce_rand ce) (ce_now ce) (ce_append ce) req s = Some (s', Inr m)" "resp = writeJSON 201 (message_json m)"
  using assms
  by (auto simp: api_enqueue_def service_queue_def writeError_body(1) error_bodies(3)
      split: sum.splits decode_error.splits option.splits if_splits)

text \<open>
  C30: Whatever bytes a client sends to \<^verbatim>\<open>POST /enqueue\<close>, in whatever state the service is, a 201 means
  that the file has grown by one line that recovery accepts: it has no line break inside, is
  shorter than the longest line the scanner takes, decodes as a record, and that record gives back
  the message of the response, field by field.  It is the limit on the body that makes the line fit.
\<close>

theorem accepted_bodies_fit_the_log:
  assumes "api_enqueue env (service_queue ce) r s = Some (s', resp)" and "rs_Status resp = 201"
    and "ok_random (ce_rand ce)" and "s_seq s \<noteq> - 1"
  shows "\<exists>m e l. unmarshal_struct message_names message_field zero_message (rs_Body resp) = Inr m \<and>
    w_disk (s_wal s') = w_disk (s_wal s) @ l @ [newline] \<and> newline \<notin> set l \<and> length l < maxRecordBytes \<and>
    Unmarshal l = Inr e \<and> le_Op e = OP_ENQUEUE \<and> recovered_message e = m"
proof -
  obtain req m where req: "Decoder_Decode request_names request_field zero_request
      (take maxEnqueueBodyBytes (rq_Body r)) (limited_end maxEnqueueBodyBytes r) = Inr req"
    and enq: "Enqueue (ce_rand ce) (ce_now ce) (ce_append ce) req s = Some (s', Inr m)"
    and resp: "resp = writeJSON 201 (message_json m)"
    using assms(1,2) by (rule enqueue_handler_created)
  note ok = decoded_request_ok [OF req]
  let ?e = "stamped (ce_append ce) (enqueue_entry m) (s_wal s)"
  obtain l where l: "written ?e l" "w_disk (s_wal s') = w_disk (s_wal s) @ l @ [newline]" "message_valid m"
    using Enqueue_writes [OF enq assms(3) ok assms(4)] .
  have "Unmarshal l = Inr ?e"
    using l(1) Unmarshal_Marshal [of ?e l] recovered_enqueue(1) [OF l(3)] by (simp add: written_def)
  moreover have "le_Op ?e = OP_ENQUEUE"
    by (simp add: stamped_def enqueue_entry_def Let_def)
  moreover have "unmarshal_struct message_names message_field zero_message (rs_Body resp) = Inr m"
    using writeJSON_message(2) [OF Enqueue_sendable [OF enq assms(3) ok]] resp by simp
  ultimately show ?thesis
    using l(1,2) written_no_newline [OF l(1)] recovered_enqueue(2) [OF l(3)] by (auto simp: written_def fits_def)
qed

theorem accepted_bodies_fit_the_log_witness:
  "\<exists>s' resp m e l. api_enqueue ex_api (service_queue ex_call) ex_post ex_service = Some (s', resp) \<and>
    w_disk (s_wal s') = l @ [newline] \<and> length l < maxRecordBytes \<and> Unmarshal l = Inr e \<and> recovered_message e = m"
proof -
  obtain s' resp where r: "api_enqueue ex_api (service_queue ex_call) ex_post ex_service = Some (s', resp)" "rs_Status resp = 201"
    using ex_post_accepted by blast
  have "ok_random (ce_rand ex_call)"
    by (simp add: ex_call_def)
  from accepted_bodies_fit_the_log [OF r this ex_service_seq] r(1) show ?thesis
    by auto
qed

lemma encoded_request_decodes:
  assumes "valid_utf8 (req_Payload req)" "int64_range (req_Priority req)" "int64_range (req_DelaySeconds req)"
    and "rq_Body r = encode (request_json req)" "\<not> rq_BodyBroken r" "length (rq_Body r) \<le> maxEnqueueBodyBytes"
  shows "Decoder_Decode request_names request_field zero_request
    (take maxEnqueueBodyBytes (rq_Body r)) (limited_end maxEnqueueBodyBytes r) = Inr req"
proof -
  have "json_parse (encode (request_json req)) = Some (denote (request_json req))"
    using json_parse_denotes [OF encode_denotes [OF request_json_ok(1) [OF assms(1-3)]]]
    by (simp add: maxNestingDepth_def)
  then have "object_body (encode (request_json req)) (denote (request_json req))"
    by (simp add: object_body_def request_json_def object_text_def)
  from object_body_readers(2) [OF this, of request_names request_field zero_request] show ?thesis
    using assms(4-) request_json_ok(2) [OF assms(1-3)] by (simp add: limited_end_def)
qed

text \<open>
  A request comes through the wire unchanged.  When a client encodes a request with valid
  UTF-8 and 64-bit integers in at most 1 MiB, the enqueue handler decodes exactly that request,
  and answers 400 when it is not valid.
\<close>

theorem request_survives_http:
  assumes "valid_utf8 (req_Payload req)" and "int64_range (req_Priority req)" and "int64_range (req_DelaySeconds req)"
    and "rq_Body r = encode (request_json req)" and "\<not> rq_BodyBroken r" and "length (rq_Body r) \<le> maxEnqueueBodyBytes"
  shows "api_enqueue env q r s =
    (case Validate req of
       Some err \<Rightarrow> Some (s, writeError 400 (request_Error err))
     | None \<Rightarrow>
         map_option (\<lambda>(s', res).
           (s', case res of Inl err \<Rightarrow> writeServiceError (ae_sys env) err | Inr m \<Rightarrow> writeJSON 201 (message_json m)))
           (qi_Enqueue q req s))"
  using encoded_request_decodes [OF assms] by (auto simp: api_enqueue_def split: option.split sum.split)

theorem request_survives_http_witness:
  "api_enqueue ex_api (service_queue ex_call) ex_post ex_service =
    map_option (\<lambda>(s', res).
      (s', case res of Inl err \<Rightarrow> writeServiceError (ae_sys ex_api) err | Inr m \<Rightarrow> writeJSON 201 (message_json m)))
      (Enqueue (Some ex_random) ex_time ex_env ex_request ex_service)"
proof -
  have "valid_utf8 (req_Payload ex_request)" "int64_range (req_Priority ex_request)"
    "int64_range (req_DelaySeconds ex_request)" "rq_Body ex_post = encode (request_json ex_request)"
    "\<not> rq_BodyBroken ex_post" "length (rq_Body ex_post) \<le> maxEnqueueBodyBytes"
    by code_simp+
  from request_survives_http [OF this, of ex_api "service_queue ex_call" ex_service] show ?thesis
    by (simp add: service_queue_def ex_call_def)
qed

section \<open>Inspection over HTTP\<close>

lemma parse_limit_range:
  "parse_limit dflt maxl query = Some n \<Longrightarrow> 1 \<le> dflt \<Longrightarrow> dflt \<le> maxl \<Longrightarrow> 1 \<le> n \<and> n \<le> maxl"
  by (auto simp: parse_limit_def Let_def split: if_splits option.splits)

lemma mode_utf8: "Valid mode \<Longrightarrow> valid_utf8 mode"
proof -
  have "valid_utf8 ModeFIFO" "valid_utf8 ModeLIFO"
    by code_simp+
  then show "Valid mode \<Longrightarrow> valid_utf8 mode"
    by (auto simp: Valid_def)
qed

lemma snapshot_is_sendable:
  assumes "svc_inv mode t es s" "t \<le> now" "Valid mode" "time_ok now" "card (dom (live es)) < 2 ^ 63"
    and "Service_Snapshot now limit s = Some (s', sn)"
  shows "snapshot_sendable sn"
proof -
  have sn: "sn_Mode sn = mode" "sn_Now sn = now" "sn_Stats sn = stats_of (live es) now"
    using Service_Snapshot_ok [OF assms(1,2), of limit] assms(6) by auto
  have "message_sendable m" if "m \<in> ran (live es)" for m
    using that svc_inv_sendable [OF assms(1)] by (auto simp: ran_def)
  moreover have "int64_range (qs_Total (sn_Stats sn))" "int64_range (qs_Available (sn_Stats sn))"
      "int64_range (qs_Delayed (sn_Stats sn))"
    unfolding sn(3) using assms(5) finite_live [of es] visible_in_card [OF finite_live, of es] by (auto intro!: stats_of_range)
  ultimately show ?thesis
    using sn assms(4) Service_Snapshot_bounds(1) [OF assms(1,2,6)] mode_utf8 [OF assms(3)]
    by (auto simp: snapshot_sendable_def list_all_iff)
qed

text \<open>The values a query can give the limit, in terms of the decimal number it spells.\<close>

lemma split_at_plain: "x \<notin> set s \<Longrightarrow> split_at x s = [s]"
  by (induction s) auto

lemma pct_unescape_query_plain:
  "CHR ''%'' \<notin> set s \<Longrightarrow> CHR ''+'' \<notin> set s \<Longrightarrow> pct_unescape True s = Some s"
  by (induction s) auto

lemma Itoa_chars: "c \<in> set (Itoa n) \<Longrightarrow> is_digit c \<or> c = CHR ''-''"
  using dec_digits [of "nat n"] dec_digits [of "nat (- n)"] by (auto simp: Itoa_def list_all_iff split: if_splits)

lemma Itoa_nonempty: "Itoa n \<noteq> []"
  by (simp add: Itoa_def)

lemma query_get_limit: "query_get ''limit'' (''limit='' @ Itoa n) = Itoa n"
proof -
  have plain: "c \<notin> set (Itoa n)" if "c \<in> {CHR ''&'', CHR '';'', CHR ''%'', CHR ''+''}" for c
    using that Itoa_chars [of c n] by (auto simp: is_digit_def byte_def)
  have "split_at (CHR ''&'') (''limit='' @ Itoa n) = [''limit='' @ Itoa n]"
    using plain by (intro split_at_plain) auto
  moreover have "query_pair (''limit='' @ Itoa n) = Some (''limit'', Itoa n)"
    using plain pct_unescape_query_plain [of "Itoa n"] by (simp add: query_pair_def cut_def)
  ultimately show ?thesis
    by (simp add: query_get_def map_filter_simps)
qed

lemma parse_limit_number:
  assumes "maxl < 2 ^ 63"
  shows "parse_limit dflt maxl (''limit='' @ Itoa n) = (if 1 \<le> n \<and> n \<le> maxl then Some n else None)"
  using assms unfolding parse_limit_def query_get_limit Let_def
  by (auto simp: Itoa_nonempty ParseInt_Itoa_range int64_range_def)

text \<open>What a served snapshot of at most \<open>n\<close> messages per list is.\<close>

definition served_snapshot ::
  "QueueMode \<Rightarrow> go_time \<Rightarrow> QueueService \<Rightarrow> int \<Rightarrow> QueueService \<Rightarrow> http_response \<Rightarrow> bool" where
  "served_snapshot mode now s n s' resp \<longleftrightarrow> rs_Status resp = 200 \<and>
    (\<exists>sn. Decoder_Decode snapshot_names snapshot_field zero_snapshot (rs_Body resp) AtEOF = Inr sn \<and>
       Service_Snapshot now n s = Some (s', sn) \<and>
       int (length (sn_Ready sn)) \<le> n \<and> int (length (sn_Delayed sn)) \<le> n \<and>
       set (sn_Ready sn) \<union> set (sn_Delayed sn) \<subseteq> ran (q_messages (s_queue s)) \<and>
       sn_Mode sn = mode \<and> sn_Now sn = now \<and> sn_Stats sn = stats_of (q_messages (s_queue s)) now)"

lemma messages_served:
  assumes "service_reach mode path t s" "t \<le> ce_now ce" "time_ok (ce_now ce)"
    and "card (dom (q_messages (s_queue s))) < 2 ^ 63" "1 \<le> n"
  shows "\<exists>s' sn. Service_Snapshot (ce_now ce) n s = Some (s', sn) \<and>
    served_snapshot mode (ce_now ce) s n s' (writeJSON 200 (snapshot_json sn)) \<and>
    q_messages (s_queue s') = q_messages (s_queue s) \<and> s_wal s' = s_wal s"
proof -
  obtain es where inv: "svc_inv mode t es s"
    using service_reach_inv [OF assms(1)] by blast
  obtain s' sn where sn: "Service_Snapshot (ce_now ce) n s = Some (s', sn)" "svc_inv mode (ce_now ce) es s'"
      "s_wal s' = s_wal s" "sn_Mode sn = mode" "sn_Now sn = ce_now ce" "sn_Stats sn = stats_of (live es) (ce_now ce)"
    using Service_Snapshot_ok [OF inv assms(2), of n] by blast
  have eqs: "q_messages (s_queue s) = live es" "q_messages (s_queue s') = live es"
    using inv sn(2) by (simp_all add: svc_inv_def)
  have "snapshot_sendable sn"
    using snapshot_is_sendable [OF inv assms(2) reach_mode [OF assms(1)] assms(3) _ sn(1)] assms(4) eqs(1) by simp
  note wj = writeJSON_snapshot [OF this, of 200]
  then have "served_snapshot mode (ce_now ce) s n s' (writeJSON 200 (snapshot_json sn))"
    using sn eqs Service_Snapshot_bounds [OF inv assms(2) sn(1)] assms(5) by (auto simp: served_snapshot_def)
  then show ?thesis
    using sn(1,3) eqs by auto
qed

text \<open>
  C31: \<^verbatim>\<open>GET /messages\<close> accepts exactly the limits 1 to 1000 and tells the truth.  Without a limit in the
  query it serves a snapshot with the default of 100; with a limit that is a 64-bit decimal number
  \<open>n\<close> from 1 to 1000 one with that limit; with any other value it answers 400.  So a query
  \<^verbatim>\<open>limit=n\<close>, for any integer \<open>n\<close> in decimal, is answered with 200 for \<open>n\<close> from 1 to 1000, both included,
  and with 400 for all others.  A served body decodes, on the client's side, to the snapshot the
  service took: lists of at most \<open>n\<close> messages, every one of them stored, and the counts of the whole
  queue.  The stored messages and the log are left alone.  The clock must show a year of at most
  four digits, else the snapshot cannot be encoded.
\<close>

theorem http_messages_contract:
  assumes "service_reach mode path t s" and "good_call t ce" and "time_ok (ce_now ce)"
    and "card (dom (q_messages (s_queue s))) < 2 ^ 63"
  shows "\<exists>s' resp. api_messages (service_queue ce) r s = Some (s', resp) \<and>
    q_messages (s_queue s') = q_messages (s_queue s) \<and> s_wal s' = s_wal s \<and>
    (let raw = query_get ''limit'' (rq_RawQuery r) in
      if raw = [] then served_snapshot mode (ce_now ce) s 100 s' resp
      else case ParseInt raw of
        None \<Rightarrow> rs_Status resp = 400 \<and> error_body (rs_Body resp) \<and> s' = s
      | Some n \<Rightarrow>
          if 1 \<le> n \<and> n \<le> 1000 then served_snapshot mode (ce_now ce) s n s' resp
          else rs_Status resp = 400 \<and> error_body (rs_Body resp) \<and> s' = s) \<and>
    (\<forall>n. rq_RawQuery r = ''limit='' @ Itoa n \<longrightarrow>
       rs_Status resp = (if 1 \<le> n \<and> n \<le> 1000 then 200 else 400))"
proof -
  have t: "t \<le> ce_now ce"
    using assms(2) by (simp add: good_call_def)
  let ?p = "parse_limit defaultMessageLimit maxMessageLimit (rq_RawQuery r)"
  have number: "?p = (if 1 \<le> n \<and> n \<le> 1000 then Some n else None)" if "rq_RawQuery r = ''limit='' @ Itoa n" for n
    unfolding that by (subst parse_limit_number) (simp_all add: maxMessageLimit_def)
  show ?thesis
  proof (cases ?p)
    case None
    have "api_messages (service_queue ce) r s = Some (s, limit_error maxMessageLimit)"
      using None by (simp add: api_messages_def)
    moreover have "rs_Status (limit_error maxMessageLimit) = 400" "error_body (rs_Body (limit_error maxMessageLimit))"
      by (simp_all add: limit_error_def writeError_body(1) error_bodies)
    moreover have "\<not> (1 \<le> n \<and> n \<le> 1000)" if "rq_RawQuery r = ''limit='' @ Itoa n" for n
      using number [OF that] None by (simp split: if_splits)
    ultimately show ?thesis
      using None by (auto simp: parse_limit_def maxMessageLimit_def Let_def split: if_splits option.splits)
  next
    case (Some n)
    then have n: "1 \<le> n"
      using parse_limit_range [OF Some] by (simp add: defaultMessageLimit_def maxMessageLimit_def)
    obtain s' sn where sn: "Service_Snapshot (ce_now ce) n s = Some (s', sn)"
        "served_snapshot mode (ce_now ce) s n s' (writeJSON 200 (snapshot_json sn))"
        "q_messages (s_queue s') = q_messages (s_queue s)" "s_wal s' = s_wal s"
      using messages_served [OF assms(1) t assms(3,4) n] by blast
    have "api_messages (service_queue ce) r s = Some (s', writeJSON 200 (snapshot_json sn))"
      using Some sn(1) by (simp add: api_messages_def service_queue_def)
    moreover have "rs_Status (writeJSON 200 (snapshot_json sn)) = 200"
      using sn(2) by (simp add: served_snapshot_def)
    moreover have "1 \<le> k \<and> k \<le> 1000" if "rq_RawQuery r = ''limit='' @ Itoa k" for k
      using number [OF that] Some by (simp split: if_splits)
    ultimately show ?thesis
      using Some sn
      by (auto simp: parse_limit_def defaultMessageLimit_def maxMessageLimit_def Let_def split: if_splits option.splits)
  qed
qed

theorem http_messages_contract_witness:
  "\<exists>s' resp sn. api_messages (service_queue ex_call)
      (ex_post\<lparr>rq_Method := ''GET'', rq_Path := ''/messages'', rq_RawQuery := ''limit=1000''\<rparr>) ex_service1 = Some (s', resp) \<and>
    rs_Status resp = 200 \<and>
    Decoder_Decode snapshot_names snapshot_field zero_snapshot (rs_Body resp) AtEOF = Inr sn \<and>
    sn_Mode sn = ModeFIFO \<and> int (length (sn_Delayed sn)) \<le> 1000"
proof -
  let ?r = "ex_post\<lparr>rq_Method := ''GET'', rq_Path := ''/messages'', rq_RawQuery := ''limit=1000''\<rparr>"
  have ok: "time_ok (ce_now ex_call)" "query_get ''limit'' (rq_RawQuery ?r) = ''1000''" "ParseInt ''1000'' = Some 1000"
    by code_simp+
  have "card (dom (q_messages (s_queue ex_service1))) < 2 ^ 63"
    by (simp add: ex_service1_reach(2))
  from http_messages_contract [OF ex_service1_reach(1) ex_good_call ok(1) this, of ?r]
  obtain s' resp where "api_messages (service_queue ex_call) ?r ex_service1 = Some (s', resp)"
      "served_snapshot ModeFIFO (ce_now ex_call) ex_service1 1000 s' resp"
    using ok(2,3) by (auto simp: Let_def)
  then show ?thesis
    by (auto simp: served_snapshot_def)
qed

text \<open>
  C32: Only enqueue and dequeue change anything.  A request that is not routed to one of these two
  handlers, for whatever reason, leaves the stored messages, the log file, the sequence counter
  and the closed flag as they are.
\<close>

theorem other_requests_change_nothing:
  assumes "service_reach mode path t s" and "good_call t ce" and "s_seq s \<noteq> - 1"
    and "findHandler r \<noteq> Inr ep_enqueue" and "findHandler r \<noteq> Inr ep_dequeue"
    and "ServeHTTP env (service_queue ce) r s = (s', reply)"
  shows "q_messages (s_queue s') = q_messages (s_queue s) \<and> s_wal s' = s_wal s \<and>
    s_seq s' = s_seq s \<and> s_closed s' = s_closed s"
proof -
  obtain es where inv: "svc_inv mode t es s"
    using service_reach_inv [OF assms(1)] by blast
  have t: "t \<le> ce_now ce"
    using assms(2) by (simp add: good_call_def)
  have same: "q_messages (s_queue s1) = q_messages (s_queue s)" if "svc_inv mode t1 es s1" for t1 s1
    using that inv by (simp add: svc_inv_def)
  have snap: ?thesis if "Service_Snapshot (ce_now ce) limit s = Some (s', sn)" for limit sn
    using that Service_Snapshot_ok [OF inv t, of limit] same by auto
  have stats: ?thesis if "Service_Stats (ce_now ce) s = Some (s', st)" for st
    using that Service_Stats_ok [OF inv t] same by auto
  show ?thesis
  proof (cases "findHandler r")
    case (Inl rep)
    then show ?thesis
      using assms(6) by (simp add: ServeHTTP_def)
  next
    case (Inr ep)
    then obtain resp where "run_handler env (service_queue ce) ep r s = Some (s', resp)"
      using any_handler_returns [OF assms(1-3), of env ep r] assms(6)
      by (auto simp: ServeHTTP_def recoverMiddleware_def)
    then show ?thesis
      using Inr assms(4,5) snap stats
      by (cases ep)
        (auto simp: run_handler_def api_messages_def api_wal_def api_stats_def service_queue_def
          split: option.splits sum.splits)
  qed
qed

theorem other_requests_change_nothing_witness:
  "\<exists>s' reply. ServeHTTP ex_api (service_queue ex_call)
      (ex_post\<lparr>rq_Method := ''DELETE''\<rparr>) ex_service1 = (s', reply) \<and>
    q_messages (s_queue s') = [m_ID ex_stored \<mapsto> ex_stored]"
proof -
  let ?r = "ex_post\<lparr>rq_Method := ''DELETE''\<rparr>"
  obtain s' reply where sv: "ServeHTTP ex_api (service_queue ex_call) ?r ex_service1 = (s', reply)"
    by force
  have "findHandler ?r = Inl (MethodNotAllowed [''POST''])" "s_seq ex_service1 \<noteq> - 1"
    by code_simp+
  then have "findHandler ?r \<noteq> Inr ep_enqueue" "findHandler ?r \<noteq> Inr ep_dequeue"
    by simp_all
  from other_requests_change_nothing [OF ex_service1_reach(1) ex_good_call \<open>s_seq ex_service1 \<noteq> - 1\<close> this sv] show ?thesis
    using sv by (simp add: ex_service1_reach(2))
qed

section \<open>Routing\<close>

definition documented_routes :: "(string \<times> endpoint \<times> string list) list" where
  "documented_routes =
    [(''/enqueue'', ep_enqueue, [''POST'']), (''/dequeue'', ep_dequeue, [''GET'', ''HEAD'', ''POST'']),
     (''/messages'', ep_messages, [''GET'', ''HEAD'']), (''/wal'', ep_wal, [''GET'', ''HEAD'']),
     (''/stats'', ep_stats, [''GET'', ''HEAD'']), (''/health'', ep_health, [''GET'', ''HEAD'']),
     (''/'', ep_console, [''GET'', ''HEAD''])]"

lemma pct_unescape_plain: "CHR ''%'' \<notin> set s \<Longrightarrow> pct_unescape False s = Some s"
  by (induction s) auto

lemma slash_append: "\<exists>q. p = CHR ''/'' # q \<Longrightarrow> \<exists>q. p @ x = CHR ''/'' # q"
  by auto

lemma clean_path_slash:
  assumes "cleanPath p = p"
  shows "\<exists>q. p = CHR ''/'' # q"
proof -
  define np where "np ss = (if ss = [] then ''/'' else concat (map (\<lambda>s. CHR ''/'' # s) ss))" for ss :: "bytes list"
  have np: "\<exists>q. np ss = CHR ''/'' # q" for ss
    by (cases ss) (simp_all add: np_def)
  obtain ss x where "cleanPath p = (if p = [] then ''/'' else if x then np ss @ ''/'' else np ss)"
    unfolding cleanPath_def Let_def np_def by blast
  then have "\<exists>q. cleanPath p = CHR ''/'' # q"
    using np [of ss] slash_append [OF np, of ss "''/''"] by (auto split: if_splits)
  then show ?thesis
    using assms by simp
qed

lemma path_routes_nested:
  assumes "CHR ''/'' \<in> set q"
  shows "path_routes (CHR ''/'' # q) = []"
proof -
  have "dropWhile (\<lambda>c. c \<noteq> CHR ''/'') q \<noteq> []" "q \<noteq> []"
    using assms by (auto simp: dropWhile_eq_Nil_conv)
  then show ?thesis
    by (auto simp: path_routes_def firstSegment_def Let_def)
qed

lemma path_routes_one:
  assumes "CHR ''/'' \<notin> set q" "CHR ''%'' \<notin> set q" "q \<noteq> []"
  shows "path_routes (CHR ''/'' # q) = [(m, ep). (m, seg, ep) \<leftarrow> routes, seg = q]"
proof -
  have "takeWhile (\<lambda>c. c \<noteq> CHR ''/'') q = q" "dropWhile (\<lambda>c. c \<noteq> CHR ''/'') q = []"
    using assms(1) by (auto simp: takeWhile_eq_all_conv dropWhile_eq_Nil_conv)
  then show ?thesis
    using assms(3) pct_unescape_plain [OF assms(2)]
    by (simp add: path_routes_def firstSegment_def Let_def del: takeWhile_eq_all_conv dropWhile_eq_Nil_conv)
qed

lemma known_paths:
  "path_routes ''/enqueue'' = [(''POST'', ep_enqueue)]" "matchingMethods ''/enqueue'' = [''POST'']"
  "path_routes ''/dequeue'' = [(''POST'', ep_dequeue), (''GET'', ep_dequeue)]"
  "matchingMethods ''/dequeue'' = [''GET'', ''HEAD'', ''POST'']"
  "path_routes ''/messages'' = [(''GET'', ep_messages)]" "matchingMethods ''/messages'' = [''GET'', ''HEAD'']"
  "path_routes ''/wal'' = [(''GET'', ep_wal)]" "matchingMethods ''/wal'' = [''GET'', ''HEAD'']"
  "path_routes ''/stats'' = [(''GET'', ep_stats)]" "matchingMethods ''/stats'' = [''GET'', ''HEAD'']"
  "path_routes ''/health'' = [(''GET'', ep_health)]" "matchingMethods ''/health'' = [''GET'', ''HEAD'']"
  "path_routes ''/'' = [(''GET'', ep_console)]" "matchingMethods ''/'' = [''GET'', ''HEAD'']"
  by code_simp+

lemma unknown_path:
  assumes "CHR ''%'' \<notin> set p" "p = CHR ''/'' # q" "map_of documented_routes p = None"
  shows "path_routes p = []" "matchingMethods p = []"
proof -
  have "path_routes (CHR ''/'' # q) = []" if "CHR ''/'' \<notin> set q"
  proof -
    have "q \<noteq> []" "q \<notin> {''enqueue'', ''dequeue'', ''messages'', ''wal'', ''stats'', ''health''}"
      using assms(2,3) by (auto simp: documented_routes_def)
    moreover have "q \<noteq> ''/''"
      using that by auto
    ultimately show ?thesis
      using path_routes_one [OF that] assms(1,2) by (auto simp: routes_def)
  qed
  then show pr: "path_routes p = []"
    using path_routes_nested [of q] assms(2) by blast
  show "matchingMethods p = []"
    using pr path_routes_nested [of "q @ ''/''"] assms(2) by (simp add: matchingMethods_def)
qed

text \<open>
  C33: The routing table is the documented one.  A request whose path is clean and has no percent
  escape reaches the handler of its path when the method is among the allowed ones, gets a 405
  naming the allowed methods when it is not, and a 404 for every other path.  As \<^verbatim>\<open>HEAD\<close> goes wherever
  \<^verbatim>\<open>GET\<close> goes, \<^verbatim>\<open>HEAD /dequeue\<close> runs the dequeue handler too.
\<close>

theorem routing_table:
  assumes "cleanPath (rq_Path r) = rq_Path r" and "CHR ''%'' \<notin> set (rq_Path r)" and "rq_Method r \<noteq> ''CONNECT''"
  shows "findHandler r =
    (case map_of documented_routes (rq_Path r) of
       None \<Rightarrow> Inl NotFound
     | Some (ep, ms) \<Rightarrow> if rq_Method r \<in> set ms then Inr ep else Inl (MethodNotAllowed ms))"
proof -
  obtain q where q: "rq_Path r = CHR ''/'' # q"
    using clean_path_slash [OF assms(1)] by blast
  have fh: "findHandler r =
      (case match_route (rq_Method r) (rq_Path r) of
         Some ep \<Rightarrow> Inr ep
       | None \<Rightarrow> Inl (if matchingMethods (rq_Path r) \<noteq> [] then MethodNotAllowed (matchingMethods (rq_Path r)) else NotFound))"
  proof -
    have "rq_Path r \<noteq> ''*''"
      using q by simp
    then show ?thesis
      using assms(1,3) by (simp add: findHandler_def Let_def)
  qed
  show ?thesis
  proof (cases "map_of documented_routes (rq_Path r)")
    case None
    then show ?thesis
      using unknown_path [OF assms(2) q None] by (simp add: fh match_route_def)
  next
    case (Some x)
    then have "(rq_Path r, x) \<in> set documented_routes"
      by (rule map_of_SomeD)
    then show ?thesis
      unfolding fh Some documented_routes_def list.set insert_iff empty_iff
      by (elim disjE) (auto simp: match_route_def known_paths)
  qed
qed

theorem routing_table_witness:
  "findHandler \<lparr>rq_Method = ''HEAD'', rq_Path = ''/dequeue'', rq_RawQuery = [], rq_Body = [], rq_BodyBroken = False\<rparr>
    = Inr ep_dequeue"
proof -
  have "cleanPath ''/dequeue'' = ''/dequeue''"
    by code_simp
  then show ?thesis
    using routing_table [of "\<lparr>rq_Method = ''HEAD'', rq_Path = ''/dequeue'', rq_RawQuery = [], rq_Body = [], rq_BodyBroken = False\<rparr>"]
    by (simp add: documented_routes_def)
qed

end
