(* ===== verification/Predict.thy ===== *)
theory Predict
  imports Service
begin

text \<open>
  The prediction of the demonstration client (\<^verbatim>\<open>src/cmd/client/main.go\<close>): it replays the drain of the
  whole queue from a snapshot.  Here are the simulation as it is written, the abstract account of
  a single worker that polls the queue, and the proof that the one computes the other.
\<close>

section \<open>The simulation\<close>

definition pollInterval :: int where "pollInterval = 500 * 1000000"

record simItem =
  si_id :: string
  si_priority :: int
  si_seq :: uint64
  si_availableAt :: go_time

definition simItem_of :: "Message \<Rightarrow> simItem" where
  "simItem_of m =
    \<lparr>si_id = m_ID m, si_priority = m_Priority m, si_seq = m_Seq m, si_availableAt = m_AvailableAt m\<rparr>"

definition lessFor :: "QueueMode \<Rightarrow> simItem \<Rightarrow> simItem \<Rightarrow> bool" where
  "lessFor mode a b =
    (if si_priority a \<noteq> si_priority b then si_priority a > si_priority b
     else if mode = ModeLIFO then si_seq a > si_seq b
     else si_seq a < si_seq b)"

text \<open>\<^verbatim>\<open>sort.SliceStable\<close> with a less function.\<close>

definition SliceStable :: "('a \<Rightarrow> 'a \<Rightarrow> bool) \<Rightarrow> 'a list \<Rightarrow> 'a list" where
  "SliceStable lt xs = SortFunc (\<lambda>a b. if lt a b then - 1 else if lt b a then 1 else 0) xs"

lemma length_SliceStable [simp]: "length (SliceStable lt xs) = length xs"
  by (simp add: SliceStable_def)

lemma set_SliceStable [simp]: "set (SliceStable lt xs) = set xs"
  by (simp add: SliceStable_def)

lemma mset_SliceStable [simp]: "mset (SliceStable lt xs) = mset xs"
  by (simp add: SliceStable_def)

text \<open>The inner loop: messages whose time has come move from \<^verbatim>\<open>delayed\<close> to \<^verbatim>\<open>ready\<close>.\<close>

fun sim_mature :: "go_time \<Rightarrow> simItem list \<Rightarrow> simItem list \<Rightarrow> simItem list \<times> simItem list" where
  "sim_mature t ready [] = (ready, [])"
| "sim_mature t ready (d # delayed) =
    (if \<not> t < si_availableAt d then sim_mature t (ready @ [d]) delayed else (ready, d # delayed))"

lemma sim_mature_length:
  "sim_mature t ready delayed = (r, d) \<Longrightarrow> length r + length d = length ready + length delayed"
  by (induction t ready delayed rule: sim_mature.induct) (auto split: if_splits)

lemma sim_mature_head:
  "sim_mature t ready delayed = (r, d) \<Longrightarrow> d \<noteq> [] \<Longrightarrow> t < si_availableAt (hd d)"
  by (induction t ready delayed rule: sim_mature.induct) (auto split: if_splits)

lemma sim_mature_none:
  "sim_mature t ready delayed = ([], d) \<Longrightarrow> ready = [] \<and> d = delayed"
  by (induction t ready delayed rule: sim_mature.induct) (auto split: if_splits)

text \<open>
  The outer loop.  An iteration either emits an item or moves the clock to the time at which the
  first delayed item matures, and then the next iteration emits one.
\<close>

function sim_loop ::
  "(simItem \<Rightarrow> simItem \<Rightarrow> bool) \<Rightarrow> simItem list \<Rightarrow> simItem list \<Rightarrow> go_time \<Rightarrow> simItem list \<Rightarrow> simItem list" where
  "sim_loop lt ready delayed t out =
    (if ready = [] \<and> delayed = [] then out
     else
       (case sim_mature t ready delayed of
          (r, d) \<Rightarrow>
            if r = [] then sim_loop lt r d (si_availableAt (hd d)) out
            else sim_loop lt (tl (SliceStable lt r)) d (t + pollInterval) (out @ [hd (SliceStable lt r)])))"
  by pat_completeness auto

termination
proof (relation "measures [\<lambda>(lt, ready, delayed, t, out). length ready + length delayed,
      \<lambda>(lt, ready, delayed, t, out). if ready = [] \<and> delayed \<noteq> [] \<and> t < si_availableAt (hd delayed) then 1 else 0]")
  fix lt :: "simItem \<Rightarrow> simItem \<Rightarrow> bool" and ready delayed t out r d
  assume h: "\<not> (ready = [] \<and> delayed = [])" "(r, d) = sim_mature t ready delayed" "r = []"
  then have "ready = []" "d = delayed"
    using sim_mature_none [of t ready delayed d] by simp_all
  moreover from this have "t < si_availableAt (hd delayed)"
    using h sim_mature_head [of t ready delayed r d] by simp
  ultimately show "((lt, r, d, si_availableAt (hd d), out), (lt, ready, delayed, t, out))
    \<in> measures [\<lambda>(lt, ready, delayed, t, out). length ready + length delayed,
      \<lambda>(lt, ready, delayed, t, out). if ready = [] \<and> delayed \<noteq> [] \<and> t < si_availableAt (hd delayed) then 1 else 0]"
    using h by simp
next
  fix lt :: "simItem \<Rightarrow> simItem \<Rightarrow> bool" and ready delayed t out r d
  assume h: "(r, d) = sim_mature t ready delayed" "r \<noteq> []"
  then have "length r + length d = length ready + length delayed" "0 < length r"
    using sim_mature_length [of t ready delayed r d] by simp_all
  then have "length (tl (SliceStable lt r)) + length d < length ready + length delayed"
    by (simp only: length_tl length_SliceStable)
  then show "((lt, tl (SliceStable lt r), d, t + pollInterval, out @ [hd (SliceStable lt r)]), (lt, ready, delayed, t, out))
    \<in> measures [\<lambda>(lt, ready, delayed, t, out). length ready + length delayed,
      \<lambda>(lt, ready, delayed, t, out). if ready = [] \<and> delayed \<noteq> [] \<and> t < si_availableAt (hd delayed) then 1 else 0]"
    by (simp only: measures_less prod.case)
qed simp

declare sim_loop.simps [simp del]

definition simulateDrain :: "QueueSnapshot \<Rightarrow> simItem list" where
  "simulateDrain snap =
    (let ready = map simItem_of (sn_Ready snap);
         delayed = SliceStable (\<lambda>a b. si_availableAt a < si_availableAt b) (map simItem_of (sn_Delayed snap))
     in sim_loop (lessFor (sn_Mode snap)) ready delayed (sn_Now snap) [])"

section \<open>A worker that polls\<close>

text \<open>
  The abstract account of one worker on a queue nobody else touches: it asks for a message; when it
  gets one it asks again a poll interval later, when it gets none it asks again at the time the
  next message becomes visible.  A run is the list of the deliveries with their times.
\<close>

inductive drains :: "QueueMode \<Rightarrow> go_time \<Rightarrow> (string \<rightharpoonup> Message) \<Rightarrow> (go_time \<times> Message) list \<Rightarrow> bool" for mode where
  empty: "drains mode t Map.empty []"
| deliver: "popped mode t c (Some m) c' \<Longrightarrow> drains mode (t + pollInterval) c' ms \<Longrightarrow> drains mode t c ((t, m) # ms)"
| wait: "popped mode t c None c \<Longrightarrow> c i = Some m \<Longrightarrow> (\<And>j m'. c j = Some m' \<Longrightarrow> m_AvailableAt m \<le> m_AvailableAt m') \<Longrightarrow>
    drains mode (m_AvailableAt m) c ms \<Longrightarrow> drains mode t c ms"

section \<open>The simulation computes the run\<close>

lemma insort_cmp_map: "insort_cmp cmp (f x) (map f xs) = map f (insort_cmp (\<lambda>a b. cmp (f a) (f b)) x xs)"
  by (induction xs) auto

lemma SliceStable_map: "SliceStable lt (map f xs) = map f (SliceStable (\<lambda>a b. lt (f a) (f b)) xs)"
proof -
  have "foldl (\<lambda>acc x. insort_cmp cmp x acc) (map f ys) (map f xs) =
      map f (foldl (\<lambda>acc x. insort_cmp (\<lambda>a b. cmp (f a) (f b)) x acc) ys xs)" for cmp ys
    by (induction xs arbitrary: ys) (simp_all add: insort_cmp_map)
  from this [of _ "[]"] show ?thesis
    by (simp add: SliceStable_def SortFunc_def)
qed

lemma SliceStable_sorted: "weak_order lt \<Longrightarrow> sorted_wrt (\<lambda>a b. \<not> lt b a) (SliceStable lt xs)"
  unfolding SliceStable_def by (rule weak_order.SortFunc_sorted) auto

lemma sim_mature_eq:
  "sim_mature t ready delayed =
    (ready @ takeWhile (\<lambda>x. si_availableAt x \<le> t) delayed, dropWhile (\<lambda>x. si_availableAt x \<le> t) delayed)"
  by (induction t ready delayed rule: sim_mature.induct) auto

lemma weak_order_lessFor: "weak_order (lessFor mode)"
proof -
  let ?tie = "if mode = ModeLIFO then (\<lambda>a b :: simItem. si_seq b < si_seq a) else (\<lambda>a b. si_seq a < si_seq b)"
  have "weak_order (lex_lt (\<lambda>a. - si_priority a) ?tie)"
    by (intro weak_order_lex) (simp add: weak_order_key weak_order_key_desc)
  moreover have "lex_lt (\<lambda>a. - si_priority a) ?tie = lessFor mode"
    by (auto simp: fun_eq_iff lex_lt_def lessFor_def)
  ultimately show ?thesis
    by simp
qed

text \<open>How the lists of the simulation stand for the stored messages.\<close>

definition sim_state :: "(string \<rightharpoonup> Message) \<Rightarrow> go_time \<Rightarrow> Message list \<Rightarrow> Message list \<Rightarrow> bool" where
  "sim_state c t R D \<longleftrightarrow> distinct (R @ D) \<and> set (R @ D) = ran c \<and> sorted_wrt (\<lambda>a b. m_AvailableAt a \<le> m_AvailableAt b) D \<and>
     (\<forall>m \<in> set R. m_AvailableAt m \<le> t) \<and> (\<forall>i m. c i = Some m \<longrightarrow> m_ID m = i)"

lemma sim_state_mature:
  assumes "sim_state c t R D"
  shows "\<exists>R' D'. sim_mature t (map simItem_of R) (map simItem_of D) = (map simItem_of R', map simItem_of D') \<and>
    sim_state c t R' D' \<and> (\<forall>m \<in> set D'. t < m_AvailableAt m)"
proof -
  let ?P = "\<lambda>m. m_AvailableAt m \<le> t"
  let ?T = "takeWhile ?P D" and ?D = "dropWhile ?P D"
  have D: "?T @ ?D = D"
    by simp
  then have "sorted_wrt (\<lambda>a b. m_AvailableAt a \<le> m_AvailableAt b) (?T @ ?D)"
    using assms by (simp add: sim_state_def)
  then have srt: "sorted_wrt (\<lambda>a b. m_AvailableAt a \<le> m_AvailableAt b) ?D"
    by (simp only: sorted_wrt_append)
  have "t < m_AvailableAt m" if "m \<in> set ?D" for m
  proof (cases ?D)
    case (Cons d ds)
    then have "\<not> ?P d"
      by (metis hd_dropWhile list.distinct(1) list.sel(1))
    then show ?thesis
      using that srt Cons by auto
  next
    case Nil
    then show ?thesis
      using that by (metis empty_iff list.set(1))
  qed
  moreover have "distinct ((R @ ?T) @ ?D)" "set ((R @ ?T) @ ?D) = ran c"
    using assms unfolding sim_state_def by (simp_all only: append_assoc D)
  moreover have "\<forall>m \<in> set (R @ ?T). ?P m"
    using assms by (auto simp: sim_state_def dest: set_takeWhileD)
  ultimately have "sim_state c t (R @ ?T) ?D" "\<forall>m \<in> set ?D. t < m_AvailableAt m"
    using assms srt unfolding sim_state_def by blast+
  moreover have "sim_mature t (map simItem_of R) (map simItem_of D) = (map simItem_of (R @ ?T), map simItem_of ?D)"
    by (simp add: sim_mature_eq takeWhile_map dropWhile_map comp_def simItem_of_def)
  ultimately show ?thesis
    by blast
qed

lemma sim_state_pop:
  assumes "sim_state c t R D" "\<forall>m \<in> set D. t < m_AvailableAt m" "mset M = mset R" "M = m # R'"
    and "\<And>m'. m' \<in> set R \<Longrightarrow> \<not> lessFor mode (simItem_of m') (simItem_of m)"
  shows "popped mode t c (Some m) (c(m_ID m := None)) \<and> sim_state (c(m_ID m := None)) (t + pollInterval) R' D"
proof -
  have sets: "set R = insert m (set R')" "distinct (m # R')"
    using assms(1,3,4) mset_eq_imp_distinct_iff [OF assms(3)] mset_eq_setD [OF assms(3)]
    by (auto simp: sim_state_def)
  have key: "c i = Some x \<Longrightarrow> m_ID x = i" for i x
    using assms(1) by (simp add: sim_state_def)
  have ran: "ran c = set R \<union> set D" "set R \<inter> set D = {}"
    using assms(1) by (auto simp: sim_state_def)
  then have "m \<in> ran c"
    using sets(1) by simp
  then obtain i where "c i = Some m"
    by (auto simp: ran_def)
  then have m: "c (m_ID m) = Some m"
    using key by metis
  have R: "m' \<in> set R" if "c i = Some m'" "m_AvailableAt m' \<le> t" for i m'
    using that ran(1) assms(2) by (auto intro: ranI simp: not_less [symmetric])
  have "m_Priority m' < m_Priority m \<or> m_Priority m' = m_Priority m \<and>
      (if mode = ModeLIFO then m_Seq m' \<le> m_Seq m else m_Seq m \<le> m_Seq m')"
    if "c i = Some m'" "m_AvailableAt m' \<le> t" for i m'
    using assms(5) [OF R [OF that]] by (auto simp: lessFor_def simItem_of_def split: if_splits)
  moreover have "m_AvailableAt m \<le> t"
    using assms(1) sets(1) by (simp add: sim_state_def)
  ultimately have "popped mode t c (Some m) (c(m_ID m := None))"
    using m by (simp add: popped_def)
  moreover have "ran (c(m_ID m := None)) = ran c - {m}"
    by (rule ran_delete [of c "m_ID m" m m_ID]) (rule m, rule key)
  then have "set (R' @ D) = ran (c(m_ID m := None))"
    using ran sets by auto
  moreover have "\<forall>i x. (c(m_ID m := None)) i = Some x \<longrightarrow> m_ID x = i"
    using key by simp
  moreover have "distinct (R' @ D)" "\<forall>x \<in> set R'. m_AvailableAt x \<le> t + pollInterval"
      "sorted_wrt (\<lambda>a b. m_AvailableAt a \<le> m_AvailableAt b) D"
    using assms(1) sets by (auto simp: sim_state_def pollInterval_def)
  ultimately have "popped mode t c (Some m) (c(m_ID m := None))"
    "sim_state (c(m_ID m := None)) (t + pollInterval) R' D"
    by (simp_all only: sim_state_def simp_thms)
  then show ?thesis ..
qed

lemma sim_state_wait:
  assumes "sim_state c t [] D" "\<forall>m \<in> set D. t < m_AvailableAt m" "D = d # D'"
  shows "popped mode t c None c \<and> c (m_ID d) = Some d \<and>
    (\<forall>j m'. c j = Some m' \<longrightarrow> m_AvailableAt d \<le> m_AvailableAt m') \<and> sim_state c (m_AvailableAt d) [] D"
proof -
  have ran: "ran c = set D" and key: "\<And>i m. c i = Some m \<Longrightarrow> m_ID m = i"
    using assms(1) by (simp_all add: sim_state_def)
  have "m' \<in> set D" if "c j = Some m'" for j m'
    using that ran by (auto intro: ranI)
  moreover have "c (m_ID d) = Some d"
  proof -
    have "d \<in> ran c"
      using ran assms(3) by simp
    then show ?thesis
      using key by (auto simp: ran_def)
  qed
  moreover have "m_AvailableAt d \<le> m_AvailableAt m'" if "m' \<in> set D" for m'
    using that assms(1,3) by (auto simp: sim_state_def)
  moreover have "sim_state c (m_AvailableAt d) [] D"
    using assms(1) by (simp add: sim_state_def)
  ultimately show ?thesis
    using assms(2) by (simp add: popped_def)
qed

lemma sim_loop_step:
  assumes "sim_state c t R D" "\<forall>m \<in> set D. t < m_AvailableAt m" "R \<noteq> []"
  shows "\<exists>m R'. SliceStable (lessFor mode) (map simItem_of R) = simItem_of m # map simItem_of R' \<and>
    popped mode t c (Some m) (c(m_ID m := None)) \<and> sim_state (c(m_ID m := None)) (t + pollInterval) R' D \<and>
    length R = Suc (length R')"
proof -
  let ?lt = "\<lambda>a b. lessFor mode (simItem_of a) (simItem_of b)"
  have lt: "weak_order ?lt"
    by (rule weak_order_inv_image [OF weak_order_lessFor])
  obtain m R' where M: "SliceStable ?lt R = m # R'"
    using assms(3) length_SliceStable [of ?lt R] by (cases "SliceStable ?lt R") auto
  have "sorted_wrt (\<lambda>a b. \<not> ?lt b a) (m # R')" "set R = insert m (set R')"
    using SliceStable_sorted [OF lt, of R] set_SliceStable [of ?lt R] M by simp_all
  then have "\<not> ?lt m' m" if "m' \<in> set R" for m'
    using that weak_order.lt_irrefl [OF lt] by auto
  from sim_state_pop [OF assms(1,2) mset_SliceStable M this]
  have "popped mode t c (Some m) (c(m_ID m := None)) \<and> sim_state (c(m_ID m := None)) (t + pollInterval) R' D"
    by blast
  moreover have "length R = Suc (length R')"
    using length_SliceStable [of ?lt R] M by simp
  ultimately show ?thesis
    using M by (auto simp: SliceStable_map)
qed

text \<open>When nothing is ready, the clock moves to the time of the first delayed message, and that one is then ready.\<close>

lemma sim_loop_jump:
  assumes "sim_state c t [] D" "\<forall>m \<in> set D. t < m_AvailableAt m" "D = d # D'" "map simItem_of D0 = map simItem_of D"
  shows "\<exists>R3 D3. sim_mature (m_AvailableAt d) [] (map simItem_of D) = (map simItem_of R3, map simItem_of D3) \<and>
    sim_state c (m_AvailableAt d) R3 D3 \<and> (\<forall>m \<in> set D3. m_AvailableAt d < m_AvailableAt m) \<and> R3 \<noteq> []"
    and "sim_loop lt [] (map simItem_of D0) t out = sim_loop lt [] (map simItem_of D) (m_AvailableAt d) out"
    and "drains mode (m_AvailableAt d) c dl \<Longrightarrow> drains mode t c dl"
proof -
  have w: "popped mode t c None c" "c (m_ID d) = Some d" "sim_state c (m_AvailableAt d) [] D"
      "\<And>j m'. c j = Some m' \<Longrightarrow> m_AvailableAt d \<le> m_AvailableAt m'"
    using sim_state_wait [OF assms(1-3)] by blast+
  obtain R3 D3 where r3: "sim_mature (m_AvailableAt d) [] (map simItem_of D) = (map simItem_of R3, map simItem_of D3)"
      "sim_state c (m_AvailableAt d) R3 D3" "\<forall>m \<in> set D3. m_AvailableAt d < m_AvailableAt m"
    using sim_state_mature [OF w(3)] by auto
  moreover have "R3 \<noteq> []"
    using r3(1) assms(3) by (auto simp: sim_mature_eq simItem_of_def)
  ultimately show "\<exists>R3 D3. sim_mature (m_AvailableAt d) [] (map simItem_of D) = (map simItem_of R3, map simItem_of D3) \<and>
      sim_state c (m_AvailableAt d) R3 D3 \<and> (\<forall>m \<in> set D3. m_AvailableAt d < m_AvailableAt m) \<and> R3 \<noteq> []"
    by blast
  show "sim_loop lt [] (map simItem_of D0) t out = sim_loop lt [] (map simItem_of D) (m_AvailableAt d) out"
    unfolding assms(4) using assms(2,3) by (subst sim_loop.simps) (simp add: simItem_of_def)
  show "drains mode t c dl" if "drains mode (m_AvailableAt d) c dl"
    using that w(4) by (intro drains.wait [OF w(1,2)]) simp_all
qed

lemma sim_loop_drains:
  assumes "sim_state c t R D"
  shows "\<exists>dl. drains mode t c dl \<and>
    sim_loop (lessFor mode) (map simItem_of R) (map simItem_of D) t out = out @ map (simItem_of \<circ> snd) dl"
  using assms
proof (induction "length R + length D" arbitrary: c t R D out rule: less_induct)
  case less
  let ?run = "\<lambda>t R D dl. drains mode t c dl \<and>
    sim_loop (lessFor mode) (map simItem_of R) (map simItem_of D) t out = out @ map (simItem_of \<circ> snd) dl"
  have step: "\<exists>dl. ?run t R0 D0 dl" if h: "sim_state c t R1 D1" "\<forall>m \<in> set D1. t < m_AvailableAt m" "R1 \<noteq> []"
      "sim_mature t (map simItem_of R0) (map simItem_of D0) = (map simItem_of R1, map simItem_of D1)"
      "length R0 + length D0 = length R + length D" for t R0 D0 R1 D1
  proof -
    obtain m R' where m: "SliceStable (lessFor mode) (map simItem_of R1) = simItem_of m # map simItem_of R'"
        "popped mode t c (Some m) (c(m_ID m := None))" "sim_state (c(m_ID m := None)) (t + pollInterval) R' D1"
        "length R1 = Suc (length R')"
      using sim_loop_step [OF h(1-3)] by blast
    have "length R' + length D1 < length R + length D"
      using sim_mature_length [OF h(4)] h(5) m(4) by simp
    from less.hyps [OF this m(3), of "out @ [simItem_of m]"] obtain dl where dl: "drains mode (t + pollInterval) (c(m_ID m := None)) dl"
        "sim_loop (lessFor mode) (map simItem_of R') (map simItem_of D1) (t + pollInterval) (out @ [simItem_of m]) =
          (out @ [simItem_of m]) @ map (simItem_of \<circ> snd) dl"
      by blast
    have "\<not> (R0 = [] \<and> D0 = [])"
      using h(3,4) by auto
    then have "sim_loop (lessFor mode) (map simItem_of R0) (map simItem_of D0) t out = out @ map (simItem_of \<circ> snd) ((t, m) # dl)"
      using h(3,4) m(1) dl(2) by (subst sim_loop.simps) simp
    then show ?thesis
      using drains.deliver [OF m(2) dl(1)] by blast
  qed
  obtain R1 D1 where rd: "sim_state c t R1 D1" "\<forall>m \<in> set D1. t < m_AvailableAt m"
      "sim_mature t (map simItem_of R) (map simItem_of D) = (map simItem_of R1, map simItem_of D1)"
    using sim_state_mature [OF less.prems] by blast
  show ?case
  proof (cases R1)
    case Cons
    then show ?thesis
      using step [OF rd(1,2) _ rd(3)] by blast
  next
    case Nil
    then have RD: "R = []" "map simItem_of D = map simItem_of D1"
      using sim_mature_none rd(3) by fastforce+
    show ?thesis
    proof (cases D1)
      case Nil': Nil
      then have "ran c = {}"
        using rd(1) Nil by (simp add: sim_state_def)
      then have "c i = None" for i
        by (cases "c i") (auto dest: ranI)
      then have "c = Map.empty"
        by auto
      then show ?thesis
        using drains.empty [of mode t] RD Nil' by (auto simp: sim_loop.simps)
    next
      case (Cons d D2)
      note jump = sim_loop_jump [OF rd(1) [unfolded Nil] rd(2) Cons RD(2)]
      obtain R3 D3 where r3: "sim_mature (m_AvailableAt d) [] (map simItem_of D1) = (map simItem_of R3, map simItem_of D3)"
          "sim_state c (m_AvailableAt d) R3 D3" "\<forall>m \<in> set D3. m_AvailableAt d < m_AvailableAt m" "R3 \<noteq> []"
        using jump(1) by blast
      have "length D1 = length D"
        using RD(2) by (metis length_map)
      then obtain dl where dl: "?run (m_AvailableAt d) [] D1 dl"
        using step [OF r3(2-4), of "[]" D1] r3(1) RD(1) by auto
      then show ?thesis
        using jump(2,3) RD(1) by (intro exI [of _ dl]) simp
    qed
  qed
qed

section \<open>The run of the worker on the service\<close>

fun poll_service ::
  "(go_time \<times> append_env) list \<Rightarrow> QueueService \<Rightarrow> (QueueService \<times> Message option list) option" where
  "poll_service [] s = Some (s, [])"
| "poll_service ((now, env) # ps) s =
    (case Dequeue now env s of
       Some (s', Inr d) \<Rightarrow> map_option (\<lambda>(s'', ds). (s'', d # ds)) (poll_service ps s')
     | _ \<Rightarrow> None)"

lemma popped_unique:
  assumes "popped mode now c d c1" "popped mode now c d' c2" "inj_on m_Seq (ran c)"
  shows "d = d' \<and> c1 = c2"
proof (cases d; cases d')
  fix m m'
  assume h: "d = Some m" "d' = Some m'"
  then have c: "c (m_ID m) = Some m" "c (m_ID m') = Some m'" "m_AvailableAt m \<le> now" "m_AvailableAt m' \<le> now"
    using assms(1,2) by (auto simp: popped_def)
  then have "m_Seq m = m_Seq m'"
    using assms(1,2) h by (fastforce simp: popped_def split: if_splits)
  then have "m = m'"
    using assms(3) c by (auto dest!: inj_onD intro: ranI)
  then show ?thesis
    using assms(1,2) h by (simp add: popped_def)
qed (use assms(1,2) in \<open>fastforce simp: popped_def not_less [symmetric]\<close>)+

lemma popped_None_later: "popped mode t c None c' \<Longrightarrow> c i = Some m \<Longrightarrow> t \<le> m_AvailableAt m"
  by (simp add: popped_def less_imp_le)

lemma drains_times: "drains mode t c dl \<Longrightarrow> sorted (map fst dl) \<and> (\<forall>x \<in> set dl. t \<le> fst x)"
proof (induction rule: drains.induct)
  case (deliver t c m c' ms)
  then show ?case
    by (force simp: pollInterval_def)
next
  case (wait t c i m ms)
  have "t \<le> m_AvailableAt m"
    using popped_None_later [OF wait.hyps(1,2)] .
  then show ?case
    using wait.IH by force
qed simp

text \<open>A run delivers every stored message, and each once.\<close>

lemma drains_all:
  assumes "drains mode t c dl" "\<And>i m. c i = Some m \<Longrightarrow> m_ID m = i"
  shows "finite (dom c) \<and> card (dom c) = length dl \<and> distinct (map snd dl) \<and> set (map snd dl) = ran c"
  using assms
proof (induction rule: drains.induct)
  case (deliver t c m c' ms)
  have c: "c (m_ID m) = Some m" "c' = c(m_ID m := None)"
    using deliver.hyps(1) by (simp_all add: popped_def)
  have "c' i = Some m' \<Longrightarrow> m_ID m' = i" for i m'
    using deliver.prems c(2) by (auto split: if_splits)
  note IH = deliver.IH [OF this]
  have "ran c' = ran c - {m}"
    unfolding c(2) by (rule ran_delete [of c "m_ID m" m m_ID]) (rule c(1), rule deliver.prems)
  moreover have "m \<in> ran c"
    using c(1) by (rule ranI)
  moreover have "dom c = insert (m_ID m) (dom c')" "m_ID m \<notin> dom c'"
    using c by auto
  ultimately show ?case
    using IH by auto
qed auto

text \<open>
  Polling the service at the times of an abstract run gives the deliveries of that run, provided
  that no append fails.
\<close>

lemma poll_service_step:
  assumes "svc_inv mode t0 es s" "t0 \<le> t" "\<not> s_closed s" "working_env env" "popped mode t (live es) d c'"
  shows "\<exists>s' es'. Dequeue t env s = Some (s', Inr d) \<and> svc_inv mode t es' s' \<and> \<not> s_closed s' \<and> live es' = c'"
proof -
  obtain s' d' es' where d: "Dequeue t env s = Some (s', Inr d')" "svc_inv mode t es' s'" "\<not> s_closed s'"
      "popped mode t (live es) d' (live es')"
    using Dequeue_works [OF assms(1,2,4,3)] by blast
  have "inj_on m_Seq (ran (live es))"
    using assms(1) by (simp add: svc_inv_def stored_ok_def)
  then have "d' = d \<and> live es' = c'"
    using popped_unique [OF d(4) assms(5)] by blast
  then show ?thesis
    using d by blast
qed

lemma drains_service:
  assumes "drains mode t c dl" "svc_inv mode t0 es s" "t0 \<le> t" "live es = c" "\<not> s_closed s"
    and "list_all working_env envs" "length envs = length dl"
  shows "\<exists>s'. poll_service (zip (map fst dl) envs) s = Some (s', map (Some \<circ> snd) dl) \<and>
    q_messages (s_queue s') = Map.empty"
  using assms
proof (induction arbitrary: t0 es s envs rule: drains.induct)
  case (empty t)
  then show ?case
    by (simp add: svc_inv_def)
next
  case (deliver t c m c' ms)
  then obtain env envs' where e: "envs = env # envs'" "working_env env" "list_all working_env envs'" "length envs' = length ms"
    by (cases envs) auto
  obtain s' es' where d: "Dequeue t env s = Some (s', Inr (Some m))" "svc_inv mode t es' s'" "\<not> s_closed s'" "live es' = c'"
    using poll_service_step [OF deliver.prems(1,2,4) e(2), of "Some m" c'] deliver.hyps(1) deliver.prems(3) by auto
  from deliver.IH [OF d(2) _ d(4,3) e(3,4)] show ?case
    using e(1) d(1) by (auto simp: pollInterval_def)
next
  case (wait t c i m ms)
  have "t \<le> m_AvailableAt m"
    using popped_None_later [OF wait.hyps(1,2)] .
  then show ?case
    using wait.IH [OF wait.prems(1) _ wait.prems(3-6)] wait.prems(2) by simp
qed

text \<open>Where nothing is delayed the deliveries do not depend on when the worker asks.\<close>

lemma visible_any_times:
  assumes "drains mode t c dl" "\<And>i m. c i = Some m \<Longrightarrow> m_AvailableAt m \<le> t"
    and "svc_inv mode t0 es s" "live es = c" "\<not> s_closed s"
    and "list_all working_env envs" "length envs = length dl" "length ts = length dl"
    and "sorted ts" "\<forall>x \<in> set ts. t0 \<le> x \<and> t \<le> x"
  shows "\<exists>s'. poll_service (zip ts envs) s = Some (s', map (Some \<circ> snd) dl) \<and>
    q_messages (s_queue s') = Map.empty"
proof -
  have "\<exists>s'. poll_service (zip ts envs) s = Some (s', map (Some \<circ> snd) dl) \<and>
      q_messages (s_queue s') = Map.empty"
    if "drains mode t c dl" "\<And>i m. c i = Some m \<Longrightarrow> m_AvailableAt m \<le> u" "u \<le> t"
      "svc_inv mode t0 es s" "live es = c" "\<not> s_closed s" "list_all working_env envs"
      "length envs = length dl" "length ts = length dl" "sorted ts" "\<forall>x \<in> set ts. t0 \<le> x \<and> u \<le> x"
    for t u c dl t0 es s envs ts
    using that
  proof (induction arbitrary: t0 es s envs ts rule: drains.induct)
    case (empty t)
    then show ?case
      by (simp add: svc_inv_def)
  next
    case (deliver t c m c' ms)
    then obtain env envs' x ts' where e: "envs = env # envs'" "working_env env" "list_all working_env envs'"
        "length envs' = length ms" "ts = x # ts'" "length ts' = length ms" "sorted ts'" "t0 \<le> x" "u \<le> x" "\<forall>y \<in> set ts'. x \<le> y"
      by (cases envs; cases ts) auto
    have "popped mode x c (Some m) c'"
      using deliver.hyps(1) deliver.prems(1) e(9) deliver.prems(2) by (force simp: popped_def)
    then obtain s' es' where d: "Dequeue x env s = Some (s', Inr (Some m))" "svc_inv mode x es' s'" "\<not> s_closed s'" "live es' = c'"
      using poll_service_step [OF deliver.prems(3) e(8) deliver.prems(5) e(2), of "Some m" c'] deliver.prems(4) by auto
    have vis: "m_AvailableAt m' \<le> u" if "c' i = Some m'" for i m'
      using that deliver.hyps(1) deliver.prems(1) by (auto simp: popped_def split: if_splits)
    have "u \<le> t + pollInterval" "\<forall>y \<in> set ts'. x \<le> y \<and> u \<le> y"
      using deliver.prems(2) e(9,10) by (auto simp: pollInterval_def)
    from deliver.IH [OF vis this(1) d(2,4,3) e(3,4,6,7) this(2)] show ?case
      using e(1,5) d(1) by auto
  next
    case (wait t c i m ms)
    then show ?case
      using popped_None_later [OF wait.hyps(1,2)] wait.prems(1) [OF wait.hyps(2)] by (auto simp: popped_def)
  qed
  from this [OF assms(1,2) order_refl assms(3-10)] show ?thesis .
qed

text \<open>A snapshot that is not cut lists every stored message once, the visible ones apart from the others.\<close>

lemma Service_Snapshot_complete:
  assumes "svc_inv mode t es s" "t \<le> now" "int (card (dom (live es))) \<le> limit"
    and "Service_Snapshot now limit s = Some (s', sn)"
  shows "distinct (sn_Ready sn @ sn_Delayed sn) \<and> set (sn_Ready sn @ sn_Delayed sn) = ran (live es) \<and>
    (\<forall>m \<in> set (sn_Ready sn). m_AvailableAt m \<le> now)"
proof -
  let ?q = "s_queue s"
  have q: "q_inv ?q" "q_messages ?q = live es"
    using assms(1) by (simp_all add: svc_inv_def good_queue_def)
  obtain rs ds where v: "in_order (ready_lt mode) (visible (q_abs ?q) now) rs" "in_order delayed_lt (hidden (q_abs ?q) now) ds"
      "length rs + length ds = card (dom (live es))"
      "sn_Ready sn = map fst (limited limit rs)" "sn_Delayed sn = map fst (limited limit ds)"
    using Service_Snapshot_lists [OF assms(1,2,4)] by blast
  have "limited limit rs = rs" "limited limit ds = ds"
    using assms(3) v(3) by (auto simp: limited_def)
  then have sn: "sn_Ready sn = map fst rs" "sn_Delayed sn = map fst ds"
    using v(4,5) by simp_all
  have sets: "set rs = visible (q_abs ?q) now" "set ds = hidden (q_abs ?q) now" "distinct rs" "distinct ds"
    using v(1,2) by (simp_all add: in_order_def)
  have "distinct (rs @ ds)" "set (rs @ ds) = ran (q_abs ?q)"
    using sets by (auto simp: visible_def hidden_def)
  then have "distinct (map fst (rs @ ds))" "set (map fst (rs @ ds)) = ran (live es)"
    using inj_on_stored [OF q(1)] ran_q_messages [of ?q] q(2) by (simp_all add: distinct_map del: distinct_append set_append map_append)
  moreover have "\<forall>m \<in> fst ` set rs. m_AvailableAt m \<le> now"
    using sets(1) by (auto simp: visible_def)
  ultimately show ?thesis
    by (simp add: sn)
qed

lemma simulateDrain_drains:
  assumes "svc_inv mode t es s" "t \<le> now" "int (card (dom (live es))) \<le> limit"
    and "Service_Snapshot now limit s = Some (s', sn)"
  shows "\<exists>dl. drains mode now (live es) dl \<and> simulateDrain sn = map (simItem_of \<circ> snd) dl"
proof -
  let ?lt = "\<lambda>a b. m_AvailableAt a < m_AvailableAt b"
  let ?D = "SliceStable ?lt (sn_Delayed sn)"
  have ls: "distinct (sn_Ready sn @ sn_Delayed sn)" "set (sn_Ready sn @ sn_Delayed sn) = ran (live es)"
      "\<forall>m \<in> set (sn_Ready sn). m_AvailableAt m \<le> now"
    using Service_Snapshot_complete [OF assms] by blast+
  have sn: "sn_Mode sn = mode" "sn_Now sn = now"
    using Service_Snapshot_ok [OF assms(1,2), of limit] assms(4) by auto
  have "sorted_wrt (\<lambda>a b. \<not> ?lt b a) ?D"
    by (rule SliceStable_sorted) (rule weak_order_key)
  moreover have "distinct ?D" "set ?D = set (sn_Delayed sn)"
    using ls(1) by (simp_all add: SliceStable_def)
  ultimately have "sim_state (live es) now (sn_Ready sn) ?D"
    using ls live_key by (auto simp: sim_state_def not_less)
  from sim_loop_drains [OF this, of mode "[]"] show ?thesis
    by (simp add: simulateDrain_def sn Let_def SliceStable_map simItem_of_def)
qed

end
