(* ===== verification/ClientText.thy ===== *)
theory ClientText
  imports Predict GoStrings
begin

text \<open>
  What the demonstration client (\<^verbatim>\<open>src/cmd/client/main.go\<close>) prints: its jobs, the explanations of a
  delivery or of an empty poll, the banner and the summary table, and the colour switch.
\<close>

section \<open>Jobs\<close>

record task =
  ta_Label :: string
  ta_Priority :: int
  ta_DelaySeconds :: int
  ta_Payload :: string

record tracked =
  tr_task :: task
  tr_msg :: Message

abbreviation tr_Label :: "tracked \<Rightarrow> string" where "tr_Label t \<equiv> ta_Label (tr_task t)"
abbreviation tr_Priority :: "tracked \<Rightarrow> int" where "tr_Priority t \<equiv> ta_Priority (tr_task t)"
abbreviation tr_DelaySeconds :: "tracked \<Rightarrow> int" where "tr_DelaySeconds t \<equiv> ta_DelaySeconds (tr_task t)"
abbreviation tr_Payload :: "tracked \<Rightarrow> string" where "tr_Payload t \<equiv> ta_Payload (tr_task t)"

definition checkout_script :: "task list" where
  "checkout_script =
    [\<lparr>ta_Label = ''A'', ta_Priority = 1, ta_DelaySeconds = 0, ta_Payload = ''email receipt for order 1841''\<rparr>,
     \<lparr>ta_Label = ''B'', ta_Priority = 5, ta_DelaySeconds = 0, ta_Payload = ''capture payment for order 1842''\<rparr>,
     \<lparr>ta_Label = ''C'', ta_Priority = 10, ta_DelaySeconds = 8, ta_Payload = ''retry Stripe webhook for order 1842''\<rparr>,
     \<lparr>ta_Label = ''D'', ta_Priority = 5, ta_DelaySeconds = 0, ta_Payload = ''capture payment for order 1843''\<rparr>,
     \<lparr>ta_Label = ''E'', ta_Priority = 10, ta_DelaySeconds = 4, ta_Payload = ''retry inventory webhook for order 1843''\<rparr>]"

section \<open>Colours\<close>

definition paint :: "bool \<Rightarrow> bytes \<Rightarrow> bytes \<Rightarrow> bytes" where
  "paint useColor code s =
    (if \<not> useColor then s
     else [CHR 0x1B] @ ''['' @ code @ ''m'' @ s @ [CHR 0x1B] @ ''[0m'')"

definition bold :: "bool \<Rightarrow> bytes \<Rightarrow> bytes" where "bold c s = paint c ''1'' s"
definition dim :: "bool \<Rightarrow> bytes \<Rightarrow> bytes" where "dim c s = paint c ''2'' s"
definition green :: "bool \<Rightarrow> bytes \<Rightarrow> bytes" where "green c s = paint c ''32'' s"
definition yellow :: "bool \<Rightarrow> bytes \<Rightarrow> bytes" where "yellow c s = paint c ''33'' s"
definition cyan :: "bool \<Rightarrow> bytes \<Rightarrow> bytes" where "cyan c s = paint c ''36'' s"

definition getenv :: "process_env \<Rightarrow> string \<Rightarrow> string \<Rightarrow> string" where
  "getenv env key fallback = (let v = pe_Getenv env key in if v \<noteq> [] then v else fallback)"

definition autoColor :: "process_env \<Rightarrow> bool" where
  "autoColor env =
    (if pe_Getenv env ''NO_COLOR'' \<noteq> [] then False
     else if pe_Getenv env ''TERM'' = ''dumb'' then False
     else case pe_stdout env of None \<Rightarrow> False | Some isDevice \<Rightarrow> isDevice)"

definition setColor :: "process_env \<Rightarrow> string \<Rightarrow> string + bool" where
  "setColor env mode =
    (let m = ToLower (pe_lower env) (TrimSpace mode)
     in if m = ''always'' then Inr True
        else if m = ''never'' then Inr False
        else if m = ''auto'' \<or> m = [] then Inr (autoColor env)
        else Inl mode)"

section \<open>Explanations\<close>

definition availability :: "task \<Rightarrow> bytes" where
  "availability t =
    (if ta_DelaySeconds t = 0 then ''available immediately''
     else ''hidden until +'' @ Itoa (ta_DelaySeconds t) @ ''s'')"

definition reasoning :: "QueueMode \<Rightarrow> int \<Rightarrow> bytes" where
  "reasoning mode preexisting =
    (if preexisting > 0 then
       ''  The order above accounts for the '' @ Itoa preexisting @ '' message(s) already queued:'' @ nl @
       ''  they drain first, and our backoffs mature while they do, so a delayed'' @ nl @
       ''  priority-10 webhook can be ready before the captures are reached.'' @ nl @
       ''  Run against an empty queue to see the five jobs in isolation.''
     else
       (if mode = ModeLIFO then ''  D before B      two payment captures, same priority; LIFO takes the newest''
        else ''  B before D      two payment captures, same priority; FIFO takes the oldest'') @ nl @
       ''  captures first  money outranks the receipt email (priority 5 beats 1)'' @ nl @
       ''  A before E,C    the webhooks asked us to wait; they cannot jump the line yet'' @ nl @
       ''  E before C      the 4s inventory backoff ends before the 8s Stripe backoff'')"

definition labels :: "tracked list \<Rightarrow> bytes" where
  "labels ts = Join (map tr_Label ts) '', ''"

definition describePri :: "tracked list \<Rightarrow> bytes" where
  "describePri ts = Join (map (\<lambda>t. tr_Label t @ '' (pri '' @ Itoa (tr_Priority t) @ '')'') ts) '', ''"

definition describeTracked :: "tracked list \<Rightarrow> go_time \<Rightarrow> bytes" where
  "describeTracked ts now =
    Join (map (\<lambda>t.
      let wait = time_Sub (m_AvailableAt (tr_msg t)) now
      in tr_Label t @ '' (pri '' @ Itoa (tr_Priority t) @ '', ready in '' @
         seconds2 (if wait < 0 then 0 else wait) @ ''s)'') ts) ''; ''"

definition joinWhy :: "bytes list \<Rightarrow> bytes" where
  "joinWhy parts = Join parts ''. '' @ ''.''"

definition backoff_part :: "tracked \<Rightarrow> go_time \<Rightarrow> bytes" where
  "backoff_part got now =
    (if tr_DelaySeconds got > 0 then
       (let since = time_Sub now (m_AvailableAt (tr_msg got))
        in if since < 800 * 1000000
           then tr_Label got @ '' just became ready after its '' @ Itoa (tr_DelaySeconds got) @ ''s backoff''
           else tr_Label got @ '' has been ready since its '' @ Itoa (tr_DelaySeconds got) @ ''s backoff elapsed'')
     else tr_Label got @ '' was ready immediately (no backoff)'')"

definition still_hidden :: "go_time \<Rightarrow> tracked \<Rightarrow> bool" where
  "still_hidden now r \<longleftrightarrow> now < m_AvailableAt (tr_msg r)"

definition explainDequeue :: "tracked \<Rightarrow> tracked list \<Rightarrow> go_time \<Rightarrow> bytes" where
  "explainDequeue got remaining now =
    (let hidden = filter (still_hidden now) remaining;
         othersVisible = filter (\<lambda>r. \<not> still_hidden now r) remaining;
         parts = backoff_part got now #
           (if hidden \<noteq> [] then [''still waiting on backoff: '' @ describeTracked hidden now] else [])
     in if othersVisible = [] then
          (if hidden \<noteq> [] then
             (let higher = [h \<leftarrow> hidden. tr_Priority h > tr_Priority got]
              in if higher \<noteq> [] then
                   joinWhy (parts @ [tr_Label got @ '' is the only ready job; higher-priority webhooks ('' @
                     describePri higher @ '') are still on backoff''])
                 else
                   joinWhy (parts @ [tr_Label got @ '' is the only ready job; delayed jobs stay hidden until backoff ends'']))
           else joinWhy (parts @ [tr_Label got @ '' is the last remaining job'']))
        else
          (let samePri = [o' \<leftarrow> othersVisible. tr_Priority o' = tr_Priority got];
               lowerPri = [o' \<leftarrow> othersVisible. tr_Priority o' < tr_Priority got]
           in if samePri \<noteq> [] then
                joinWhy (parts @ [''tied at priority '' @ Itoa (tr_Priority got) @ '' with '' @ labels samePri @
                  ''; the tie-break took '' @ tr_Label got @ '' (seq '' @ dec (unat (m_Seq (tr_msg got))) @ '') over '' @
                  labels samePri])
              else
                joinWhy (parts @ [''highest visible priority is '' @ Itoa (tr_Priority got) @ '', beating '' @
                  describePri lowerPri])))"

definition explainEmpty :: "tracked list \<Rightarrow> go_time \<Rightarrow> bytes" where
  "explainEmpty remaining now =
    (if remaining = [] then ''shop is caught up: every checkout job has been processed''
     else
       let visible = filter (\<lambda>r. \<not> still_hidden now r) remaining; hidden = filter (still_hidden now) remaining
       in if visible \<noteq> [] then
            ''unexpected: ready jobs remain ('' @ labels visible @ '') but dequeue returned 204''
          else ''waiting on backoff: '' @ describeTracked hidden now)"

section \<open>Banner and summary\<close>

definition printBanner :: "QueueMode \<Rightarrow> bytes" where
  "printBanner mode =
    nl @
    ''+----------------------------------------------------------------------+'' @ nl @
    ''|     Checkout dispatcher  (a worker that uses Queuemaxxing)            |'' @ nl @
    ''+----------------------------------------------------------------------+'' @ nl @
    nl @
    ''You are the single worker behind a small shop checkout pipeline.'' @ nl @
    ''Five jobs just landed from the storefront. Process them in the order'' @ nl @
    ''the queue decides, not the order they arrived.'' @ nl @
    nl @
    ''  A   pri  1   now     email receipt for order 1841'' @ nl @
    ''  B   pri  5   now     capture payment for order 1842'' @ nl @
    ''  C   pri 10   +8s     retry Stripe webhook for order 1842'' @ nl @
    ''  D   pri  5   now     capture payment for order 1843'' @ nl @
    ''  E   pri 10   +4s     retry inventory webhook for order 1843'' @ nl @
    nl @
    ''This server is in '' @ mode @ '' mode, so on a priority tie: '' @
      (if mode = ModeLIFO then ''LIFO does the newest job first'' else ''FIFO does the oldest job first'') @ ''.'' @ nl @
    nl"

definition payloadForLabel :: "task list \<Rightarrow> string \<Rightarrow> string" where
  "payloadForLabel script label =
    (case find (\<lambda>t. ta_Label t = label) script of None \<Rightarrow> [] | Some t \<Rightarrow> ta_Payload t)"

text \<open>
  The rows handed to the \<^verbatim>\<open>tabwriter\<close>, one per position of the longer list, with the flag that stays
  set while predicted and actual labels agree.
\<close>

definition summary_row :: "string list \<Rightarrow> tracked list \<Rightarrow> task list \<Rightarrow> nat \<Rightarrow> bytes list \<times> bool" where
  "summary_row expected actual script i =
    (let e = (if i < length expected then expected ! i @ ''  '' @ payloadForLabel script (expected ! i) else ''-'');
         a = (if i < length actual then tr_Label (actual ! i) @ ''  '' @ tr_Payload (actual ! i) else ''-'');
         ok = (i < length expected \<and> i < length actual \<and> tr_Label (actual ! i) = expected ! i)
     in ([''  '' @ dec (i + 1), e, a, if ok then ''ok'' else ''x''], ok))"

definition summary_rows :: "string list \<Rightarrow> tracked list \<Rightarrow> task list \<Rightarrow> bytes list list \<times> bool" where
  "summary_rows expected actual script =
    fold (\<lambda>i (rows, allOK).
        case summary_row expected actual script i of (row, ok) \<Rightarrow> (rows @ [row], if ok then allOK else False))
      [0..<(if length actual > length expected then length actual else length expected)]
      ([], length actual = length expected)"

text \<open>
  A \<^verbatim>\<open>tabwriter\<close> with padding 2 on rows of the same number of cells: every column but the last is as
  wide as its widest cell and the padding.
\<close>

definition column_width :: "bytes list list \<Rightarrow> nat \<Rightarrow> nat" where
  "column_width rows j = fold max (map (\<lambda>row. length (row ! j)) rows) 0 + 2"

definition tab_row :: "bytes list list \<Rightarrow> bytes list \<Rightarrow> bytes" where
  "tab_row rows row =
    concat (map (\<lambda>j. if Suc j < length row then pad_right (column_width rows j) (row ! j) else row ! j) [0..<length row]) @ nl"

definition printSummary :: "bool \<Rightarrow> string list \<Rightarrow> tracked list \<Rightarrow> task list \<Rightarrow> bytes" where
  "printSummary c expected actual script =
    (case summary_rows expected actual script of
       (rows, allOK) \<Rightarrow>
         (let table = [''  #'', ''Predicted'', ''Actual'', ''Match''] # [''  --'', ''---------'', ''------'', ''-----''] # rows
          in bold c ''-- 3. What the worker ran ------------------------------------------'' @ nl @ nl @
             concat (map (tab_row table) table) @ nl @
             (if allOK then green c ''  Result: PASS  the engine drained exactly as its own rules predict.''
              else yellow c ''  Result: MISMATCH  the engine disagreed with its own rules - see the table.'') @ nl @ nl))"

definition orderMatches :: "string list \<Rightarrow> tracked list \<Rightarrow> bool" where
  "orderMatches expected actual =
    (if length actual \<noteq> length expected then False
     else list_all (\<lambda>i. tr_Label (actual ! i) = expected ! i) [0..<length expected])"

end
