(* ===== verification/Client.thy ===== *)
theory Client
  imports ClientText Api
begin

text \<open>
  The demonstration client (\<^verbatim>\<open>src/cmd/client/main.go\<close>) as a program over a connection to a server: its
  HTTP calls, the prediction of the drain order, the worker loop and the whole run.  A job that is
  tracked is a Go pointer shared by the map of the run's jobs, the list of pending ones and the
  list of processed ones; here it is an index into a store.
\<close>

section \<open>The connection\<close>

text \<open>
  What \<^verbatim>\<open>http.Client\<close> gives for a request: an error, or a status and the body as far as it can be read;
  when \<open>cr_Broken\<close> is set, reading past those bytes fails.  The state is that of the server at the
  other end.  \<open>hc_prefix\<close> is the path part of the base URL.
\<close>

record client_response =
  cr_Status :: nat
  cr_Body :: bytes
  cr_Broken :: bool

record 's http_client =
  hc_prefix :: bytes
  hc_Do :: "http_request \<Rightarrow> 's \<Rightarrow> 's \<times> (bytes + client_response)"

definition client_Get :: "'s http_client \<Rightarrow> bytes \<Rightarrow> bytes \<Rightarrow> 's \<Rightarrow> 's \<times> (bytes + client_response)" where
  "client_Get c path query =
    hc_Do c \<lparr>rq_Method = ''GET'', rq_Path = hc_prefix c @ path, rq_RawQuery = query, rq_Body = [], rq_BodyBroken = False\<rparr>"

definition client_Post :: "'s http_client \<Rightarrow> bytes \<Rightarrow> bytes \<Rightarrow> 's \<Rightarrow> 's \<times> (bytes + client_response)" where
  "client_Post c path body =
    hc_Do c \<lparr>rq_Method = ''POST'', rq_Path = hc_prefix c @ path, rq_RawQuery = [], rq_Body = body, rq_BodyBroken = False\<rparr>"

definition body_end :: "client_response \<Rightarrow> stream_end" where
  "body_end r = (if cr_Broken r then Broken else AtEOF)"

section \<open>HTTP calls\<close>

datatype client_error =
    NotReachable bytes bytes
  | HealthStatus nat
  | HealthDecode
  | HealthUnhealthy bytes
  | MessagesFailed bytes
  | MessagesStatus nat
  | MessagesDecode
  | MessagesMode bytes
  | CallFailed bytes
  | BodyReadFailed
  | EnqueueStatus nat bytes
  | EnqueueDecode
  | DequeueStatus nat bytes
  | DequeueDecode
  | StartServer client_error
  | EnqueueJob bytes client_error
  | BadColor bytes
  | TimedOut int nat nat
  | OrderMismatch

record healthResponse =
  hr_Status :: string

definition health_names :: "bytes list" where "health_names = [''status'']"

definition health_field :: "healthResponse field_decoder" where
  "health_field name v h =
    (if name = ''status'' then map_option (\<lambda>x. h\<lparr>hr_Status := x\<rparr>) (decode_string v (hr_Status h)) else Some h)"

record errorResponse =
  er_Error :: string

definition error_names :: "bytes list" where "error_names = [''error'']"

definition error_field :: "errorResponse field_decoder" where
  "error_field name v e =
    (if name = ''error'' then map_option (\<lambda>x. e\<lparr>er_Error := x\<rparr>) (decode_string v (er_Error e)) else Some e)"

interpretation hl: json_struct health_names health_field
  by unfold_locales code_simp

interpretation er: json_struct error_names error_field
  by unfold_locales code_simp

lemma response_names [simp]: "''status'' \<in> set health_names" "''error'' \<in> set error_names"
  by (simp_all add: health_names_def error_names_def)

definition checkHealth :: "'s http_client \<Rightarrow> bytes \<Rightarrow> 's \<Rightarrow> 's \<times> client_error option" where
  "checkHealth c base s =
    (case client_Get c ''/health'' [] s of
       (s', Inl err) \<Rightarrow> (s', Some (NotReachable base err))
     | (s', Inr resp) \<Rightarrow>
         (s',
          if cr_Status resp \<noteq> 200 then Some (HealthStatus (cr_Status resp))
          else case Decoder_Decode health_names health_field \<lparr>hr_Status = []\<rparr> (cr_Body resp) (body_end resp) of
            Inl _ \<Rightarrow> Some HealthDecode
          | Inr h \<Rightarrow> if hr_Status h \<noteq> ''healthy'' then Some (HealthUnhealthy (hr_Status h)) else None))"

definition snapshotLimit :: int where "snapshotLimit = 1000"

definition getSnapshot :: "'s http_client \<Rightarrow> 's \<Rightarrow> 's \<times> (client_error + QueueSnapshot)" where
  "getSnapshot c s =
    (case client_Get c ''/messages'' (''limit='' @ Itoa snapshotLimit) s of
       (s', Inl err) \<Rightarrow> (s', Inl (MessagesFailed err))
     | (s', Inr resp) \<Rightarrow>
         (s',
          if cr_Status resp \<noteq> 200 then Inl (MessagesStatus (cr_Status resp))
          else case Decoder_Decode snapshot_names snapshot_field zero_snapshot (cr_Body resp) (body_end resp) of
            Inl _ \<Rightarrow> Inl MessagesDecode
          | Inr snap \<Rightarrow> if \<not> Valid (sn_Mode snap) then Inl (MessagesMode (sn_Mode snap)) else Inr snap))"

definition apiErr :: "bytes \<Rightarrow> bytes" where
  "apiErr raw =
    (let rest = (let s = TrimSpace raw in if s = [] then ''(empty body)'' else s)
     in case unmarshal_struct error_names error_field \<lparr>er_Error = []\<rparr> raw of
          Inr e \<Rightarrow> if er_Error e \<noteq> [] then er_Error e else rest
        | Inl _ \<Rightarrow> rest)"

definition client_enqueue :: "'s http_client \<Rightarrow> EnqueueRequest \<Rightarrow> 's \<Rightarrow> 's \<times> (client_error + Message)" where
  "client_enqueue c req s =
    (case client_Post c ''/enqueue'' (encode (request_json req)) s of
       (s', Inl err) \<Rightarrow> (s', Inl (CallFailed err))
     | (s', Inr resp) \<Rightarrow>
         (s',
          if cr_Broken resp then Inl BodyReadFailed
          else if cr_Status resp \<noteq> 201 then Inl (EnqueueStatus (cr_Status resp) (apiErr (cr_Body resp)))
          else case unmarshal_struct message_names message_field zero_message (cr_Body resp) of
            Inl _ \<Rightarrow> Inl EnqueueDecode
          | Inr msg \<Rightarrow> Inr msg))"

definition client_dequeue :: "'s http_client \<Rightarrow> 's \<Rightarrow> 's \<times> (client_error + Message option)" where
  "client_dequeue c s =
    (case client_Post c ''/dequeue'' [] s of
       (s', Inl err) \<Rightarrow> (s', Inl (CallFailed err))
     | (s', Inr resp) \<Rightarrow>
         (s',
          if cr_Status resp = 204 then Inr None
          else if cr_Broken resp then Inl BodyReadFailed
          else if cr_Status resp \<noteq> 200 then Inl (DequeueStatus (cr_Status resp) (apiErr (cr_Body resp)))
          else case unmarshal_struct message_names message_field zero_message (cr_Body resp) of
            Inl _ \<Rightarrow> Inl DequeueDecode
          | Inr msg \<Rightarrow> Inr (Some msg)))"

section \<open>The worker\<close>

type_synonym tptr = nat

record worker =
  wk_store :: "tracked list"
  wk_mine :: "(string \<times> tptr) list"
  wk_pending :: "tptr list"
  wk_actual :: "tptr list"
  wk_out :: bytes

definition deref :: "worker \<Rightarrow> tptr list \<Rightarrow> tracked list" where
  "deref w ps = map ((!) (wk_store w)) ps"

definition predictLabels :: "QueueSnapshot \<Rightarrow> worker \<Rightarrow> string list" where
  "predictLabels snap w =
    fold (\<lambda>it out. case map_of (wk_mine w) (si_id it) of
        None \<Rightarrow> out
      | Some p \<Rightarrow> out @ [tr_Label (wk_store w ! p)])
      (simulateDrain snap) []"

definition removeTracked :: "tptr list \<Rightarrow> tptr \<Rightarrow> tptr list" where
  "removeTracked pending want = [p \<leftarrow> pending. p \<noteq> want]"

definition timestamp :: "process_env \<Rightarrow> go_time \<Rightarrow> int \<Rightarrow> bytes" where
  "timestamp env now elapsed =
    clock_text (now + pe_zone env now * nanos_per_sec) @ ''  t='' @
    pad_left 6 ((if elapsed < 0 then [] else ''+'') @ seconds2 elapsed) @ ''s''"

definition print_line :: "bytes \<Rightarrow> worker \<Rightarrow> worker" where
  "print_line line w = w\<lparr>wk_out := wk_out w @ line @ nl\<rparr>"

definition pollOnce ::
  "process_env \<Rightarrow> bool \<Rightarrow> 's http_client \<Rightarrow> go_time \<Rightarrow> go_time \<Rightarrow> worker \<Rightarrow> 's \<Rightarrow> worker \<times> 's \<times> client_error option" where
  "pollOnce env col c start now w s =
    (let elapsed = time_Sub now start
     in case client_dequeue c s of
          (s', Inl err) \<Rightarrow> (w, s', Some err)
        | (s', Inr msg) \<Rightarrow>
            (let ts = timestamp env now elapsed
             in case msg of
                  None \<Rightarrow>
                    (print_line (''  '' @ dim col ts @ ''  '' @ yellow col ''empty'' @ ''  '' @
                       dim col (explainEmpty (deref w (wk_pending w)) now)) w, s', None)
                | Some m \<Rightarrow>
                    (case map_of (wk_mine w) (m_ID m) of
                       None \<Rightarrow>
                         (print_line (''      '' @ dim col (''priority='' @ Itoa (m_Priority m) @ ''  seq='' @
                            dec (unat (m_Seq m)) @ ''  not part of this run - it was already queued and outranked our jobs''))
                           (print_line (''  '' @ dim col ts @ ''  '' @ dim col ''processed (other traffic)'' @ ''  '' @
                              dim col (m_Payload m)) w), s', None)
                     | Some p \<Rightarrow>
                         (let tr = (wk_store w ! p)\<lparr>tr_msg := m\<rparr>;
                              w1 = w\<lparr>wk_store := (wk_store w)[p := tr], wk_pending := removeTracked (wk_pending w) p,
                                     wk_actual := wk_actual w @ [p]\<rparr>
                          in (print_line (''      why: '' @ explainDequeue tr (deref w1 (wk_pending w1)) now)
                               (print_line (''      priority='' @ Itoa (tr_Priority tr) @ ''  original delay='' @
                                  Itoa (tr_DelaySeconds tr) @ ''s  seq='' @ dec (unat (m_Seq m)))
                                 (print_line (''  '' @ cyan col ts @ ''  '' @ green col (''processed '' @ tr_Label tr) @ ''  '' @
                                    tr_Payload tr) w1)), s', None)))))"

text \<open>
  One iteration of the loop reads the clock several times; the readings of all iterations are given
  as a list, and the loop has not returned when the list ends.
\<close>

record tick =
  tick_poll :: go_time
  tick_done :: go_time
  tick_since :: go_time
  tick_deadline :: go_time
  tick_report :: go_time

definition idleGrace :: int where "idleGrace = 1500 * 1000000"

definition Round_second :: "int \<Rightarrow> int" where
  "Round_second d =
    (if d < 0 then - ((- d + 500000000) div 1000000000 * 1000000000)
     else (d + 500000000) div 1000000000 * 1000000000)"

fun worker_iterations ::
  "process_env \<Rightarrow> bool \<Rightarrow> 's http_client \<Rightarrow> go_time \<Rightarrow> go_time \<Rightarrow> tick list \<Rightarrow> go_time option \<Rightarrow> worker \<Rightarrow> 's
    \<Rightarrow> (worker \<times> 's \<times> client_error option) option" where
  "worker_iterations env col c start deadline [] doneAt w s = None"
| "worker_iterations env col c start deadline (tk # tks) doneAt w s =
    (case pollOnce env col c start (tick_poll tk) w s of
       (w', s', Some err) \<Rightarrow> Some (w', s', Some err)
     | (w', s', None) \<Rightarrow>
         (let finished = (length (wk_actual w') = length (wk_mine w'));
              doneAt' = (if finished \<and> doneAt = None then Some (tick_done tk) else doneAt)
          in if finished \<and> time_Sub (tick_since tk) (the doneAt') \<ge> idleGrace then Some (w', s', None)
             else if deadline < tick_deadline tk then
               Some (w', s', Some (TimedOut (Round_second (time_Sub (tick_report tk) start))
                 (length (wk_actual w')) (length (wk_mine w'))))
             else worker_iterations env col c start deadline tks doneAt' w' s'))"

definition max_delay :: "task list \<Rightarrow> int" where
  "max_delay script = fold (\<lambda>t d. if ta_DelaySeconds t > d then ta_DelaySeconds t else d) script 0"

definition workerLoop ::
  "process_env \<Rightarrow> bool \<Rightarrow> 's http_client \<Rightarrow> task list \<Rightarrow> go_time \<Rightarrow> go_time \<Rightarrow> tick list \<Rightarrow> worker \<Rightarrow> 's
    \<Rightarrow> (worker \<times> 's \<times> client_error option) option" where
  "workerLoop env col c script t0 start tks w s =
    (let deadline = t0 + signed_take_bit 63 (delay_duration (max_delay script) + 30 * nanos_per_sec)
     in worker_iterations env col c start deadline tks None w s)"

section \<open>The whole run\<close>

fun enqueue_all ::
  "bool \<Rightarrow> 's http_client \<Rightarrow> task list \<Rightarrow> worker \<Rightarrow> 's \<Rightarrow> worker \<times> 's \<times> client_error option" where
  "enqueue_all col c [] w s = (w, s, None)"
| "enqueue_all col c (t # ts) w s =
    (case client_enqueue c \<lparr>req_Payload = ta_Payload t, req_Priority = ta_Priority t, req_DelaySeconds = ta_DelaySeconds t\<rparr> s of
       (s', Inl err) \<Rightarrow> (w, s', Some (EnqueueJob (ta_Label t) err))
     | (s', Inr msg) \<Rightarrow>
         (let p = length (wk_store w);
              w1 = w\<lparr>wk_store := wk_store w @ [\<lparr>tr_task = t, tr_msg = msg\<rparr>],
                     wk_mine := AList.update (m_ID msg) p (wk_mine w), wk_pending := wk_pending w @ [p]\<rparr>
          in enqueue_all col c ts
               (print_line (''  '' @ bold col (ta_Label t) @ ''  seq='' @ pad_right 4 (dec (unat (m_Seq msg))) @ '' pri='' @
                  pad_right 3 (Itoa (ta_Priority t)) @ '' delay='' @ Itoa (ta_DelaySeconds t) @ ''s  '' @ availability t) w1) s'))"

text \<open>The command line: the values of the two flags, when they are given.\<close>

record client_flags =
  fl_url :: "bytes option"
  fl_color :: "bytes option"

definition flag_value :: "bytes option \<Rightarrow> bytes \<Rightarrow> bytes" where
  "flag_value given dflt = (case given of None \<Rightarrow> dflt | Some v \<Rightarrow> v)"

record worker_clock =
  wc_deadline :: go_time
  wc_start :: go_time
  wc_ticks :: "tick list"

definition empty_worker :: "bytes \<Rightarrow> worker" where
  "empty_worker out = \<lparr>wk_store = [], wk_mine = [], wk_pending = [], wk_actual = [], wk_out = out\<rparr>"

definition connected_text :: "bool \<Rightarrow> bytes \<Rightarrow> QueueSnapshot \<Rightarrow> bytes" where
  "connected_text col base snap =
    printBanner (sn_Mode snap) @
    ''Connected to '' @ base @ ''  (mode='' @ sn_Mode snap @ '')'' @ nl @
    (if qs_Total (sn_Stats snap) > 0 then
       yellow col (''  Note: the queue already holds '' @ Itoa (qs_Total (sn_Stats snap)) @ '' message(s) ('' @
         Itoa (qs_Available (sn_Stats snap)) @ '' ready, '' @ Itoa (qs_Delayed (sn_Stats snap)) @ '' delayed).'' @ nl @
         ''  That is fine - the worker scores only the jobs it enqueued, and the'' @ nl @
         ''  prediction below accounts for the existing traffic draining first.'') @ nl
     else []) @
    nl @
    bold col ''-- 1. Storefront burst (enqueue) -----------------------------------'' @ nl"

definition prediction_text :: "bool \<Rightarrow> string list \<Rightarrow> QueueMode \<Rightarrow> int \<Rightarrow> bytes" where
  "prediction_text col expected mode preexisting =
    nl @ ''Worker should process, in order: '' @ bold col (Join expected '' -> '') @ nl @
    dim col (reasoning mode preexisting) @ nl @ nl @
    bold col (''-- 2. Worker loop (POST /dequeue every '' @ Itoa (pollInterval div 1000000) @
      ''ms) ------------------------'') @ nl"

definition client_run ::
  "process_env \<Rightarrow> client_flags \<Rightarrow> (bytes \<Rightarrow> 's http_client) \<Rightarrow> worker_clock \<Rightarrow> 's \<Rightarrow> ('s \<times> bytes \<times> client_error option) option" where
  "client_run env flags connect clk s =
    (let base = TrimRight_cut (CHR ''/'') (TrimSpace (flag_value (fl_url flags) (getenv env ''QUEUE_URL'' ''http://127.0.0.1:8080'')))
     in case setColor env (flag_value (fl_color flags) (getenv env ''QM_COLOR'' ''auto'')) of
          Inl m \<Rightarrow> Some (s, [], Some (BadColor m))
        | Inr col \<Rightarrow>
            (let c = connect base
             in case checkHealth c base s of
                  (s1, Some err) \<Rightarrow> Some (s1, [], Some (StartServer err))
                | (s1, None) \<Rightarrow>
                    (case getSnapshot c s1 of
                       (s2, Inl err) \<Rightarrow> Some (s2, [], Some err)
                     | (s2, Inr before) \<Rightarrow>
                         (case enqueue_all col c checkout_script (empty_worker (connected_text col base before)) s2 of
                            (w, s3, Some err) \<Rightarrow> Some (s3, wk_out w, Some err)
                          | (w, s3, None) \<Rightarrow>
                              (case getSnapshot c s3 of
                                 (s4, Inl err) \<Rightarrow> Some (s4, wk_out w, Some err)
                               | (s4, Inr after) \<Rightarrow>
                                   (let expected = predictLabels after w;
                                        w1 = w\<lparr>wk_out := wk_out w @
                                          prediction_text col expected (sn_Mode after) (qs_Total (sn_Stats before))\<rparr>
                                    in case workerLoop env col c checkout_script (wc_deadline clk) (wc_start clk) (wc_ticks clk) w1 s4 of
                                         None \<Rightarrow> None
                                       | Some (w2, s5, Some err) \<Rightarrow> Some (s5, wk_out w2, Some err)
                                       | Some (w2, s5, None) \<Rightarrow>
                                           (let actual = deref w2 (wk_actual w2);
                                                out = wk_out w2 @ nl @ printSummary col expected actual checkout_script
                                            in Some (s5, out,
                                                 if \<not> orderMatches expected actual then Some OrderMismatch else None))))))))"

text \<open>The exit code of \<^verbatim>\<open>main\<close>.\<close>

definition client_main ::
  "process_env \<Rightarrow> client_flags \<Rightarrow> (bytes \<Rightarrow> 's http_client) \<Rightarrow> worker_clock \<Rightarrow> 's \<Rightarrow> nat option" where
  "client_main env flags connect clk s =
    map_option (\<lambda>(s', out, err). if err = None then 0 else 1) (client_run env flags connect clk s)"

end
