(* ===== verification/Client_Props.thy ===== *)
theory Client_Props
  imports Client Api_Props Engine_Props
begin

text \<open>
  The properties of the demonstration client: its calls over a connection to the server give what
  the service did; its prediction is the run of a polling worker on the service; the worker loop
  ends, and its verdict is that of the printed summary.
\<close>

section \<open>A connection to the server\<close>

text \<open>
  A connection on which every request reaches the server's handler and every response comes back
  whole.  The state is that of the service with, for each call to come, what that call will read
  from outside; the multiplexer's own replies, which no request of the client gets, are given
  without their text.
\<close>

definition network :: "api_env \<Rightarrow> (call_env list \<times> QueueService) http_client" where
  "network api =
    \<lparr>hc_prefix = [],
     hc_Do = (\<lambda>r (ces, s).
       case ces of
         [] \<Rightarrow> ((ces, s), Inl ''connection refused'')
       | ce # ces' \<Rightarrow>
           (case ServeHTTP api (service_queue ce) r s of
              (s', Reply resp) \<Rightarrow> ((ces', s'), Inr \<lparr>cr_Status = rs_Status resp, cr_Body = rs_Body resp, cr_Broken = False\<rparr>)
            | (s', reply) \<Rightarrow> ((ces', s'), Inr \<lparr>cr_Status = reply_status reply, cr_Body = [], cr_Broken = False\<rparr>)))\<rparr>"

lemma network_reply:
  assumes "findHandler r = Inr ep" "run_handler api (service_queue ce) ep r s = Some (s', resp)"
  shows "hc_Do (network api) r (ce # ces, s) =
    ((ces, s'), Inr \<lparr>cr_Status = rs_Status resp, cr_Body = rs_Body resp, cr_Broken = False\<rparr>)"
  using assms by (simp add: network_def ServeHTTP_def recoverMiddleware_def)

lemma client_paths:
  "cleanPath ''/health'' = ''/health''" "match_route ''GET'' ''/health'' = Some ep_health"
  "cleanPath ''/messages'' = ''/messages''" "match_route ''GET'' ''/messages'' = Some ep_messages"
  "cleanPath ''/enqueue'' = ''/enqueue''" "match_route ''POST'' ''/enqueue'' = Some ep_enqueue"
  "cleanPath ''/dequeue'' = ''/dequeue''" "match_route ''POST'' ''/dequeue'' = Some ep_dequeue"
  by code_simp+

lemma client_routes:
  "findHandler \<lparr>rq_Method = ''GET'', rq_Path = ''/health'', rq_RawQuery = q, rq_Body = b, rq_BodyBroken = x\<rparr> = Inr ep_health"
  "findHandler \<lparr>rq_Method = ''GET'', rq_Path = ''/messages'', rq_RawQuery = q, rq_Body = b, rq_BodyBroken = x\<rparr> = Inr ep_messages"
  "findHandler \<lparr>rq_Method = ''POST'', rq_Path = ''/enqueue'', rq_RawQuery = q, rq_Body = b, rq_BodyBroken = x\<rparr> = Inr ep_enqueue"
  "findHandler \<lparr>rq_Method = ''POST'', rq_Path = ''/dequeue'', rq_RawQuery = q, rq_Body = b, rq_BodyBroken = x\<rparr> = Inr ep_dequeue"
  by (simp_all add: findHandler_def client_paths)

lemma network_prefix [simp]: "hc_prefix (network api) = []"
  by (simp add: network_def)

section \<open>Calls\<close>

lemma checkHealth_network: "checkHealth (network api) base (ce # ces, s) = ((ces, s), None)"
proof -
  have "plain_name ''status''"
    by code_simp
  then have ok: "text_ok (TObj [(''status'', TStr ''healthy'')]) 1"
    by simp
  have "decode_struct health_names health_field (JObj [(''status'', JStr (escape x))]) \<lparr>hr_Status = []\<rparr>
      = Some \<lparr>hr_Status = ToValidUTF8 x\<rparr>" for x
    by (simp add: decode_struct_def hl.decode_member_field health_field_def)
  moreover have "ToValidUTF8 ''healthy'' = ''healthy''"
    by code_simp
  ultimately have "decode_struct health_names health_field (denote (TObj [(''status'', TStr ''healthy'')])) \<lparr>hr_Status = []\<rparr>
      = Some \<lparr>hr_Status = ''healthy''\<rparr>"
    by (simp only: denote.simps list.map map_prod_simp id_apply split)
  moreover have "rs_Status api_health = 200" "object_body (rs_Body api_health) (denote (TObj [(''status'', TStr ''healthy'')]))"
    using writeJSON_object [OF ok, of 200] unfolding api_health_def by (simp_all add: maxNestingDepth_def)
  ultimately have "rs_Status api_health = 200"
      "Decoder_Decode health_names health_field \<lparr>hr_Status = []\<rparr> (rs_Body api_health) AtEOF = Inr \<lparr>hr_Status = ''healthy''\<rparr>"
    using object_body_readers(2) [of "rs_Body api_health" _ health_names health_field] by simp_all
  moreover have "run_handler api (service_queue ce) ep_health r s = Some (s, api_health)" for r
    by (simp add: run_handler_def)
  ultimately show ?thesis
    by (simp add: checkHealth_def client_Get_def network_reply [OF client_routes(1)] body_end_def)
qed

lemma ToValidUTF8_Nil_iff [simp]: "ToValidUTF8 s = [] \<longleftrightarrow> s = []"
  by (cases s) (auto simp: EncodeRune_def Let_def)

lemma apiErr_object:
  assumes "object_body b (JObj [(''error'', JStr (escape msg))])" "msg \<noteq> []"
  shows "apiErr b = ToValidUTF8 msg"
proof -
  have "decode_struct error_names error_field (JObj [(''error'', JStr (escape msg))]) \<lparr>er_Error = []\<rparr>
      = Some \<lparr>er_Error = ToValidUTF8 msg\<rparr>"
    by (simp add: decode_struct_def er.decode_member_field error_field_def)
  then show ?thesis
    using object_body_readers(1) [OF assms(1), of error_names error_field "\<lparr>er_Error = []\<rparr>"] assms(2)
    by (simp add: apiErr_def)
qed

lemma apiErr_service:
  "service_Error sys err \<noteq> [] \<Longrightarrow> apiErr (rs_Body (writeServiceError sys err)) = ToValidUTF8 (service_Error sys err)"
  by (rule apiErr_object) (simp_all add: writeServiceError_def writeError_body(2))

lemma getSnapshot_network:
  assumes "svc_inv mode t es s" "t \<le> ce_now ce" "Valid mode" "time_ok (ce_now ce)" "card (dom (live es)) < 2 ^ 63"
  shows "\<exists>s' sn. Service_Snapshot (ce_now ce) snapshotLimit s = Some (s', sn) \<and> svc_inv mode (ce_now ce) es s' \<and>
    s_closed s' = s_closed s \<and> getSnapshot (network api) (ce # ces, s) = ((ces, s'), Inr sn)"
proof -
  obtain s' sn where sn: "Service_Snapshot (ce_now ce) snapshotLimit s = Some (s', sn)" "svc_inv mode (ce_now ce) es s'"
      "s_closed s' = s_closed s" "sn_Mode sn = mode"
    using Service_Snapshot_ok [OF assms(1,2), of snapshotLimit] by blast
  note wj = writeJSON_snapshot [OF snapshot_is_sendable [OF assms(1-5) sn(1)], of 200]
  have "parse_limit defaultMessageLimit maxMessageLimit (''limit='' @ Itoa snapshotLimit) = Some snapshotLimit"
    by code_simp
  then have "run_handler api (service_queue ce) ep_messages
      \<lparr>rq_Method = ''GET'', rq_Path = ''/messages'', rq_RawQuery = ''limit='' @ Itoa snapshotLimit, rq_Body = [], rq_BodyBroken = False\<rparr> s
      = Some (s', writeJSON 200 (snapshot_json sn))"
    using sn(1) by (simp add: run_handler_def api_messages_def service_queue_def)
  then have "getSnapshot (network api) (ce # ces, s) = ((ces, s'), Inr sn)"
    using wj sn(4) assms(3)
    by (simp add: getSnapshot_def client_Get_def network_reply [OF client_routes(2)] body_end_def)
  then show ?thesis
    using sn by blast
qed

lemma client_dequeue_network:
  assumes "svc_inv mode t es s" "t \<le> ce_now ce" "clean_env (ce_append ce)" "\<And>err. service_Error (ae_sys api) err \<noteq> []"
  shows "\<exists>s' res. Dequeue (ce_now ce) (ce_append ce) s = Some (s', res) \<and>
    client_dequeue (network api) (ce # ces, s) = ((ces, s'),
      case res of
        Inl err \<Rightarrow> Inl (DequeueStatus (if err = ServiceClosed then 503 else 500) (ToValidUTF8 (service_Error (ae_sys api) err)))
      | Inr d \<Rightarrow> Inr d)"
proof -
  obtain s' res es' resp where d: "Dequeue (ce_now ce) (ce_append ce) s = Some (s', res)"
      "api_dequeue api (service_queue ce) s = Some (s', resp)"
      "case res of
         Inl err \<Rightarrow> resp = writeServiceError (ae_sys api) err \<and> es' = es \<and> w_disk (s_wal s') = w_disk (s_wal s)
       | Inr d \<Rightarrow> popped mode (ce_now ce) (live es) d (live es') \<and>
           (case d of
              None \<Rightarrow> resp = \<lparr>rs_Status = 204, rs_Header = [], rs_Body = []\<rparr>
            | Some m \<Rightarrow> rs_Status resp = 200 \<and>
                unmarshal_struct message_names message_field zero_message (rs_Body resp) = Inr m)"
    using dequeue_response [OF assms(1-3), of api] by blast
  have "client_dequeue (network api) (ce # ces, s) = ((ces, s'),
      case res of
        Inl err \<Rightarrow> Inl (DequeueStatus (if err = ServiceClosed then 503 else 500) (ToValidUTF8 (service_Error (ae_sys api) err)))
      | Inr d \<Rightarrow> Inr d)"
    using d(2,3) apiErr_service [OF assms(4)]
    by (auto simp: client_dequeue_def client_Post_def network_reply [OF client_routes(4)] run_handler_def
        error_bodies(3) split: sum.splits option.splits)
  then show ?thesis
    using d(1) by blast
qed

lemma client_enqueue_network:
  assumes "svc_inv mode t es s" "ok_random (ce_rand ce)" "clean_env (ce_append ce)" "s_seq s \<noteq> - 1"
    and "valid_utf8 (req_Payload req)" "int64_range (req_Priority req)" "int64_range (req_DelaySeconds req)"
    and "length (encode (request_json req)) \<le> maxEnqueueBodyBytes" "Validate req = None"
    and "\<And>err. service_Error (ae_sys api) err \<noteq> []"
  shows "\<exists>s' res es'. Enqueue (ce_rand ce) (ce_now ce) (ce_append ce) req s = Some (s', res) \<and> svc_inv mode t es' s' \<and>
    (case res of Inl err \<Rightarrow> es' = es | Inr m \<Rightarrow> live es' = enqueued_messages (live es) m) \<and>
    client_enqueue (network api) req (ce # ces, s) = ((ces, s'),
      case res of
        Inl err \<Rightarrow> Inl (EnqueueStatus (if err = ServiceClosed then 503 else 500) (ToValidUTF8 (service_Error (ae_sys api) err)))
      | Inr m \<Rightarrow> Inr m)"
proof -
  let ?r = "\<lparr>rq_Method = ''POST'', rq_Path = ''/enqueue'', rq_RawQuery = [], rq_Body = encode (request_json req), rq_BodyBroken = False\<rparr>"
  have dec: "Decoder_Decode request_names request_field zero_request
      (take maxEnqueueBodyBytes (rq_Body ?r)) (limited_end maxEnqueueBodyBytes ?r) = Inr req"
    using assms(5-8) by (intro encoded_request_decodes) simp_all
  obtain s' res es' resp where e: "Enqueue (ce_rand ce) (ce_now ce) (ce_append ce) req s = Some (s', res)" "svc_inv mode t es' s'"
      "api_enqueue api (service_queue ce) ?r s = Some (s', resp)"
      "case res of
         Inl err \<Rightarrow> resp = writeServiceError (ae_sys api) err \<and> es' = es \<and> s_seq s' = s_seq s \<and>
           w_disk (s_wal s') = w_disk (s_wal s)
       | Inr m \<Rightarrow> m_Seq m = s_seq s + 1 \<and> m_EnqueuedAt m = ce_now ce \<and> live es' = enqueued_messages (live es) m \<and>
           rs_Status resp = 201 \<and> unmarshal_struct message_names message_field zero_message (rs_Body resp) = Inr m"
    using enqueue_response [OF assms(1-4) decoded_request_ok [OF dec] assms(9) dec, of api] by blast
  have "client_enqueue (network api) req (ce # ces, s) = ((ces, s'),
      case res of
        Inl err \<Rightarrow> Inl (EnqueueStatus (if err = ServiceClosed then 503 else 500) (ToValidUTF8 (service_Error (ae_sys api) err)))
      | Inr m \<Rightarrow> Inr m)"
    using e(3,4) apiErr_service [OF assms(10)]
    by (auto simp: client_enqueue_def client_Post_def network_reply [OF client_routes(3)] run_handler_def
        error_bodies(3) split: sum.splits)
  moreover have "case res of Inl err \<Rightarrow> es' = es | Inr m \<Rightarrow> live es' = enqueued_messages (live es) m"
    using e(4) by (simp split: sum.splits)
  ultimately show ?thesis
    using e(1,2) by blast
qed

text \<open>
  C34: The client sees exactly what the service did.  Over a connection to a reachable service the
  health check passes; the snapshot the client decodes is the one the service made with the
  client's limit; a dequeue call gives the message, or the absence of one, that the service's
  \<^verbatim>\<open>Dequeue\<close> returned, and an enqueue call of a valid request within the body limit gives the message
  that \<^verbatim>\<open>Enqueue\<close> stored; and when the service fails, the client's error carries the status 503 for
  a closed service and 500 otherwise, with the server's own text as the detail.
\<close>

theorem client_mirrors_service:
  assumes "service_reach mode path t s" and "good_call t ce" and "s_seq s \<noteq> - 1"
    and "time_ok (ce_now ce)" and "card (dom (q_messages (s_queue s))) < 2 ^ 63"
    and "\<And>err. service_Error (ae_sys api) err \<noteq> []"
    and "valid_utf8 (req_Payload req)" and "int64_range (req_Priority req)" and "int64_range (req_DelaySeconds req)"
    and "length (encode (request_json req)) \<le> maxEnqueueBodyBytes" and "Validate req = None"
  shows "checkHealth (network api) base (ce # ces, s) = ((ces, s), None) \<and>
    (\<exists>s' sn. Service_Snapshot (ce_now ce) snapshotLimit s = Some (s', sn) \<and>
       getSnapshot (network api) (ce # ces, s) = ((ces, s'), Inr sn)) \<and>
    (\<exists>s' res. Dequeue (ce_now ce) (ce_append ce) s = Some (s', res) \<and>
       client_dequeue (network api) (ce # ces, s) = ((ces, s'),
         case res of
           Inl err \<Rightarrow> Inl (DequeueStatus (if err = ServiceClosed then 503 else 500) (ToValidUTF8 (service_Error (ae_sys api) err)))
         | Inr d \<Rightarrow> Inr d)) \<and>
    (\<exists>s' res. Enqueue (ce_rand ce) (ce_now ce) (ce_append ce) req s = Some (s', res) \<and>
       client_enqueue (network api) req (ce # ces, s) = ((ces, s'),
         case res of
           Inl err \<Rightarrow> Inl (EnqueueStatus (if err = ServiceClosed then 503 else 500) (ToValidUTF8 (service_Error (ae_sys api) err)))
         | Inr m \<Rightarrow> Inr m))"
proof (intro conjI)
  have env: "t \<le> ce_now ce" "ok_random (ce_rand ce)" "clean_env (ce_append ce)"
    using assms(2) by (simp_all add: good_call_def)
  obtain es where inv: "svc_inv mode t es s"
    using service_reach_inv [OF assms(1)] by blast
  then have "card (dom (live es)) < 2 ^ 63"
    using assms(5) by (simp add: svc_inv_def)
  then show "\<exists>s' sn. Service_Snapshot (ce_now ce) snapshotLimit s = Some (s', sn) \<and>
       getSnapshot (network api) (ce # ces, s) = ((ces, s'), Inr sn)"
    using getSnapshot_network [OF inv env(1) reach_mode [OF assms(1)] assms(4), of api ces] by blast
  show "\<exists>s' res. Dequeue (ce_now ce) (ce_append ce) s = Some (s', res) \<and>
       client_dequeue (network api) (ce # ces, s) = ((ces, s'),
         case res of
           Inl err \<Rightarrow> Inl (DequeueStatus (if err = ServiceClosed then 503 else 500) (ToValidUTF8 (service_Error (ae_sys api) err)))
         | Inr d \<Rightarrow> Inr d)"
    using client_dequeue_network [OF inv env(1,3) assms(6), of ces] by blast
  show "\<exists>s' res. Enqueue (ce_rand ce) (ce_now ce) (ce_append ce) req s = Some (s', res) \<and>
       client_enqueue (network api) req (ce # ces, s) = ((ces, s'),
         case res of
           Inl err \<Rightarrow> Inl (EnqueueStatus (if err = ServiceClosed then 503 else 500) (ToValidUTF8 (service_Error (ae_sys api) err)))
         | Inr m \<Rightarrow> Inr m)"
    using client_enqueue_network [OF inv env(2,3) assms(3,7-11) assms(6), of ces] by blast
qed (rule checkHealth_network)

lemma ex_api_texts: "service_Error (ae_sys ex_api) err \<noteq> []"
proof (cases err)
  case (InvalidRequest e)
  then show ?thesis
    by (cases e) (simp_all add: service_Error_def request_Error_def)
qed (simp_all add: service_Error_def ex_api_def)

theorem client_mirrors_service_witness:
  "checkHealth (network ex_api) ''http://127.0.0.1:8080'' ([ex_call], ex_service) = (([], ex_service), None) \<and>
    (\<exists>s' m. client_enqueue (network ex_api) ex_request ([ex_call], ex_service) = (([], s'), Inr m) \<and> m_Seq m = 1)"
proof -
  have ok: "time_ok (ce_now ex_call)" "valid_utf8 (req_Payload ex_request)" "int64_range (req_Priority ex_request)"
      "int64_range (req_DelaySeconds ex_request)" "length (encode (request_json ex_request)) \<le> maxEnqueueBodyBytes"
    by code_simp+
  have "card (dom (q_messages (s_queue ex_service))) < 2 ^ 63"
    by simp
  from client_mirrors_service [OF ex_service_reach(1) ex_good_call ex_service_seq ok(1) this ex_api_texts ok(2-5) ex_request_ok(4),
      of "''http://127.0.0.1:8080''" "[]"]
  show ?thesis
    using ex_enqueue by (auto simp: ex_call_def split: option.splits sum.splits)
qed

section \<open>The prediction\<close>

text \<open>The labels of those of some messages that are jobs of this run.\<close>

definition job_labels :: "worker \<Rightarrow> Message list \<Rightarrow> string list" where
  "job_labels w ms = List.map_filter (\<lambda>m. map_option (\<lambda>p. tr_Label (wk_store w ! p)) (map_of (wk_mine w) (m_ID m))) ms"

lemma predictLabels_jobs:
  assumes "simulateDrain sn = map simItem_of ms"
  shows "predictLabels sn w = job_labels w ms"
proof -
  have "fold (\<lambda>it out. case map_of (wk_mine w) (si_id it) of None \<Rightarrow> out | Some p \<Rightarrow> out @ [tr_Label (wk_store w ! p)])
      (map simItem_of ms) out = out @ job_labels w ms" for out
    by (induction ms arbitrary: out) (simp_all add: job_labels_def map_filter_simps simItem_of_def split: option.split)
  from this [of "[]"] show ?thesis
    by (simp add: predictLabels_def assms)
qed

text \<open>
  C35: The prediction is a run of the queue itself.  Take a reachable open service with at most as
  many messages as the snapshot limit, and the snapshot a client gets of it.  The simulation ends,
  and what it lists is, message by message, the run of a worker that polls the service from the
  time of the snapshot on: at once again a poll interval after every delivery, and at the moment
  the next message becomes visible when there is none.  Polling the service at the times of that
  run returns exactly the predicted messages, all of them, each once, and leaves it empty; and the
  predicted labels are those of the run's own jobs in that order.
\<close>

theorem prediction_replays_the_queue:
  assumes "service_reach mode path t s" and "t \<le> now" and "\<not> s_closed s"
    and "int (card (dom (q_messages (s_queue s)))) \<le> snapshotLimit"
    and "list_all working_env envs" and "length envs = card (dom (q_messages (s_queue s)))"
  shows "\<exists>s1 sn dl s2. Service_Snapshot now snapshotLimit s = Some (s1, sn) \<and>
    drains mode now (q_messages (s_queue s)) dl \<and>
    simulateDrain sn = map (simItem_of \<circ> snd) dl \<and>
    predictLabels sn w = job_labels w (map snd dl) \<and>
    distinct (map snd dl) \<and> set (map snd dl) = ran (q_messages (s_queue s)) \<and>
    poll_service (zip (map fst dl) envs) s1 = Some (s2, map (Some \<circ> snd) dl) \<and>
    q_messages (s_queue s2) = Map.empty"
proof -
  obtain es where inv: "svc_inv mode t es s"
    using service_reach_inv [OF assms(1)] by blast
  then have es: "q_messages (s_queue s) = live es"
    by (simp add: svc_inv_def)
  obtain s1 sn where sn: "Service_Snapshot now snapshotLimit s = Some (s1, sn)" "svc_inv mode now es s1" "s_closed s1 = s_closed s"
    using Service_Snapshot_ok [OF inv assms(2), of snapshotLimit] by blast
  obtain dl where dl: "drains mode now (live es) dl" "simulateDrain sn = map (simItem_of \<circ> snd) dl"
    using simulateDrain_drains [OF inv assms(2) _ sn(1)] assms(4) unfolding es by blast
  have all: "card (dom (live es)) = length dl" "distinct (map snd dl)" "set (map snd dl) = ran (live es)"
    using drains_all [OF dl(1)] live_key by blast+
  have "length envs = length dl"
    using assms(6) all(1) es by simp
  then obtain s2 where "poll_service (zip (map fst dl) envs) s1 = Some (s2, map (Some \<circ> snd) dl)"
      "q_messages (s_queue s2) = Map.empty"
    using drains_service [OF dl(1) sn(2) order_refl refl _ assms(5)] sn(3) assms(3) by blast
  moreover have "predictLabels sn w = job_labels w (map snd dl)"
    by (rule predictLabels_jobs) (simp add: dl(2))
  ultimately show ?thesis
    using sn(1) dl all(2,3) unfolding es by blast
qed

lemma distinct_singleton: "distinct xs \<Longrightarrow> set xs = {x} \<Longrightarrow> xs = [x]"
  by (cases xs; cases "tl xs") auto

lemma ex_working: "working_env ex_env" "\<not> s_closed ex_service1" "m_AvailableAt ex_stored \<le> ex_time + 2000000000"
  by code_simp+

theorem prediction_replays_the_queue_witness:
  "\<exists>s1 sn s2 x. Service_Snapshot ex_time snapshotLimit ex_service1 = Some (s1, sn) \<and>
    simulateDrain sn = [simItem_of ex_stored] \<and> poll_service [(x, ex_env)] s1 = Some (s2, [Some ex_stored])"
proof -
  have "int (card (dom (q_messages (s_queue ex_service1)))) \<le> snapshotLimit" "list_all working_env [ex_env]"
      "length [ex_env] = card (dom (q_messages (s_queue ex_service1)))"
    using ex_working(1) by (simp_all add: ex_service1_reach(2) snapshotLimit_def)
  from prediction_replays_the_queue [OF ex_service1_reach(1) order_refl ex_working(2) this, of ex_time "empty_worker []"]
  obtain s1 sn dl s2 where dl: "Service_Snapshot ex_time snapshotLimit ex_service1 = Some (s1, sn)"
      "simulateDrain sn = map (simItem_of \<circ> snd) dl" "distinct (map snd dl)" "set (map snd dl) = {ex_stored}"
      "poll_service (zip (map fst dl) [ex_env]) s1 = Some (s2, map (Some \<circ> snd) dl)"
    by (auto simp: ex_service1_reach(2))
  then have "map snd dl = [ex_stored]"
    by (intro distinct_singleton)
  then obtain x where "dl = [(x, ex_stored)]"
    by (cases dl) auto
  then show ?thesis
    using dl by auto
qed

text \<open>
  C36: Where nothing is delayed the prediction cannot be wrong.  If every stored message is visible
  at the time of the snapshot, then polling the service later at any times at all, as often as
  there are messages, returns exactly the predicted messages in the predicted order.
\<close>

theorem prediction_exact_without_delays:
  assumes "service_reach mode path t s" and "t \<le> now" and "\<not> s_closed s"
    and "int (card (dom (q_messages (s_queue s)))) \<le> snapshotLimit"
    and "list_all working_env envs" and "length envs = card (dom (q_messages (s_queue s)))"
    and "\<And>i m. q_messages (s_queue s) i = Some m \<Longrightarrow> m_AvailableAt m \<le> now"
    and "length ts = length envs" and "sorted (now # ts)"
  shows "\<exists>s1 sn s2 ms. Service_Snapshot now snapshotLimit s = Some (s1, sn) \<and>
    simulateDrain sn = map simItem_of ms \<and> poll_service (zip ts envs) s1 = Some (s2, map Some ms) \<and>
    q_messages (s_queue s2) = Map.empty"
proof -
  obtain es where inv: "svc_inv mode t es s"
    using service_reach_inv [OF assms(1)] by blast
  then have es: "q_messages (s_queue s) = live es"
    by (simp add: svc_inv_def)
  obtain s1 sn where sn: "Service_Snapshot now snapshotLimit s = Some (s1, sn)" "svc_inv mode now es s1" "s_closed s1 = s_closed s"
    using Service_Snapshot_ok [OF inv assms(2), of snapshotLimit] by blast
  obtain dl where dl: "drains mode now (live es) dl" "simulateDrain sn = map (simItem_of \<circ> snd) dl"
    using simulateDrain_drains [OF inv assms(2) _ sn(1)] assms(4) unfolding es by blast
  have "card (dom (live es)) = length dl"
    using drains_all [OF dl(1)] live_key by blast
  then have "length envs = length dl" "length ts = length dl"
    using assms(6,8) es by simp_all
  moreover have "sorted ts" "\<forall>x \<in> set ts. now \<le> x \<and> now \<le> x"
    using assms(9) by simp_all
  ultimately obtain s2 where "poll_service (zip ts envs) s1 = Some (s2, map (Some \<circ> snd) dl)"
      "q_messages (s_queue s2) = Map.empty"
    using visible_any_times [OF dl(1) _ sn(2) refl _ assms(5)] assms(7) sn(3) assms(3) unfolding es by blast
  then show ?thesis
    using sn(1) dl(2) by (intro exI [of _ s1] exI [of _ sn] exI [of _ s2] exI [of _ "map snd dl"]) simp
qed

theorem prediction_exact_without_delays_witness:
  "\<exists>s1 sn s2 ms. Service_Snapshot (ex_time + 2000000000) snapshotLimit ex_service1 = Some (s1, sn) \<and>
    simulateDrain sn = map simItem_of ms \<and>
    poll_service [(ex_time + 2000000007, ex_env)] s1 = Some (s2, map Some ms) \<and> q_messages (s_queue s2) = Map.empty"
proof -
  have hyp: "int (card (dom (q_messages (s_queue ex_service1)))) \<le> snapshotLimit" "list_all working_env [ex_env]"
      "length [ex_env] = card (dom (q_messages (s_queue ex_service1)))"
    using ex_working(1) by (simp_all add: ex_service1_reach(2) snapshotLimit_def)
  have avail: "m_AvailableAt m \<le> ex_time + 2000000000" if "q_messages (s_queue ex_service1) i = Some m" for i m
    using that ex_working(3) by (auto simp: ex_service1_reach(2) split: if_splits)
  have ts: "length [ex_time + 2000000007] = length [ex_env]" "sorted [ex_time + 2000000000, ex_time + 2000000007]"
    by simp_all
  have "ex_time \<le> ex_time + 2000000000"
    by simp
  from prediction_exact_without_delays [OF ex_service1_reach(1) this ex_working(2) hyp avail ts] show ?thesis
    by (simp del: of_nat_le_iff)
qed

text \<open>
  With delays, the prediction need not be what a worker on a fixed tick sees: where no message is
  visible the simulation moves its clock to the moment the first one matures, while the worker comes
  back at the next tick and may find a second, more important message visible too.
\<close>

fun pop_at :: "go_time list \<Rightarrow> FrankensteinQueue \<Rightarrow> Message option list option" where
  "pop_at [] q = Some []"
| "pop_at (t # ts) q =
    (case Pop q t of None \<Rightarrow> None | Some (d, q') \<Rightarrow> map_option (\<lambda>ds. d # ds) (pop_at ts q'))"

definition delayed_pair :: "FrankensteinQueue option" where
  "delayed_pair =
    (case NewFrankensteinQueue ModeFIFO of
       Inl _ \<Rightarrow> None
     | Inr q \<Rightarrow> do {
         q1 \<leftarrow> Push q (ex_msg ''a'' 1 1 200000000);
         Push q1 (ex_msg ''b'' 2 9 400000000)
       })"

definition view_snapshot :: "View \<Rightarrow> QueueSnapshot" where
  "view_snapshot v = zero_snapshot\<lparr>sn_Mode := ModeFIFO, sn_Ready := vw_Ready v, sn_Delayed := vw_Delayed v\<rparr>"

lemma tick_polling_differs:
  "case delayed_pair of
     None \<Rightarrow> False
   | Some q \<Rightarrow>
       map_option (\<lambda>(v, q'). map si_id (simulateDrain (view_snapshot v))) (Snapshot q 0 0) = Some [''a'', ''b''] \<and>
       map_option (map (map_option m_ID)) (pop_at [0, pollInterval, 2 * pollInterval] q) =
         Some [None, Some ''b'', Some ''a'']"
  by code_simp

section \<open>The verdict\<close>

lemma summary_fold:
  "fold (\<lambda>i (rows, allOK). case f i of (row, ok) \<Rightarrow> (rows @ [row], if ok then allOK else False)) xs (rows, b) =
    (rows @ map (fst \<circ> f) xs, b \<and> (\<forall>i \<in> set xs. snd (f i)))"
  by (induction xs arbitrary: rows b) (auto split: prod.splits)

lemma orderMatches_labels: "orderMatches expected actual \<longleftrightarrow> map tr_Label actual = expected"
proof -
  have "map tr_Label actual = expected \<longleftrightarrow>
      length actual = length expected \<and> (\<forall>i < length expected. tr_Label (actual ! i) = expected ! i)"
    by (subst list_eq_iff_nth_eq) auto
  moreover have "orderMatches expected actual \<longleftrightarrow>
      length actual = length expected \<and> (\<forall>i < length expected. tr_Label (actual ! i) = expected ! i)"
    by (auto simp: orderMatches_def list_all_iff)
  ultimately show ?thesis
    by simp
qed

lemma summary_flag: "snd (summary_rows expected actual script) \<longleftrightarrow> orderMatches expected actual"
proof -
  have row: "snd (summary_row expected actual script i) \<longleftrightarrow>
      i < length expected \<and> i < length actual \<and> tr_Label (actual ! i) = expected ! i" for i
    by (simp add: summary_row_def Let_def)
  show ?thesis
    by (auto simp: summary_rows_def summary_fold row orderMatches_def list_all_iff)
qed

definition verdict_text :: "bool \<Rightarrow> bool \<Rightarrow> bytes" where
  "verdict_text col pass =
    (if pass then green col ''  Result: PASS  the engine drained exactly as its own rules predict.''
     else yellow col ''  Result: MISMATCH  the engine disagreed with its own rules - see the table.'') @ nl @ nl"

lemma printSummary_verdict:
  "\<exists>table. printSummary col expected actual script = table @ verdict_text col (orderMatches expected actual)"
proof -
  obtain rows where "summary_rows expected actual script = (rows, orderMatches expected actual)"
    using summary_flag [of expected actual script] by (cases "summary_rows expected actual script") simp
  then show ?thesis
    by (simp add: printSummary_def verdict_text_def Let_def)
qed

lemma other_errors:
  "getSnapshot c s = (s', Inl err) \<Longrightarrow> err \<noteq> OrderMismatch"
  "client_dequeue c s = (s', Inl err) \<Longrightarrow> err \<noteq> OrderMismatch"
  by (auto simp: getSnapshot_def client_dequeue_def split: prod.splits sum.splits if_splits)

lemma enqueue_all_error: "enqueue_all col c ts w s = (w', s', Some err) \<Longrightarrow> err \<noteq> OrderMismatch"
  by (induction ts arbitrary: w s) (auto simp: Let_def split: prod.splits sum.splits)

lemma pollOnce_error: "pollOnce env col c start now w s = (w', s', Some err) \<Longrightarrow> err \<noteq> OrderMismatch"
  by (auto simp: pollOnce_def Let_def dest: other_errors(2) split: prod.splits sum.splits option.splits)

lemma worker_error:
  "worker_iterations env col c start deadline tks doneAt w s = Some (w', s', Some err) \<Longrightarrow> err \<noteq> OrderMismatch"
  by (induction tks arbitrary: doneAt w s)
    (auto simp: Let_def dest: pollOnce_error split: prod.splits option.splits if_splits)

text \<open>
  C37: The exit status is the printed verdict.  Whatever server the client talks to, a run that
  returns no error, so that the process exits with 0, ends its output with the PASS line, and a run
  that fails because the order did not match ends it with the MISMATCH line: the table's own
  row-by-row comparison and \<^verbatim>\<open>orderMatches\<close> always agree, and both mean that the labels of the
  processed jobs are the predicted list.
\<close>

theorem verdict_is_exit_status:
  "(snd (summary_rows expected actual script) \<longleftrightarrow> map tr_Label actual = expected) \<and>
   (case client_run env flags connect clk s of
      None \<Rightarrow> client_main env flags connect clk s = None
    | Some (s', out, None) \<Rightarrow> client_main env flags connect clk s = Some 0 \<and> (\<exists>col pre. out = pre @ verdict_text col True)
    | Some (s', out, Some err) \<Rightarrow> client_main env flags connect clk s = Some 1 \<and>
        (if err = OrderMismatch then \<exists>col pre. out = pre @ verdict_text col False else True))"
proof (rule conjI)
  show "snd (summary_rows expected actual script) \<longleftrightarrow> map tr_Label actual = expected"
    by (simp add: summary_flag orderMatches_labels)
  have verdict: "orderMatches e a = b \<Longrightarrow> \<exists>col pre. p @ nl @ printSummary c e a sc = pre @ verdict_text col b" for p c e a sc b
  proof -
    assume "orderMatches e a = b"
    then obtain tab where "printSummary c e a sc = tab @ verdict_text c b"
      using printSummary_verdict [of c e a sc] by blast
    then have "p @ nl @ printSummary c e a sc = (p @ nl @ tab) @ verdict_text c b"
      by simp
    then show ?thesis
      by blast
  qed
  have run: "(if err = None then \<exists>col pre. out = pre @ verdict_text col True
      else if err = Some OrderMismatch then \<exists>col pre. out = pre @ verdict_text col False else True)"
    if h: "client_run env flags connect clk s = Some (s', out, err)" for s' out err
    using h
    by (auto simp: client_run_def workerLoop_def Let_def dest: other_errors(1) enqueue_all_error worker_error intro!: verdict
        split: sum.splits prod.splits option.splits if_splits)
  show "case client_run env flags connect clk s of
      None \<Rightarrow> client_main env flags connect clk s = None
    | Some (s', out, None) \<Rightarrow> client_main env flags connect clk s = Some 0 \<and> (\<exists>col pre. out = pre @ verdict_text col True)
    | Some (s', out, Some err) \<Rightarrow> client_main env flags connect clk s = Some 1 \<and>
        (if err = OrderMismatch then \<exists>col pre. out = pre @ verdict_text col False else True)"
    using run by (auto simp: client_main_def split: option.splits)
qed

section \<open>The worker loop\<close>

lemma worker_iterations_end:
  assumes "\<exists>tk \<in> set tks. deadline < tick_deadline tk"
  shows "\<exists>w' s' r. worker_iterations env col c start deadline tks doneAt w s = Some (w', s', r)"
  using assms
proof (induction tks arbitrary: doneAt w s)
  case (Cons tk tks)
  show ?case
  proof (cases "deadline < tick_deadline tk")
    case True
    then show ?thesis
      by (auto simp: Let_def split: prod.splits option.splits)
  next
    case False
    then have "\<exists>tk \<in> set tks. deadline < tick_deadline tk"
      using Cons.prems by simp
    note IH = Cons.IH [OF this]
    show ?thesis
      using False IH by (auto simp: Let_def split: prod.splits option.splits)
  qed
qed simp

lemma worker_success:
  "worker_iterations env col c start deadline tks doneAt w s = Some (w', s', None) \<Longrightarrow>
    length (wk_actual w') = length (wk_mine w')"
  by (induction tks arbitrary: doneAt w s) (auto simp: Let_def split: prod.splits option.splits if_splits)

text \<open>
  What polling does to the books: the jobs of the run stay, the processed ones are jobs of the run,
  and a job is pending until it is processed.
\<close>

definition jobs_step :: "worker \<Rightarrow> worker \<Rightarrow> bool" where
  "jobs_step w w' \<longleftrightarrow> wk_mine w' = wk_mine w \<and>
    (\<exists>ps. wk_actual w' = wk_actual w @ ps \<and> set ps \<subseteq> snd ` set (wk_mine w) \<and>
       set (wk_pending w') = set (wk_pending w) - set ps)"

lemma jobs_step_refl: "jobs_step w w"
  by (auto simp: jobs_step_def)

lemma jobs_step_trans: "jobs_step w w' \<Longrightarrow> jobs_step w' w'' \<Longrightarrow> jobs_step w w''"
proof -
  assume "jobs_step w w'" "jobs_step w' w''"
  then obtain ps ps' where mine: "wk_mine w' = wk_mine w" "wk_mine w'' = wk_mine w"
    and ps: "wk_actual w' = wk_actual w @ ps" "set ps \<subseteq> snd ` set (wk_mine w)"
      "set (wk_pending w') = set (wk_pending w) - set ps"
    and ps': "wk_actual w'' = wk_actual w' @ ps'" "set ps' \<subseteq> snd ` set (wk_mine w)"
      "set (wk_pending w'') = set (wk_pending w') - set ps'"
    by (auto simp: jobs_step_def)
  then show "jobs_step w w''"
    unfolding jobs_step_def by (intro conjI exI [of _ "ps @ ps'"]) auto
qed

lemma jobs_step_print [simp]: "jobs_step w (print_line line w') = jobs_step w w'"
  by (simp add: jobs_step_def print_line_def)

lemma jobs_step_processed:
  assumes "map_of (wk_mine w) i = Some p"
  shows "jobs_step w (w\<lparr>wk_store := st, wk_pending := removeTracked (wk_pending w) p, wk_actual := wk_actual w @ [p]\<rparr>)"
  using map_of_SomeD [OF assms] by (force simp: jobs_step_def removeTracked_def)

lemma pollOnce_jobs: "pollOnce env col c start now w s = (w', s', e) \<Longrightarrow> jobs_step w w'"
  by (auto simp: pollOnce_def Let_def jobs_step_refl intro: jobs_step_processed
      split: prod.splits sum.splits option.splits)

lemma worker_iterations_jobs:
  "worker_iterations env col c start deadline tks doneAt w s = Some (w', s', r) \<Longrightarrow> jobs_step w w'"
proof (induction tks arbitrary: doneAt w s)
  case (Cons tk tks)
  obtain w1 s1 e where p: "pollOnce env col c start (tick_poll tk) w s = (w1, s1, e)"
    by (cases "pollOnce env col c start (tick_poll tk) w s") auto
  have "w1 = w' \<or> (\<exists>d. worker_iterations env col c start deadline tks d w1 s1 = Some (w', s', r))"
    using Cons.prems p by (auto simp: Let_def split: option.splits if_splits)
  then show ?case
    using pollOnce_jobs [OF p] Cons.IH jobs_step_trans by blast
qed simp

lemma distinct_iff_all:
  assumes "set xs \<subseteq> set ys" "length xs = length ys" "distinct ys"
  shows "distinct xs \<longleftrightarrow> set xs = set ys"
  using assms by (metis card_distinct card_subset_eq distinct_card finite_set)

text \<open>After enqueueing, every job of the run has a place of its own in the books.\<close>

lemma update_values:
  assumes "distinct (map snd al)" "p \<notin> snd ` set al"
  shows "distinct (map snd (AList.update k p al))" "snd ` set (AList.update k p al) \<subseteq> insert p (snd ` set al)"
  using assms by (induction al) (auto simp: image_iff)

lemma enqueue_all_jobs:
  assumes "enqueue_all col c ts w s = (w', s', e)" "distinct (map snd (wk_mine w))"
    "\<And>p. p \<in> snd ` set (wk_mine w) \<Longrightarrow> p < length (wk_store w)"
  shows "distinct (map snd (wk_mine w')) \<and> wk_actual w' = wk_actual w"
  using assms
proof (induction ts arbitrary: w s)
  case (Cons t ts)
  show ?case
  proof (cases "client_enqueue c \<lparr>req_Payload = ta_Payload t, req_Priority = ta_Priority t, req_DelaySeconds = ta_DelaySeconds t\<rparr> s")
    case (Pair s1 res)
    show ?thesis
    proof (cases res)
      case (Inl err)
      then show ?thesis
        using Cons.prems Pair by auto
    next
      case (Inr msg)
      let ?p = "length (wk_store w)"
      have fresh: "?p \<notin> snd ` set (wk_mine w)"
        using Cons.prems(3) by blast
      note upd = update_values [OF Cons.prems(2) fresh, of "m_ID msg"]
      define w1 where "w1 = w\<lparr>wk_store := wk_store w @ [\<lparr>tr_task = t, tr_msg = msg\<rparr>],
        wk_mine := AList.update (m_ID msg) ?p (wk_mine w), wk_pending := wk_pending w @ [?p]\<rparr>"
      have "p < length (wk_store w1)" if "p \<in> snd ` set (wk_mine w1)" for p
      proof -
        have "p \<in> snd ` set (AList.update (m_ID msg) ?p (wk_mine w))"
          using that by (simp add: w1_def)
        then have "p \<in> insert ?p (snd ` set (wk_mine w))"
          using upd(2) by blast
        then show ?thesis
          using Cons.prems(3) [of p] less_SucI by (fastforce simp: w1_def)
      qed
      moreover have "distinct (map snd (wk_mine w1))"
        using upd(1) by (simp add: w1_def)
      moreover obtain line where "enqueue_all col c ts (print_line line w1) s1 = (w', s', e)"
        using Cons.prems(1) Pair Inr by (simp add: Let_def w1_def)
      ultimately have "distinct (map snd (wk_mine w')) \<and> wk_actual w' = wk_actual (print_line line w1)"
        using Cons.IH [of "print_line line w1" s1] by (simp add: print_line_def)
      then show ?thesis
        by (simp add: print_line_def w1_def)
    qed
  qed
qed simp

lemma checkout_deadline:
  "signed_take_bit 63 (delay_duration (max_delay checkout_script) + 30 * nanos_per_sec) = 38 * nanos_per_sec"
  by code_simp

text \<open>
  C38: The worker loop ends and keeps its books.  Whatever the server answers, if the readings of the
  clock at the deadline test come at least a poll interval apart from the time the deadline was
  set, then the loop over the checkout jobs returns within 78 iterations, about 39 seconds: it
  cannot hang on a slow backoff or a server that never delivers.  Started on the jobs that were
  enqueued, it counts only deliveries of jobs of the run, and a job stays pending exactly until it is
  delivered.  A return without an error means as many deliveries as jobs; they cover all jobs of the
  run exactly when the server delivered none of them twice, which the loop itself does not check.
\<close>

theorem worker_loop_ends:
  assumes "78 \<le> length tks" and "\<And>i. i < length tks \<Longrightarrow> t0 + int i * pollInterval \<le> tick_deadline (tks ! i)"
    and "enqueue_all col c checkout_script (empty_worker out) s0 = (w, s, None)"
  shows "\<exists>w' s' r. workerLoop env col c checkout_script t0 start tks w s = Some (w', s', r) \<and>
    wk_mine w' = wk_mine w \<and> set (wk_actual w') \<subseteq> snd ` set (wk_mine w) \<and>
    set (wk_pending w') = set (wk_pending w) - set (wk_actual w') \<and>
    (r = None \<longrightarrow> length (wk_actual w') = length (wk_mine w) \<and>
       (distinct (wk_actual w') \<longleftrightarrow> set (wk_actual w') = snd ` set (wk_mine w)))"
proof -
  have "t0 + 38 * nanos_per_sec < t0 + int 77 * pollInterval"
    by (simp add: pollInterval_def nanos_per_sec_def)
  also have "\<dots> \<le> tick_deadline (tks ! 77)"
    using assms(1) by (intro assms(2)) simp
  finally have "\<exists>tk \<in> set tks. t0 + 38 * nanos_per_sec < tick_deadline tk"
    using assms(1) by (intro bexI [of _ "tks ! 77"]) simp_all
  then obtain w' s' r where loop:
      "worker_iterations env col c start (t0 + 38 * nanos_per_sec) tks None w s = Some (w', s', r)"
    using worker_iterations_end [of tks _ env col c start None w s] by blast
  have w: "wk_actual w = []" "distinct (map snd (wk_mine w))"
    using enqueue_all_jobs [OF assms(3)] by (simp_all add: empty_worker_def)
  have jobs: "wk_mine w' = wk_mine w" "set (wk_actual w') \<subseteq> set (map snd (wk_mine w))"
    "set (wk_pending w') = set (wk_pending w) - set (wk_actual w')"
    using worker_iterations_jobs [OF loop] w(1) by (auto simp: jobs_step_def)
  have "length (wk_actual w') = length (map snd (wk_mine w))" if "r = None"
    using worker_success loop that jobs(1) by fastforce
  then show ?thesis
    using loop jobs distinct_iff_all [OF jobs(2) _ w(2)]
    by (simp add: workerLoop_def checkout_deadline)
qed

definition ex_tick :: "go_time \<Rightarrow> tick" where
  "ex_tick t = \<lparr>tick_poll = t, tick_done = t, tick_since = t, tick_deadline = t, tick_report = t\<rparr>"

text \<open>A server that accepts jobs under the IDs 1, 2, 3 and so on and never delivers one.\<close>

definition idle_server :: "nat http_client" where
  "idle_server = \<lparr>hc_prefix = [], hc_Do = (\<lambda>r n.
     if rq_Path r = ''/enqueue''
     then (n + 1, Inr \<lparr>cr_Status = 201, cr_Body = ''{\"id\":\"'' @ dec (n + 1) @ ''\"}'', cr_Broken = False\<rparr>)
     else (n, Inr \<lparr>cr_Status = 204, cr_Body = [], cr_Broken = False\<rparr>))\<rparr>"

definition ex_process :: process_env where
  "ex_process = \<lparr>pe_Getenv = (\<lambda>_. []), pe_stdout = Some True, pe_zone = (\<lambda>_. 0), pe_lower = id, pe_upper = id\<rparr>"

lemma ex_enqueued:
  "(case enqueue_all True idle_server checkout_script (empty_worker []) 0 of
      (w, s, e) \<Rightarrow> e = None \<and> map fst (wk_mine w) = [''1'', ''2'', ''3'', ''4'', ''5''] \<and> wk_pending w = [0, 1, 2, 3, 4])"
  by code_simp

theorem worker_loop_ends_witness:
  "\<exists>w s w' s' r. enqueue_all True idle_server checkout_script (empty_worker []) 0 = (w, s, None) \<and>
    workerLoop ex_process True idle_server checkout_script 0 0
      (map (\<lambda>i. ex_tick (int i * pollInterval)) [0..<78]) w s = Some (w', s', r) \<and>
    set (wk_pending w') = {0, 1, 2, 3, 4} - set (wk_actual w') \<and>
    (r = None \<longrightarrow> length (wk_actual w') = 5)"
proof -
  let ?tks = "map (\<lambda>i. ex_tick (int i * pollInterval)) [0..<78]"
  obtain w s where w: "enqueue_all True idle_server checkout_script (empty_worker []) 0 = (w, s, None)"
      "map fst (wk_mine w) = [''1'', ''2'', ''3'', ''4'', ''5'']" "wk_pending w = [0, 1, 2, 3, 4]"
    using ex_enqueued by auto
  have "78 \<le> length ?tks"
    by simp
  moreover have "0 + int i * pollInterval \<le> tick_deadline (?tks ! i)" if "i < length ?tks" for i
    using that by (simp add: ex_tick_def)
  ultimately obtain w' s' r where loop: "workerLoop ex_process True idle_server checkout_script 0 0 ?tks w s = Some (w', s', r)"
      "set (wk_pending w') = set (wk_pending w) - set (wk_actual w')"
      "r = None \<longrightarrow> length (wk_actual w') = length (wk_mine w)"
    using worker_loop_ends [of ?tks 0 True idle_server "[]" 0 w s ex_process 0] w(1) by blast
  moreover have "length (wk_mine w) = 5"
    using arg_cong [OF w(2), of length] by simp
  ultimately show ?thesis
    using w(1,3) by auto
qed

end
