(* ===== verification/Client_Run.thy ===== *)
theory Client_Run
  imports Client_Props
begin

text \<open>
  A whole run of the demonstration client against the server: the burst of jobs, the prediction
  and the worker loop, over a connection on which requests and responses arrive.
\<close>

section \<open>Calls that work\<close>

text \<open>
  What a call that works reads from outside: sixteen random bytes, a log that takes the record, and
  times within the years that RFC 3339 can write, also eight seconds on.
\<close>

definition working_call :: "call_env \<Rightarrow> bool" where
  "working_call ce \<longleftrightarrow>
    (case ce_rand ce of None \<Rightarrow> False | Some b \<Rightarrow> length b = 16) \<and> working_env (ce_append ce) \<and>
    (\<forall>d \<in> {0, 4, 8}. time_ok (ce_now ce + d * nanos_per_sec))"

definition job_request :: "task \<Rightarrow> EnqueueRequest" where
  "job_request t = \<lparr>req_Payload = ta_Payload t, req_Priority = ta_Priority t, req_DelaySeconds = ta_DelaySeconds t\<rparr>"

definition job_message :: "task \<Rightarrow> call_env \<Rightarrow> uint64 \<Rightarrow> Message" where
  "job_message t ce n = new_message (the (newUUID (ce_rand ce))) n (ce_now ce) (job_request t)"

lemma job_message_fields [simp]:
  "m_ID (job_message t ce n) = the (newUUID (ce_rand ce))" "m_Seq (job_message t ce n) = n"
  "m_Priority (job_message t ce n) = ta_Priority t"
  "m_AvailableAt (job_message t ce n) = ce_now ce + delay_duration (ta_DelaySeconds t)"
  by (simp_all add: job_message_def new_message_def job_request_def)

definition plain_job :: "task \<Rightarrow> bool" where
  "plain_job t \<longleftrightarrow>
    ta_DelaySeconds t \<in> {0, 4, 8} \<and> valid_utf8 (ta_Payload t) \<and> int64_range (ta_Priority t) \<and>
    length (encode (request_json (job_request t))) \<le> maxEnqueueBodyBytes \<and> Validate (job_request t) = None"

lemma checkout_jobs_plain: "list_all plain_job checkout_script"
  by code_simp

section \<open>The burst\<close>

lemma delay_small: "d \<in> {0, 4, 8} \<Longrightarrow> delay_duration d = d * nanos_per_sec"
  by (elim insertE) (simp_all add: delay_duration_def nanos_per_sec_def signed_take_bit_int_eq_self)

lemma working_callD:
  assumes "working_call ce"
  shows "\<exists>b. ce_rand ce = Some b \<and> length b = 16" "ok_random (ce_rand ce)" "working_env (ce_append ce)"
    "clean_env (ce_append ce)" "time_ok (ce_now ce)" "d \<in> {0, 4, 8} \<Longrightarrow> time_ok (ce_now ce + d * nanos_per_sec)"
  using assms by (auto simp: working_call_def ok_random_def working_env_def clean_env_def split: option.splits)

lemma client_enqueue_works:
  assumes inv: "svc_inv mode t es s" and ce: "working_call ce" and job: "plain_job j" and s: "s_seq s \<noteq> - 1" "\<not> s_closed s"
    and api: "\<And>err. service_Error (ae_sys api) err \<noteq> []"
  shows "\<exists>s' es'. client_enqueue (network api) (job_request j) (ce # ces, s) = ((ces, s'), Inr (job_message j ce (s_seq s + 1))) \<and>
    svc_inv mode t es' s' \<and> \<not> s_closed s' \<and> s_seq s' = s_seq s + 1 \<and>
    live es' = enqueued_messages (live es) (job_message j ce (s_seq s + 1))"
proof -
  let ?req = "job_request j"
  note cd = working_callD [OF ce]
  obtain b where b: "ce_rand ce = Some b" "length b = 16"
    using cd(1) by blast
  have j: "valid_utf8 (req_Payload ?req)" "int64_range (req_Priority ?req)" "int64_range (req_DelaySeconds ?req)"
      "length (encode (request_json ?req)) \<le> maxEnqueueBodyBytes" "Validate ?req = None" "req_DelaySeconds ?req \<in> {0, 4, 8}"
    using job by (auto simp: plain_job_def job_request_def int64_range_def)
  have dec: "Decoder_Decode request_names request_field zero_request
      (take maxEnqueueBodyBytes (encode (request_json ?req)))
      (limited_end maxEnqueueBodyBytes \<lparr>rq_Method = [], rq_Path = [], rq_RawQuery = [], rq_Body = encode (request_json ?req), rq_BodyBroken = False\<rparr>)
      = Inr ?req"
    using encoded_request_decodes [of ?req "\<lparr>rq_Method = [], rq_Path = [], rq_RawQuery = [], rq_Body = encode (request_json ?req), rq_BodyBroken = False\<rparr>"] j by simp
  have now: "time_ok (ce_now ce + delay_duration (req_DelaySeconds ?req))"
    using cd(6) [OF j(6)] delay_small [OF j(6)] by simp
  obtain s' es' where e: "Enqueue (ce_rand ce) (ce_now ce) (ce_append ce) ?req s = Some (s', Inr (job_message j ce (s_seq s + 1)))"
      "svc_inv mode t es' s'" "\<not> s_closed s'" "s_seq s' = s_seq s + 1"
      "live es' = enqueued_messages (live es) (job_message j ce (s_seq s + 1))"
    using Enqueue_works [OF inv b decoded_request_ok [OF dec] j(5) cd(3) s cd(5) now refl] unfolding job_message_def by blast
  from client_enqueue_network [OF inv cd(2,4) s(1) j(1-5) api, of ces]
  have "client_enqueue (network api) ?req (ce # ces, s) = ((ces, s'), Inr (job_message j ce (s_seq s + 1)))"
    using e(1) by auto
  then show ?thesis
    using e by blast
qed

fun job_messages :: "task list \<Rightarrow> call_env list \<Rightarrow> uint64 \<Rightarrow> Message list" where
  "job_messages (j # js) (ce # ces) n = job_message j ce (n + 1) # job_messages js ces (n + 1)"
| "job_messages _ _ n = []"

lemma length_job_messages [simp]: "length (job_messages js ces n) = min (length js) (length ces)"
  by (induction js ces n rule: job_messages.induct) simp_all

lemma job_messages_IDs: "map m_ID (job_messages js ces n) = map (\<lambda>ce. the (newUUID (ce_rand ce))) (take (length js) ces)"
  by (induction js ces n rule: job_messages.induct) simp_all

text \<open>
  What the worker knows: its jobs in the order of the script, each under the ID of its message, and
  the messages it has processed.
\<close>

definition tracks :: "task list \<Rightarrow> Message list \<Rightarrow> Message list \<Rightarrow> worker \<Rightarrow> bool" where
  "tracks js ms dels w \<longleftrightarrow>
    map tr_task (wk_store w) = js \<and> length ms = length js \<and> wk_mine w = zip (map m_ID ms) [0..<length ms] \<and>
    (\<forall>p \<in> set (wk_actual w). p < length ms) \<and> map ((!) ms) (wk_actual w) = dels"

lemma tracks_out [simp]: "tracks js ms dels (w\<lparr>wk_out := x\<rparr>) \<longleftrightarrow> tracks js ms dels w"
  by (simp add: tracks_def)

lemma tracks_print [simp]: "tracks js ms dels (print_line x w) \<longleftrightarrow> tracks js ms dels w"
  by (simp add: print_line_def)

definition by_ID :: "Message list \<Rightarrow> (string \<rightharpoonup> Message)" where
  "by_ID ms = map_of (map (\<lambda>m. (m_ID m, m)) ms)"

lemma dom_by_ID [simp]: "dom (by_ID ms) = set (map m_ID ms)"
  by (simp add: by_ID_def dom_map_of_conv_image_fst image_image)

lemma by_ID_snoc:
  assumes "m_ID m \<notin> set (map m_ID ms)"
  shows "by_ID (ms @ [m]) = enqueued_messages (by_ID ms) m"
proof -
  have "by_ID ms (m_ID m) = None"
    using assms dom_by_ID [of ms] by (metis domIff)
  then show ?thesis
    by (auto simp: by_ID_def enqueued_messages_def map_add_def fun_eq_iff split: option.split)
qed

lemma update_fresh: "k \<notin> fst ` set al \<Longrightarrow> AList.update k v al = al @ [(k, v)]"
  by (induction al) auto

lemma enqueue_all_works:
  assumes "svc_inv mode t es s" "\<not> s_closed s" "list_all working_call ces" "list_all plain_job js" "length ces = length js"
    and "unat (s_seq s) + length js < 2 ^ 64" and "\<And>err. service_Error (ae_sys api) err \<noteq> []"
    and "tracks js0 ms0 [] w" "distinct (map m_ID (ms0 @ job_messages js ces (s_seq s)))" "live es = by_ID ms0"
  shows "\<exists>w' s' es'. enqueue_all col (network api) js w (ces @ rest, s) = (w', (rest, s'), None) \<and>
    svc_inv mode t es' s' \<and> \<not> s_closed s' \<and> tracks (js0 @ js) (ms0 @ job_messages js ces (s_seq s)) [] w' \<and>
    live es' = by_ID (ms0 @ job_messages js ces (s_seq s))"
  using assms
proof (induction js arbitrary: es s ces js0 ms0 w)
  case Nil
  then show ?case
    by (auto intro: exI [of _ es])
next
  case (Cons j js)
  obtain ce ces' where ces: "ces = ce # ces'" "working_call ce" "list_all working_call ces'" "length ces' = length js"
    using Cons.prems(3,5) by (cases ces) auto
  have j: "plain_job j" "list_all plain_job js"
    using Cons.prems(4) by simp_all
  have seq: "s_seq s \<noteq> - 1"
    using Cons.prems(6) by (auto simp: unsigned_minus_1_eq_mask mask_eq_exp_minus_1)
  let ?m = "job_message j ce (s_seq s + 1)"
  obtain s' es' where e: "client_enqueue (network api) (job_request j) (ce # (ces' @ rest), s) = ((ces' @ rest, s'), Inr ?m)"
      "svc_inv mode t es' s'" "\<not> s_closed s'" "s_seq s' = s_seq s + 1" "live es' = enqueued_messages (live es) ?m"
    using client_enqueue_works [OF Cons.prems(1) ces(2) j(1) seq Cons.prems(2,7)] by blast
  have fresh: "m_ID ?m \<notin> set (map m_ID ms0)" "distinct (map m_ID ((ms0 @ [?m]) @ job_messages js ces' (s_seq s')))"
    using Cons.prems(9) by (auto simp: ces(1) e(4))
  then have live: "live es' = by_ID (ms0 @ [?m])"
    using e(5) Cons.prems(10) by_ID_snoc [OF fresh(1)] by simp
  define w1 where "w1 = w\<lparr>wk_store := wk_store w @ [\<lparr>tr_task = j, tr_msg = ?m\<rparr>],
    wk_mine := AList.update (m_ID ?m) (length (wk_store w)) (wk_mine w), wk_pending := wk_pending w @ [length (wk_store w)]\<rparr>"
  have "length (wk_store w) = length ms0" "fst ` set (wk_mine w) = set (map m_ID ms0)"
    using Cons.prems(8) by (auto simp: tracks_def image_set simp del: set_map)
  then have tr: "tracks (js0 @ [j]) (ms0 @ [?m]) [] w1"
    using Cons.prems(8) fresh(1) by (simp add: w1_def tracks_def update_fresh)
  obtain x where run: "enqueue_all col (network api) (j # js) w (ces @ rest, s) =
      enqueue_all col (network api) js (print_line x w1) (ces' @ rest, s')"
    using e(1) by (auto simp: ces(1) job_request_def w1_def Let_def)
  have "tracks (js0 @ [j]) (ms0 @ [?m]) [] (print_line x w1)" "unat (s_seq s') + length js < 2 ^ 64"
    using tr Cons.prems(6) unat_succ [OF seq] e(4) by simp_all
  from Cons.IH [OF e(2,3) ces(3) j(2) ces(4) this(2) Cons.prems(7) this(1) fresh(2) live] show ?case
    using run by (simp add: ces(1) e(4))
qed

section \<open>The worker\<close>

text \<open>A poll that works gives what the selection rule gives, and the worker notes a delivered job.\<close>

lemma tracks_index:
  assumes "tracks js ms dels w" "distinct (map m_ID ms)" "m \<in> set ms"
  shows "\<exists>p. map_of (wk_mine w) (m_ID m) = Some p \<and> p < length ms \<and> ms ! p = m"
proof -
  obtain p where p: "p < length ms" "ms ! p = m"
    using assms(3) by (auto simp: in_set_conv_nth)
  then have "(m_ID m, p) \<in> set (wk_mine w)"
    using assms(1) by (auto simp: tracks_def set_zip intro!: exI [of _ p])
  moreover have "distinct (map fst (wk_mine w))"
    using assms(1,2) by (simp add: tracks_def)
  ultimately show ?thesis
    using p by auto
qed

lemma tracks_deliver:
  assumes "tracks js ms dels w" "p < length ms"
  shows "tracks js ms (dels @ [ms ! p])
    (w\<lparr>wk_store := (wk_store w)[p := (wk_store w ! p)\<lparr>tr_msg := m\<rparr>], wk_pending := x, wk_actual := wk_actual w @ [p]\<rparr>)"
proof -
  have "length (wk_store w) = length ms"
    using assms(1) by (auto simp: tracks_def)
  then have "map tr_task ((wk_store w)[p := (wk_store w ! p)\<lparr>tr_msg := m\<rparr>]) = map tr_task (wk_store w)"
    using assms(2) by (simp add: map_update list_update_same_conv)
  then show ?thesis
    using assms by (auto simp: tracks_def)
qed

lemma pollOnce_works:
  assumes inv: "svc_inv mode t0 es s" "t0 \<le> ce_now ce" "\<not> s_closed s" and ce: "working_call ce"
    and pop: "popped mode (ce_now ce) (live es) d c'"
    and api: "\<And>err. service_Error (ae_sys api) err \<noteq> []"
    and w: "tracks js ms dels w" "distinct (map m_ID ms)" "\<And>m. d = Some m \<Longrightarrow> m \<in> set ms"
  shows "\<exists>w' s' es'. pollOnce env col (network api) start now w (ce # ces, s) = (w', (ces, s'), None) \<and>
    svc_inv mode (ce_now ce) es' s' \<and> \<not> s_closed s' \<and> live es' = c' \<and>
    tracks js ms (dels @ (case d of None \<Rightarrow> [] | Some m \<Rightarrow> [m])) w'"
proof -
  note cd = working_callD [OF ce]
  obtain s' es' where d: "Dequeue (ce_now ce) (ce_append ce) s = Some (s', Inr d)" "svc_inv mode (ce_now ce) es' s'"
      "\<not> s_closed s'" "live es' = c'"
    using poll_service_step [OF inv cd(3) pop] by blast
  have deq: "client_dequeue (network api) (ce # ces, s) = ((ces, s'), Inr d)"
    using client_dequeue_network [OF inv(1,2) cd(4) api, of ces] d(1) by auto
  have "\<exists>w'. pollOnce env col (network api) start now w (ce # ces, s) = (w', (ces, s'), None) \<and>
      tracks js ms (dels @ (case d of None \<Rightarrow> [] | Some m \<Rightarrow> [m])) w'"
  proof (cases d)
    case None
    then show ?thesis
      using deq w(1) by (simp add: pollOnce_def Let_def)
  next
    case (Some m)
    then obtain p where p: "map_of (wk_mine w) (m_ID m) = Some p" "p < length ms" "ms ! p = m"
      using tracks_index [OF w(1,2) w(3)] by blast
    show ?thesis
      using deq Some p tracks_deliver [OF w(1) p(2)] by (simp add: pollOnce_def Let_def)
  qed
  then show ?thesis
    using d(2-4) by blast
qed

text \<open>
  The loop over polls whose outcomes are known: \<open>st i\<close> is what is stored before poll \<open>i\<close> and \<open>out i\<close> what
  the poll gives.  The last job is processed by poll \<open>k\<close>, and by poll \<open>r\<close> the grace period has passed.
\<close>

definition deliveries :: "(nat \<Rightarrow> Message option) \<Rightarrow> nat \<Rightarrow> Message list" where
  "deliveries out n = List.map_filter out [0..<n]"

lemma deliveries_Suc: "deliveries out (Suc n) = deliveries out n @ (case out n of None \<Rightarrow> [] | Some m \<Rightarrow> [m])"
  by (simp add: deliveries_def map_filter_def split: option.split)

lemma worker_iterations_work:
  assumes run: "\<And>i. i \<le> r \<Longrightarrow> popped mode (ce_now (ces ! i)) (st i) (out i) (st (Suc i))" "r < length ces"
      "sorted (map ce_now ces)" "list_all working_call ces"
    and jobs: "\<And>i m. i \<le> r \<Longrightarrow> out i = Some m \<Longrightarrow> m \<in> set ms" "distinct (map m_ID ms)"
      "\<And>i. i \<le> r \<Longrightarrow> length (deliveries out (Suc i)) = length ms \<longleftrightarrow> k \<le> i"
    and ticks: "k \<le> r" "r < length tks" "\<And>i. i \<le> r \<Longrightarrow> tick_deadline (tks ! i) \<le> deadline"
      "idleGrace \<le> time_Sub (tick_since (tks ! r)) (tick_done (tks ! k))"
    and api: "\<And>err. service_Error (ae_sys api) err \<noteq> []"
    and now: "i \<le> r" "svc_inv mode t0 es s" "t0 \<le> ce_now (ces ! i)" "\<not> s_closed s" "live es = st i"
      "tracks js ms (deliveries out i) w" "doneAt = (if i \<le> k then None else Some (tick_done (tks ! k)))"
  shows "\<exists>j w' s' es' t'. k < j \<and> j \<le> Suc r \<and> tracks js ms (deliveries out j) w' \<and> svc_inv mode t' es' s' \<and> live es' = st j \<and>
    worker_iterations env col (network api) start deadline (drop i tks) doneAt w (drop i ces, s) = Some (w', (drop j ces, s'), None)"
  using now
proof (induction "r - i" arbitrary: i t0 es s w doneAt rule: less_induct)
  case less
  let ?ce = "ces ! i" and ?tk = "tks ! i"
  have ce: "working_call ?ce" "drop i ces = ?ce # drop (Suc i) ces" "drop i tks = ?tk # drop (Suc i) tks"
    using run(2,4) ticks(2) less.prems(1) by (auto simp: Cons_nth_drop_Suc list_all_length)
  have pop: "popped mode (ce_now ?ce) (live es) (out i) (st (Suc i))"
    using run(1) [OF less.prems(1)] less.prems(5) by simp
  obtain w' s' es' where p: "pollOnce env col (network api) start (tick_poll ?tk) w (drop i ces, s) = (w', (drop (Suc i) ces, s'), None)"
      "svc_inv mode (ce_now ?ce) es' s'" "\<not> s_closed s'" "live es' = st (Suc i)"
      "tracks js ms (deliveries out (Suc i)) w'"
    using pollOnce_works [OF less.prems(2-4) ce(1) pop api less.prems(6) jobs(2) jobs(1) [OF less.prems(1)]]
    unfolding ce(2) deliveries_Suc by blast
  have len: "length (wk_actual w') = length (deliveries out (Suc i))" "length (wk_mine w') = length ms"
    using p(5) by (auto simp: tracks_def dest: arg_cong [where f = length])
  then have fin: "length (wk_actual w') = length (wk_mine w') \<longleftrightarrow> k \<le> i"
    using jobs(3) [OF less.prems(1)] by simp
  define doneAt' where "doneAt' = (if Suc i \<le> k then None else Some (tick_done (tks ! k)))"
  have done': "(if k \<le> i \<and> doneAt = None then Some (tick_done ?tk) else doneAt) = doneAt'"
    using less.prems(7) by (cases "i = k") (auto simp: doneAt'_def)
  have step: "worker_iterations env col (network api) start deadline (drop i tks) doneAt w (drop i ces, s) =
      (if k \<le> i \<and> idleGrace \<le> time_Sub (tick_since ?tk) (the doneAt') then Some (w', (drop (Suc i) ces, s'), None)
       else worker_iterations env col (network api) start deadline (drop (Suc i) tks) doneAt' w' (drop (Suc i) ces, s'))"
    using p(1) fin done' ticks(3) [OF less.prems(1)] by (simp add: ce(3) Let_def not_less)
  show ?case
  proof (cases "k \<le> i \<and> idleGrace \<le> time_Sub (tick_since ?tk) (the doneAt')")
    case True
    then show ?thesis
      using step p less.prems(1) by (intro exI [of _ "Suc i"]) auto
  next
    case False
    then have "i \<noteq> r"
      using ticks(1,4) by (auto simp: doneAt'_def)
    then have i: "r - Suc i < r - i" "Suc i \<le> r"
      using less.prems(1) by simp_all
    have "ce_now ?ce \<le> ce_now (ces ! Suc i)"
      using run(2,3) i(2) sorted_nth_mono [of "map ce_now ces" i "Suc i"] by simp
    from less.hyps [OF i p(2) this p(3,4,5) doneAt'_def] show ?thesis
      using step False by simp
  qed
qed

section \<open>Labels\<close>

definition job_label :: "task list \<Rightarrow> Message list \<Rightarrow> Message \<Rightarrow> string" where
  "job_label js ms m = ta_Label (js ! the (map_of (zip (map m_ID ms) [0..<length ms]) (m_ID m)))"

lemma tracks_label:
  assumes "tracks js ms dels w" "distinct (map m_ID ms)" "p < length ms"
  shows "map_of (wk_mine w) (m_ID (ms ! p)) = Some p" "tr_Label (wk_store w ! p) = job_label js ms (ms ! p)"
proof -
  obtain p' where "map_of (wk_mine w) (m_ID (ms ! p)) = Some p'" "p' < length ms" "ms ! p' = ms ! p"
    using tracks_index [OF assms(1,2), of "ms ! p"] assms(3) by auto
  moreover from this have "p' = p"
    using assms(2,3) by (simp add: nth_eq_iff_index_eq distinct_map)
  ultimately show 1: "map_of (wk_mine w) (m_ID (ms ! p)) = Some p"
    by simp
  have "length (wk_store w) = length ms" "tr_task (wk_store w ! p) = js ! p"
    using assms(1,3) by (auto simp: tracks_def)
  then show "tr_Label (wk_store w ! p) = job_label js ms (ms ! p)"
    using 1 assms(1) by (simp add: job_label_def tracks_def)
qed

lemma processed_labels:
  assumes "tracks js ms dels w" "distinct (map m_ID ms)"
  shows "map tr_Label (deref w (wk_actual w)) = map (job_label js ms) dels"
proof -
  have "\<forall>p \<in> set (wk_actual w). p < length ms" "dels = map ((!) ms) (wk_actual w)"
    using assms(1) by (auto simp: tracks_def)
  then show ?thesis
    using tracks_label(2) [OF assms] by (simp add: deref_def)
qed

lemma predicted_labels:
  assumes "tracks js ms dels w" "distinct (map m_ID ms)" "simulateDrain snap = map simItem_of L" "set L \<subseteq> set ms"
  shows "predictLabels snap w = map (job_label js ms) L"
proof -
  have "fold (\<lambda>it out. case map_of (wk_mine w) (si_id it) of None \<Rightarrow> out | Some p \<Rightarrow> out @ [tr_Label (wk_store w ! p)])
      (map simItem_of L) out = out @ map (job_label js ms) L" for out
    using assms(4)
  proof (induction L arbitrary: out)
    case (Cons m L)
    then obtain p where "p < length ms" "m = ms ! p"
      by (auto simp: in_set_conv_nth)
    then show ?case
      using Cons tracks_label [OF assms(1,2)] by (simp add: simItem_of_def)
  qed simp
  then show ?thesis
    by (simp add: predictLabels_def assms(3))
qed

section \<open>The order of the checkout jobs\<close>

lemma drains_delivers:
  assumes "drains mode t c dl" "popped mode t c (Some m) c'" "inj_on m_Seq (ran c)"
  shows "\<exists>ms. dl = (t, m) # ms \<and> drains mode (t + pollInterval) c' ms"
  using assms(1)
proof (cases rule: drains.cases)
  case (deliver m' c'' ms)
  then show ?thesis
    using popped_unique [OF assms(2) deliver(2) assms(3)] by auto
qed (use assms(2) in \<open>force simp: popped_def\<close>)+

lemma drains_waits:
  assumes "drains mode t c dl" "popped mode t c None c" "c i = Some m" "inj_on m_Seq (ran c)"
    and "\<And>j m'. c j = Some m' \<Longrightarrow> m_AvailableAt m \<le> m_AvailableAt m'"
  shows "drains mode (m_AvailableAt m) c dl"
  using assms(1)
proof (cases rule: drains.cases)
  case (wait j m')
  then have "m_AvailableAt m' = m_AvailableAt m"
    using assms(3,5) by (auto intro: order_antisym)
  then show ?thesis
    using wait by simp
qed (use popped_unique [OF assms(2) _ assms(4)] assms(3) in auto)

lemma drains_unique:
  assumes "drains mode t c dl" "drains mode t c dl'" "inj_on m_Seq (ran c)"
  shows "dl = dl'"
  using assms
proof (induction arbitrary: dl' rule: drains.induct)
  case (empty t)
  from empty(1) show ?case
    by (cases rule: drains.cases) (auto simp: popped_def)
next
  case (deliver t c m c' ms)
  have "inj_on m_Seq (ran c')"
    using deliver.hyps(1) deliver.prems(2) by (auto simp: popped_def ran_def inj_on_def split: if_splits)
  then show ?case
    using drains_delivers [OF deliver.prems(1) deliver.hyps(1) deliver.prems(2)] deliver.IH by blast
next
  case (wait t c i m ms)
  from wait.IH [OF drains_waits [OF wait.prems(1) wait.hyps(1,2) wait.prems(2) wait.hyps(3)] wait.prems(2)] show ?case .
qed

text \<open>The selection rule on a list of messages.\<close>

lemma by_ID_Some: "distinct (map m_ID ms) \<Longrightarrow> by_ID ms i = Some m \<longleftrightarrow> m \<in> set ms \<and> m_ID m = i"
  by (auto simp: by_ID_def map_of_eq_Some_iff comp_def image_iff)

lemma popped_list:
  assumes "distinct (map m_ID ms)" "m \<in> set ms" "m_AvailableAt m \<le> now" "ms' = [m' \<leftarrow> ms. m' \<noteq> m]"
    and "\<forall>m' \<in> set ms'. m_AvailableAt m' \<le> now \<longrightarrow> m_Priority m' < m_Priority m \<or> m_Priority m' = m_Priority m \<and>
      (if mode = ModeLIFO then m_Seq m' \<le> m_Seq m else m_Seq m \<le> m_Seq m')"
  shows "popped mode now (by_ID ms) (Some m) (by_ID ms')"
proof -
  have "distinct (map m_ID ms')"
    using assms(1) by (simp add: assms(4) distinct_map_filter)
  then have "by_ID ms' i = ((by_ID ms)(m_ID m := None)) i" for i
  proof (cases "i = m_ID m")
    case True
    then show ?thesis
      using assms(1,2,4) \<open>distinct (map m_ID ms')\<close> by (cases "by_ID ms' i") (auto simp: by_ID_Some distinct_map dest: inj_onD)
  next
    case False
    then have "by_ID ms' i = Some x \<longleftrightarrow> by_ID ms i = Some x" for x
      using assms(1,4) \<open>distinct (map m_ID ms')\<close> by (auto simp: by_ID_Some)
    then show ?thesis
      using False by (cases "by_ID ms i") (auto simp flip: not_None_eq)
  qed
  then show ?thesis
    using assms by (auto simp: popped_def by_ID_Some)
qed

lemma popped_list_None: "\<forall>m \<in> set ms. now < m_AvailableAt m \<Longrightarrow> popped mode now (by_ID ms) None (by_ID ms)"
  by (auto simp: popped_def by_ID_def dest!: map_of_SomeD)

text \<open>
  The five jobs as messages: the priorities of the script, sequence numbers in the order of arrival,
  the undelayed ones visible at \<open>n\<close>, and half a second at most between the first and the last.
\<close>

definition checkout_messages :: "go_time \<Rightarrow> Message \<Rightarrow> Message \<Rightarrow> Message \<Rightarrow> Message \<Rightarrow> Message \<Rightarrow> bool" where
  "checkout_messages n A B C D E \<longleftrightarrow>
    distinct (map m_ID [A, B, C, D, E]) \<and> map m_Priority [A, B, C, D, E] = [1, 5, 10, 5, 10] \<and> m_Seq B \<le> m_Seq D \<and>
    m_AvailableAt A \<le> n \<and> m_AvailableAt B \<le> n \<and> m_AvailableAt D \<le> n \<and>
    n + 7 * pollInterval \<le> m_AvailableAt E \<and> m_AvailableAt E + 7 * pollInterval \<le> m_AvailableAt C \<and>
    m_AvailableAt C \<le> n + 16 * pollInterval"

definition drain_order :: "QueueMode \<Rightarrow> Message \<Rightarrow> Message \<Rightarrow> Message \<Rightarrow> Message \<Rightarrow> Message \<Rightarrow> Message list" where
  "drain_order mode A B C D E = (if mode = ModeLIFO then [D, B, A, E, C] else [B, D, A, E, C])"

lemma checkout_pops:
  fixes mode :: QueueMode
  assumes "checkout_messages n A B C D E"
  defines "x \<equiv> if mode = ModeLIFO then D else B" and "y \<equiv> if mode = ModeLIFO then B else D"
  shows "n \<le> p \<Longrightarrow> p < m_AvailableAt E \<Longrightarrow> popped mode p (by_ID [A, B, C, D, E]) (Some x) (by_ID [m \<leftarrow> [A, B, C, D, E]. m \<noteq> x])"
    and "n \<le> p \<Longrightarrow> p < m_AvailableAt E \<Longrightarrow> popped mode p (by_ID [m \<leftarrow> [A, B, C, D, E]. m \<noteq> x]) (Some y) (by_ID [A, C, E])"
    and "n \<le> p \<Longrightarrow> p < m_AvailableAt E \<Longrightarrow> popped mode p (by_ID [A, C, E]) (Some A) (by_ID [C, E])"
    and "p < m_AvailableAt E \<Longrightarrow> popped mode p (by_ID [C, E]) None (by_ID [C, E])"
    and "m_AvailableAt E \<le> p \<Longrightarrow> p < m_AvailableAt C \<Longrightarrow> popped mode p (by_ID [C, E]) (Some E) (by_ID [C])"
    and "p < m_AvailableAt C \<Longrightarrow> popped mode p (by_ID [C]) None (by_ID [C])"
    and "m_AvailableAt C \<le> p \<Longrightarrow> popped mode p (by_ID [C]) (Some C) (by_ID [])"
    and "popped mode p (by_ID []) None (by_ID [])"
proof -
  have ID: "distinct (map m_ID [A, B, C, D, E])"
    using assms(1) by (simp add: checkout_messages_def)
  then have ne: "A \<noteq> B" "A \<noteq> C" "A \<noteq> D" "A \<noteq> E" "B \<noteq> C" "B \<noteq> D" "B \<noteq> E" "C \<noteq> D" "C \<noteq> E" "D \<noteq> E"
    by auto
  note facts = assms(1) [unfolded checkout_messages_def]
  have av: "m_AvailableAt E < m_AvailableAt C"
    using facts by (simp add: pollInterval_def)
  show "n \<le> p \<Longrightarrow> p < m_AvailableAt E \<Longrightarrow> popped mode p (by_ID [A, B, C, D, E]) (Some x) (by_ID [m \<leftarrow> [A, B, C, D, E]. m \<noteq> x])"
    using facts ne av by (intro popped_list) (auto simp: x_def)
  show "n \<le> p \<Longrightarrow> p < m_AvailableAt E \<Longrightarrow> popped mode p (by_ID [m \<leftarrow> [A, B, C, D, E]. m \<noteq> x]) (Some y) (by_ID [A, C, E])"
    using facts ne av by (intro popped_list) (auto simp: x_def y_def)
  show "n \<le> p \<Longrightarrow> p < m_AvailableAt E \<Longrightarrow> popped mode p (by_ID [A, C, E]) (Some A) (by_ID [C, E])"
    using facts ne av by (intro popped_list) auto
  show "p < m_AvailableAt E \<Longrightarrow> popped mode p (by_ID [C, E]) None (by_ID [C, E])"
    using av by (intro popped_list_None) auto
  show "m_AvailableAt E \<le> p \<Longrightarrow> p < m_AvailableAt C \<Longrightarrow> popped mode p (by_ID [C, E]) (Some E) (by_ID [C])"
    using facts ne by (intro popped_list) auto
  show "m_AvailableAt C \<le> p \<Longrightarrow> popped mode p (by_ID [C]) (Some C) (by_ID [])"
    by (intro popped_list) auto
qed (auto intro: popped_list_None)

lemma checkout_drains:
  assumes "checkout_messages n A B C D E"
  shows "\<exists>dl. drains mode n (by_ID [A, B, C, D, E]) dl \<and> map snd dl = drain_order mode A B C D E"
proof -
  let ?x = "if mode = ModeLIFO then D else B" and ?y = "if mode = ModeLIFO then B else D"
  note pops = checkout_pops [OF assms, where mode = mode]
  have av: "n + 7 * pollInterval \<le> m_AvailableAt E" "m_AvailableAt E + 7 * pollInterval \<le> m_AvailableAt C"
    "distinct (map m_ID [C, E])" and P: "0 < pollInterval"
    using assms by (simp_all add: checkout_messages_def pollInterval_def)
  have C: "drains mode (m_AvailableAt E + pollInterval) (by_ID [C]) [(m_AvailableAt C, C)]"
  proof (rule drains.wait)
    show "popped mode (m_AvailableAt E + pollInterval) (by_ID [C]) None (by_ID [C])"
      using av P by (intro pops(6)) linarith
    show "by_ID [C] (m_ID C) = Some C"
      by (simp add: by_ID_def)
    show "drains mode (m_AvailableAt C) (by_ID [C]) [(m_AvailableAt C, C)]"
      using drains.empty [of mode] by (intro drains.deliver [OF pops(7)]) (simp_all add: by_ID_def)
  qed (auto simp: by_ID_def split: if_splits)
  have E: "drains mode (n + 3 * pollInterval) (by_ID [C, E]) [(m_AvailableAt E, E), (m_AvailableAt C, C)]"
  proof (rule drains.wait)
    show "popped mode (n + 3 * pollInterval) (by_ID [C, E]) None (by_ID [C, E])"
      using av P by (intro pops(4)) linarith
    show "by_ID [C, E] (m_ID E) = Some E"
      using av(3) by (auto simp: by_ID_def)
    show "drains mode (m_AvailableAt E) (by_ID [C, E]) [(m_AvailableAt E, E), (m_AvailableAt C, C)]"
      using av P by (intro drains.deliver [OF pops(5) C]) linarith+
  qed (use av P in \<open>auto simp: by_ID_def split: if_splits\<close>)
  have "drains mode (n + 2 * pollInterval) (by_ID [A, C, E]) [(n + 2 * pollInterval, A), (m_AvailableAt E, E), (m_AvailableAt C, C)]"
    using av P E by (intro drains.deliver [OF pops(3)]) (auto simp: algebra_simps)
  then have "drains mode n (by_ID [A, B, C, D, E])
      [(n, ?x), (n + pollInterval, ?y), (n + 2 * pollInterval, A), (m_AvailableAt E, E), (m_AvailableAt C, C)]"
    using av P by (intro drains.deliver [OF pops(1)] drains.deliver [OF pops(2)]) (auto simp: algebra_simps)
  then show ?thesis
    by (intro exI conjI) (auto simp: drain_order_def)
qed

text \<open>
  A ticker that keeps its time: the reading of iteration \<open>i\<close> falls into the \<open>i\<close>-th interval from \<open>T\<close>.
\<close>

definition on_ticker :: "go_time \<Rightarrow> go_time list \<Rightarrow> bool" where
  "on_ticker T ps \<longleftrightarrow>
    list_all (\<lambda>i. T + int i * pollInterval \<le> ps ! i \<and> ps ! i < T + int (Suc i) * pollInterval) [0..<length ps]"

lemma on_tickerD:
  "on_ticker T ps \<Longrightarrow> i < length ps \<Longrightarrow> T + int i * pollInterval \<le> ps ! i \<and> ps ! i < T + int (Suc i) * pollInterval"
  by (simp add: on_ticker_def list_all_iff)

lemma ticker_first:
  assumes "on_ticker T ps" "n < length ps" "av \<le> ps ! n" "ps ! 0 < av"
  shows "\<exists>k \<le> n. 0 < k \<and> av \<le> ps ! k \<and> ps ! k < av + 2 * pollInterval \<and> (\<forall>i < k. ps ! i < av)"
proof -
  define k where "k = (LEAST i. av \<le> ps ! i)"
  have "av \<le> ps ! k" "k \<le> n"
    unfolding k_def by (rule LeastI [of _ n], rule assms(3), rule Least_le, rule assms(3))
  moreover have "\<forall>i < k. ps ! i < av"
    unfolding k_def by (auto dest: not_less_Least)
  ultimately have k: "av \<le> ps ! k" "k \<le> n" "\<forall>i < k. ps ! i < av"
    by simp_all
  obtain j where j: "k = Suc j"
    using k(1) assms(4) by (cases k) auto
  have "ps ! k < T + int j * pollInterval + 2 * pollInterval"
    using on_tickerD [OF assms(1), of k] assms(2) k(2) j by (simp add: algebra_simps)
  also have "T + int j * pollInterval \<le> ps ! j"
    using on_tickerD [OF assms(1), of j] assms(2) k(2) j by simp
  finally have "ps ! k < ps ! j + 2 * pollInterval"
    by simp
  moreover have "ps ! j < av"
    using k(3) j by simp
  ultimately show ?thesis
    using k j by (intro exI [of _ k]) auto
qed

text \<open>Polls on the ticker deliver the five jobs in order, the last by the seventeenth poll.\<close>

definition jobs_left :: "QueueMode \<Rightarrow> nat \<Rightarrow> nat \<Rightarrow> Message \<Rightarrow> Message \<Rightarrow> Message \<Rightarrow> Message \<Rightarrow> Message \<Rightarrow> nat \<Rightarrow> Message list" where
  "jobs_left mode k l A B C D E i =
    (if i = 0 then [A, B, C, D, E] else if i = 1 then [m \<leftarrow> [A, B, C, D, E]. m \<noteq> (if mode = ModeLIFO then D else B)]
     else if i = 2 then [A, C, E] else if i \<le> k then [C, E] else if i \<le> l then [C] else [])"

definition poll_result :: "QueueMode \<Rightarrow> nat \<Rightarrow> nat \<Rightarrow> Message \<Rightarrow> Message \<Rightarrow> Message \<Rightarrow> Message \<Rightarrow> Message \<Rightarrow> nat \<Rightarrow> Message option" where
  "poll_result mode k l A B C D E i =
    (if i = 0 then Some (if mode = ModeLIFO then D else B) else if i = 1 then Some (if mode = ModeLIFO then B else D)
     else if i = 2 then Some A else if i = k then Some E else if i = l then Some C else None)"

lemma deliveries_checkout:
  assumes "3 \<le> k" "k < l"
  shows "deliveries (poll_result mode k l A B C D E) i =
    take (if i \<le> 3 then i else if i \<le> k then 3 else if i \<le> l then 4 else 5) (drain_order mode A B C D E)"
proof (induction i)
  case 0
  then show ?case
    by (simp add: deliveries_def map_filter_def)
next
  case (Suc i)
  consider "i = 0" | "i = 1" | "i = 2" | "3 \<le> i"
    by linarith
  then show ?case
    unfolding deliveries_Suc Suc.IH using assms by cases (auto simp: poll_result_def drain_order_def)
qed

lemma checkout_poll:
  assumes "checkout_messages n A B C D E" "3 \<le> k" "k < l" "n \<le> ps ! i"
    and "\<forall>i < k. ps ! i < m_AvailableAt E" "m_AvailableAt E \<le> ps ! k" "\<forall>i < l. ps ! i < m_AvailableAt C" "m_AvailableAt C \<le> ps ! l"
  shows "popped mode (ps ! i) (by_ID (jobs_left mode k l A B C D E i)) (poll_result mode k l A B C D E i)
    (by_ID (jobs_left mode k l A B C D E (Suc i)))"
proof -
  note pops = checkout_pops [OF assms(1), where mode = mode and p = "ps ! i"] and defs = jobs_left_def poll_result_def
  consider "i = 0" | "i = 1" | "i = 2" | "3 \<le> i" "i < k" | "i = k" | "k < i" "i < l" | "i = l" | "l < i"
    by linarith
  then show ?thesis
  proof cases
    case 4
    then show ?thesis
      using assms(3,5) pops(4) by (simp add: defs)
  next
    case 5
    then show ?thesis
      using assms(2,3,6,7) pops(5) by (simp add: defs)
  next
    case 6
    then show ?thesis
      using assms(2,7) pops(6) by (simp add: defs)
  next
    case 7
    then show ?thesis
      using assms(2,3,8) pops(7) by (simp add: defs)
  next
    case 8
    then show ?thesis
      using assms(2,3) pops(8) by (simp add: defs)
  qed (use assms(2,4,5) pops(1-3) in \<open>simp_all add: defs numeral_eq_Suc\<close>)
qed

lemma checkout_polls:
  assumes "checkout_messages n A B C D E" "on_ticker T ps" "n \<le> T" "T \<le> n + pollInterval" "16 < length ps"
  shows "\<exists>k l. 3 \<le> k \<and> k < l \<and> l \<le> 16 \<and>
    (\<forall>i < length ps. popped mode (ps ! i) (by_ID (jobs_left mode k l A B C D E i)) (poll_result mode k l A B C D E i)
      (by_ID (jobs_left mode k l A B C D E (Suc i))))"
proof -
  have av: "n + 7 * pollInterval \<le> m_AvailableAt E" "m_AvailableAt E + 7 * pollInterval \<le> m_AvailableAt C"
      "m_AvailableAt C \<le> n + 16 * pollInterval" and P: "0 < pollInterval"
    using assms(1) by (simp_all add: checkout_messages_def pollInterval_def)
  have early: "ps ! i < m_AvailableAt E" if "i \<in> {0, 1, 2}" for i
  proof -
    have "i < length ps"
      using that assms(5) by auto
    from on_tickerD [OF assms(2) this] show ?thesis
      using that assms(4) av(1) P by auto
  qed
  have "m_AvailableAt C \<le> ps ! 16"
    using on_tickerD [OF assms(2,5)] assms(3) av(3) by simp
  moreover from this have "m_AvailableAt E \<le> ps ! 16"
    using av(2) P by linarith
  ultimately obtain k l where k: "m_AvailableAt E \<le> ps ! k" "ps ! k < m_AvailableAt E + 2 * pollInterval"
      "\<forall>i < k. ps ! i < m_AvailableAt E"
    and l: "l \<le> 16" "m_AvailableAt C \<le> ps ! l" "\<forall>i < l. ps ! i < m_AvailableAt C"
    using ticker_first [OF assms(2,5), of "m_AvailableAt E"] ticker_first [OF assms(2,5), of "m_AvailableAt C"] early [of 0] av(2) P
    by force
  have "k \<notin> {0, 1, 2}"
    using early k(1) by (meson not_less)
  then have "3 \<le> k"
    by auto
  moreover have "k < l"
    using k l(2) av(2) P by (cases l k rule: linorder_cases) auto
  moreover have "n \<le> ps ! i" if "i < length ps" for i
    using on_tickerD [OF assms(2) that] assms(3) P by (smt (verit) mult_nonneg_nonneg of_nat_0_le_iff)
  ultimately show ?thesis
    using checkout_poll [OF assms(1) _ _ _ k(3,1) l(3,2)] l(1) by blast
qed

section \<open>The whole run\<close>

lemma inj_on_the: "None \<notin> S \<Longrightarrow> inj_on the S"
  by (intro inj_onI option.expand) auto

lemma checkout_job_messages:
  assumes "ces = [a, b, c, d, e]" "list_all working_call ces" "sorted (map ce_now ces @ [n])" "n \<le> ce_now a + pollInterval"
    and "distinct (map (newUUID \<circ> ce_rand) ces)" "unat s + 5 < 2 ^ 64"
  shows "\<exists>A B C D E. job_messages checkout_script ces s = [A, B, C, D, E] \<and> checkout_messages n A B C D E"
proof -
  have "\<exists>u. newUUID (ce_rand ce) = Some u" if "ce \<in> set ces" for ce
    using that assms(2) working_callD(1) newUUID_ok unfolding list_all_iff by metis
  then have "None \<notin> set (map (newUUID \<circ> ce_rand) ces)"
    by force
  then have "inj_on the (set (map (newUUID \<circ> ce_rand) ces))"
    by (rule inj_on_the)
  then have "distinct (map the (map (newUUID \<circ> ce_rand) ces))"
    using assms(5) by (simp only: distinct_map simp_thms)
  then have ids: "distinct (map (\<lambda>ce. the (newUUID (ce_rand ce))) ces)"
    by (simp add: comp_def)
  have "unat (s + 2) = unat s + 2" "unat (s + 4) = unat s + 4"
    using assms(6) unat_add_lem [of s 2] unat_add_lem [of s 4] by simp_all
  then have "s + 2 \<le> s + 4"
    by (simp add: word_le_nat_alt)
  then have "2 + s \<le> 4 + s"
    by (simp only: add.commute)
  then show ?thesis
    using ids assms(3,4)
    by (simp add: assms(1) checkout_script_def checkout_messages_def delay_small pollInterval_def nanos_per_sec_def)
qed

lemma on_ticker_sorted: "on_ticker T ps \<Longrightarrow> sorted ps"
proof -
  assume h: "on_ticker T ps"
  have "ps ! i \<le> ps ! Suc i" if "Suc i < length ps" for i
    using on_tickerD [OF h, of i] on_tickerD [OF h that] that by simp
  then show ?thesis
    by (simp add: sorted_iff_nth_Suc)
qed

definition ticks_on :: "go_time \<Rightarrow> tick list \<Rightarrow> bool" where
  "ticks_on T tks \<longleftrightarrow> on_ticker T (map tick_done tks) \<and> on_ticker T (map tick_since tks) \<and> on_ticker T (map tick_deadline tks)"

lemma ticks_onD:
  assumes "ticks_on T tks"
  shows "l + 4 < length tks \<Longrightarrow> idleGrace \<le> time_Sub (tick_since (tks ! (l + 4))) (tick_done (tks ! l))"
    and "i < 21 \<Longrightarrow> i < length tks \<Longrightarrow> tick_deadline (tks ! i) \<le> T + 21 * pollInterval"
proof -
  have on: "on_ticker T (map tick_done tks)" "on_ticker T (map tick_since tks)" "on_ticker T (map tick_deadline tks)"
    using assms by (simp_all add: ticks_on_def)
  show "idleGrace \<le> time_Sub (tick_since (tks ! (l + 4))) (tick_done (tks ! l))" if "l + 4 < length tks"
    using on_tickerD [OF on(1), of l] on_tickerD [OF on(2), of "l + 4"] that
    by (simp add: idleGrace_def time_Sub_def pollInterval_def algebra_simps)
  show "tick_deadline (tks ! i) \<le> T + 21 * pollInterval" if "i < 21" "i < length tks"
    using on_tickerD [OF on(3), of i] that by (simp add: pollInterval_def)
qed

text \<open>The worker loop on the five stored jobs.\<close>

lemma checkout_worker:
  assumes msgs: "checkout_messages n A B C D E" and polls: "on_ticker T (map ce_now ces)" "n \<le> T" "T \<le> n + pollInterval"
      "21 \<le> length ces" "list_all working_call ces"
    and clk: "ticks_on start tks" "21 \<le> length tks" "start \<le> t0 + pollInterval"
    and api: "\<And>err. service_Error (ae_sys api) err \<noteq> []"
    and s: "svc_inv mode n es s" "\<not> s_closed s" "live es = by_ID [A, B, C, D, E]"
    and w: "tracks js [A, B, C, D, E] [] w"
  shows "\<exists>w' ces' s'. workerLoop env col (network api) checkout_script t0 start tks w (ces, s) = Some (w', (ces', s'), None) \<and>
    tracks js [A, B, C, D, E] (drain_order mode A B C D E) w' \<and> q_messages (s_queue s') = Map.empty"
proof -
  let ?ms = "[A, B, C, D, E]" and ?deadline = "t0 + 38 * nanos_per_sec"
  obtain k l where kl: "3 \<le> k" "k < l" "l \<le> 16"
      "\<And>i. i < length ces \<Longrightarrow> popped mode (ce_now (ces ! i)) (by_ID (jobs_left mode k l A B C D E i)) (poll_result mode k l A B C D E i)
        (by_ID (jobs_left mode k l A B C D E (Suc i)))"
    using checkout_polls [OF msgs polls(1-3), of mode] polls(4) by auto
  have out: "m \<in> set ?ms" if "poll_result mode k l A B C D E i = Some m" for i m
    using that by (auto simp: poll_result_def split: if_splits)
  have all: "deliveries (poll_result mode k l A B C D E) j = drain_order mode A B C D E" "jobs_left mode k l A B C D E j = []" if "l < j" for j
    using that kl(1-3) by (simp_all add: deliveries_checkout jobs_left_def drain_order_def)
  have len: "length (deliveries (poll_result mode k l A B C D E) (Suc i)) = length ?ms \<longleftrightarrow> l \<le> i" for i
    using kl(1,2) by (auto simp: deliveries_checkout drain_order_def)
  have "\<exists>j w' s' es' t'. l < j \<and> j \<le> Suc (l + 4) \<and> tracks js ?ms (deliveries (poll_result mode k l A B C D E) j) w' \<and>
      svc_inv mode t' es' s' \<and> live es' = by_ID (jobs_left mode k l A B C D E j) \<and>
      worker_iterations env col (network api) start ?deadline (drop 0 tks) None w (drop 0 ces, s) = Some (w', (drop j ces, s'), None)"
  proof (rule worker_iterations_work [where k = l and r = "l + 4" and i = 0 and ?t0.0 = n and es = es])
    show "n \<le> ce_now (ces ! 0)"
      using on_tickerD [OF polls(1), of 0] polls(2,4) by (cases ces) auto
    show "tick_deadline (tks ! i) \<le> ?deadline" if "i \<le> l + 4" for i
      using ticks_onD(2) [OF clk(1), of i] that kl(3) clk(2,3) by (simp add: pollInterval_def nanos_per_sec_def)
    show "idleGrace \<le> time_Sub (tick_since (tks ! (l + 4))) (tick_done (tks ! l))"
      using ticks_onD(1) [OF clk(1), of l] kl(3) clk(2) by simp
    show "tracks js ?ms (deliveries (poll_result mode k l A B C D E) 0) w" "live es = by_ID (jobs_left mode k l A B C D E 0)"
      using w s(3) by (simp_all add: deliveries_def map_filter_def jobs_left_def)
    show "distinct (map m_ID ?ms)"
      using msgs by (simp add: checkout_messages_def)
  qed (use kl polls(4,5) clk(2) out len api s on_ticker_sorted [OF polls(1)] in auto)
  then obtain j w' s' es' t' where "l < j" "tracks js ?ms (deliveries (poll_result mode k l A B C D E) j) w'" "svc_inv mode t' es' s'"
      "live es' = by_ID (jobs_left mode k l A B C D E j)"
      "worker_iterations env col (network api) start ?deadline tks None w (ces, s) = Some (w', (drop j ces, s'), None)"
    by auto
  then show ?thesis
    using all by (auto simp: workerLoop_def checkout_deadline svc_inv_def by_ID_def)
qed

lemma checkout_burst:
  assumes "svc_inv mode t es s" "\<not> s_closed s" "live es = by_ID []" "list_all working_call ces" "length ces = 5"
    and "unat (s_seq s) + 5 < 2 ^ 64" "\<And>err. service_Error (ae_sys api) err \<noteq> []"
    and "job_messages checkout_script ces (s_seq s) = ms" "distinct (map m_ID ms)"
  shows "\<exists>w s' es'. enqueue_all col (network api) checkout_script (empty_worker out) (ces @ rest, s) = (w, (rest, s'), None) \<and>
    svc_inv mode t es' s' \<and> \<not> s_closed s' \<and> tracks checkout_script ms [] w \<and> live es' = by_ID ms"
proof -
  have "tracks [] [] [] (empty_worker out)"
    by (simp add: tracks_def empty_worker_def)
  moreover have "length ces = length checkout_script" "unat (s_seq s) + length checkout_script < 2 ^ 64"
    using assms(5,6) by (simp_all add: checkout_script_def)
  moreover have "distinct (map m_ID ([] @ job_messages checkout_script ces (s_seq s)))"
    using assms(8,9) by simp
  ultimately show ?thesis
    using enqueue_all_works [OF assms(1,2,4) checkout_jobs_plain _ _ assms(7), of "[]" "[]" "empty_worker out" col rest] assms(3,8)
    by auto
qed

lemma checkout_prediction:
  assumes "checkout_messages n A B C D E" "svc_inv mode t es s" "t \<le> n" "live es = by_ID [A, B, C, D, E]"
    and "Service_Snapshot n snapshotLimit s = Some (s', sn)"
  shows "simulateDrain sn = map simItem_of (drain_order mode A B C D E)"
proof -
  have "card (dom (live es)) \<le> 5"
    unfolding assms(4) dom_by_ID using card_length [of "map m_ID [A, B, C, D, E]"] by simp
  then have "int (card (dom (live es))) \<le> snapshotLimit"
    by (simp add: snapshotLimit_def)
  then obtain dl where dl: "drains mode n (live es) dl" "simulateDrain sn = map (simItem_of \<circ> snd) dl"
    using simulateDrain_drains [OF assms(2,3) _ assms(5)] by blast
  obtain dl' where dl': "drains mode n (live es) dl'" "map snd dl' = drain_order mode A B C D E"
    using checkout_drains [OF assms(1), of mode] unfolding assms(4) by blast
  have "dl = dl'"
    using drains_unique [OF dl(1) dl'(1)] assms(2) by (simp add: svc_inv_def stored_ok_def)
  then show ?thesis
    using dl(2) dl'(2) by (metis map_map)
qed

text \<open>Up to the worker loop: the first snapshot, the burst, the second snapshot and the prediction.\<close>

lemma checkout_start:
  assumes "service_reach mode path t s" "\<not> s_closed s" "q_messages (s_queue s) = Map.empty"
    and "unat (s_seq s) + 5 < 2 ^ 64" "\<And>err. service_Error (ae_sys api) err \<noteq> []"
    and "list_all working_call ([n1, a, b, c, d, e, n2] @ polls)"
    and "sorted (t # map ce_now [n1, a, b, c, d, e, n2])" "ce_now n2 \<le> ce_now a + pollInterval"
    and "distinct (map (newUUID \<circ> ce_rand) [a, b, c, d, e])"
  shows "\<exists>sn s1 w s2 sn2 s3 es A B C D E.
    getSnapshot (network api) (n1 # [a, b, c, d, e] @ n2 # polls, s) = (([a, b, c, d, e] @ n2 # polls, s1), Inr sn) \<and>
    enqueue_all col (network api) checkout_script (empty_worker (out sn)) ([a, b, c, d, e] @ n2 # polls, s1) = (w, (n2 # polls, s2), None) \<and>
    getSnapshot (network api) (n2 # polls, s2) = ((polls, s3), Inr sn2) \<and>
    svc_inv mode (ce_now n2) es s3 \<and> \<not> s_closed s3 \<and> live es = by_ID [A, B, C, D, E] \<and>
    checkout_messages (ce_now n2) A B C D E \<and> tracks checkout_script [A, B, C, D, E] [] w \<and>
    predictLabels sn2 w = map (job_label checkout_script [A, B, C, D, E]) (drain_order mode A B C D E)"
proof -
  let ?burst = "[a, b, c, d, e]"
  obtain es where inv: "svc_inv mode t es s"
    using service_reach_inv [OF assms(1)] by blast
  have work: "working_call n1" "list_all working_call ?burst" "working_call n2"
    using assms(6) by simp_all
  have times: "t \<le> ce_now n1" "ce_now n1 \<le> ce_now n2" "sorted (map ce_now ?burst @ [ce_now n2])"
    using assms(7) by simp_all
  have live0: "live es = by_ID []"
    using inv assms(3) by (simp add: svc_inv_def by_ID_def)
  note valid = reach_mode [OF assms(1)]
  obtain s1 sn where sn: "Service_Snapshot (ce_now n1) snapshotLimit s = Some (s1, sn)" "svc_inv mode (ce_now n1) es s1"
      "s_closed s1 = s_closed s" "getSnapshot (network api) (n1 # (?burst @ n2 # polls), s) = ((?burst @ n2 # polls, s1), Inr sn)"
    using getSnapshot_network [OF inv times(1) valid working_callD(5) [OF work(1)], of api "?burst @ n2 # polls"] live0 by auto
  have seq: "s_seq s1 = s_seq s"
    using Service_Snapshot_ok [OF inv times(1), of snapshotLimit] sn(1) by auto
  obtain A B C D E where ms: "job_messages checkout_script ?burst (s_seq s1) = [A, B, C, D, E]" "checkout_messages (ce_now n2) A B C D E"
    using checkout_job_messages [OF refl work(2) times(3) assms(8,9,4)] unfolding seq by blast
  let ?ms = "[A, B, C, D, E]"
  have ids: "distinct (map m_ID ?ms)"
    using ms(2) by (simp add: checkout_messages_def)
  obtain w s2 es2 where enq: "enqueue_all col (network api) checkout_script (empty_worker (out sn)) (?burst @ n2 # polls, s1) =
        (w, (n2 # polls, s2), None)"
      "svc_inv mode (ce_now n1) es2 s2" "\<not> s_closed s2" "tracks checkout_script ?ms [] w" "live es2 = by_ID ?ms"
    using checkout_burst [OF sn(2) _ live0 work(2) _ _ assms(5) ms(1) ids] sn(3) seq assms(2,4) by force
  have "card (dom (live es2)) < 2 ^ 63"
    unfolding enq(5) dom_by_ID by (rule order.strict_trans1 [OF card_length]) simp
  then obtain s3 sn2 where sn2: "Service_Snapshot (ce_now n2) snapshotLimit s2 = Some (s3, sn2)" "svc_inv mode (ce_now n2) es2 s3"
      "s_closed s3 = s_closed s2" "getSnapshot (network api) (n2 # polls, s2) = ((polls, s3), Inr sn2)"
    using getSnapshot_network [OF enq(2) times(2) valid working_callD(5) [OF work(3)], of api polls] by blast
  have "predictLabels sn2 w = map (job_label checkout_script ?ms) (drain_order mode A B C D E)"
    by (intro predicted_labels [OF enq(4) ids checkout_prediction [OF ms(2) enq(2) times(2) enq(5) sn2(1)]])
      (auto simp: drain_order_def)
  moreover have "\<not> s_closed s3"
    using sn2(3) enq(3) by simp
  ultimately show ?thesis
    using sn(4) enq(1,4,5) sn2(2,4) ms(2) by (intro exI conjI) (assumption | simp only: append.simps)+
qed

text \<open>
  C39: The demonstration passes.  Let the client run against an open service with an empty queue over
  a connection that carries every request, let every call find a working log and random bytes that
  make five different IDs, let the burst of five enqueue calls and the snapshot after it take half a
  second at most, and let the iterations of the worker keep to the ticks of its half-second ticker,
  on the server's clock and on its own.  Then, in FIFO and in LIFO mode, the run returns within 21
  polls without an error: the labels it processed are the predicted ones, its output ends with the
  PASS line, the process exits with 0, and the queue is empty again.
\<close>

theorem client_passes_on_quiet_server:
  assumes "service_reach mode path t s" and "\<not> s_closed s" and "q_messages (s_queue s) = Map.empty"
    and "unat (s_seq s) + 5 < 2 ^ 64" and "\<And>err. service_Error (ae_sys api) err \<noteq> []"
    and "list_all working_call ([n1, a, b, c, d, e, n2] @ polls)"
    and "sorted (t # map ce_now [n1, a, b, c, d, e, n2])" and "ce_now n2 \<le> ce_now a + pollInterval"
    and "distinct (map (newUUID \<circ> ce_rand) [a, b, c, d, e])"
    and "on_ticker T (map ce_now polls)" and "ce_now n2 \<le> T" and "T \<le> ce_now n2 + pollInterval" and "21 \<le> length polls"
    and "ticks_on (wc_start clk) (wc_ticks clk)" and "wc_start clk \<le> wc_deadline clk + pollInterval" and "21 \<le> length (wc_ticks clk)"
    and "setColor env (flag_value (fl_color flags) (getenv env ''QM_COLOR'' ''auto'')) = Inr col"
  shows "\<exists>ces' s' pre. client_run env flags (\<lambda>_. network api) clk (h # n1 # [a, b, c, d, e] @ n2 # polls, s) =
      Some ((ces', s'), pre @ verdict_text col True, None) \<and>
    client_main env flags (\<lambda>_. network api) clk (h # n1 # [a, b, c, d, e] @ n2 # polls, s) = Some 0 \<and>
    q_messages (s_queue s') = Map.empty"
proof -
  let ?base = "TrimRight_cut (CHR ''/'') (TrimSpace (flag_value (fl_url flags) (getenv env ''QUEUE_URL'' ''http://127.0.0.1:8080'')))"
  obtain sn s1 w s2 sn2 s3 es A B C D E where st:
      "getSnapshot (network api) (n1 # [a, b, c, d, e] @ n2 # polls, s) = (([a, b, c, d, e] @ n2 # polls, s1), Inr sn)"
      "enqueue_all col (network api) checkout_script (empty_worker (connected_text col ?base sn)) ([a, b, c, d, e] @ n2 # polls, s1) =
        (w, (n2 # polls, s2), None)"
      "getSnapshot (network api) (n2 # polls, s2) = ((polls, s3), Inr sn2)"
      "svc_inv mode (ce_now n2) es s3" "\<not> s_closed s3" "live es = by_ID [A, B, C, D, E]"
      "checkout_messages (ce_now n2) A B C D E" "tracks checkout_script [A, B, C, D, E] [] w"
      "predictLabels sn2 w = map (job_label checkout_script [A, B, C, D, E]) (drain_order mode A B C D E)"
    using checkout_start [OF assms(1-9), of col "connected_text col ?base"] by blast
  define w1 where "w1 = w\<lparr>wk_out := wk_out w @ prediction_text col (predictLabels sn2 w) (sn_Mode sn2) (qs_Total (sn_Stats sn))\<rparr>"
  have w1: "tracks checkout_script [A, B, C, D, E] [] w1"
    using st(8) by (simp add: w1_def)
  have polls: "list_all working_call polls" and ids: "distinct (map m_ID [A, B, C, D, E])"
    using assms(6) st(7) by (simp_all add: checkout_messages_def)
  obtain w2 ces' s4 where run: "workerLoop env col (network api) checkout_script (wc_deadline clk) (wc_start clk) (wc_ticks clk) w1 (polls, s3) =
        Some (w2, (ces', s4), None)"
      "tracks checkout_script [A, B, C, D, E] (drain_order mode A B C D E) w2" "q_messages (s_queue s4) = Map.empty"
    using checkout_worker [OF st(7) assms(10-13) polls assms(14,16,15,5) st(4-6) w1] by blast
  have match: "orderMatches (predictLabels sn2 w) (deref w2 (wk_actual w2))"
    by (simp only: orderMatches_labels st(9) processed_labels [OF run(2) ids])
  obtain table where table: "printSummary col (predictLabels sn2 w) (deref w2 (wk_actual w2)) checkout_script = table @ verdict_text col True"
    using printSummary_verdict [of col "predictLabels sn2 w" "deref w2 (wk_actual w2)"] match by auto
  have "client_run env flags (\<lambda>_. network api) clk (h # n1 # [a, b, c, d, e] @ n2 # polls, s) =
      Some ((ces', s4), (wk_out w2 @ nl @ table) @ verdict_text col True, None)"
    using checkHealth_network [of api ?base h "n1 # [a, b, c, d, e] @ n2 # polls" s] st(1-3) run(1) match table
    by (simp add: client_run_def assms(17) Let_def flip: w1_def)
  then show ?thesis
    using run(3) by (auto simp: client_main_def)
qed

definition quiet_call :: "nat \<Rightarrow> go_time \<Rightarrow> call_env" where
  "quiet_call i t = \<lparr>ce_rand = Some (replicate 16 (of_nat i)), ce_now = ex_time + t, ce_append = ex_env, ce_tail = ex_tail\<rparr>"

definition quiet_polls :: "call_env list" where
  "quiet_polls = map (\<lambda>i. quiet_call 0 (int i * pollInterval)) [0..<21]"

definition quiet_clock :: worker_clock where
  "quiet_clock = \<lparr>wc_deadline = 0, wc_start = 0, wc_ticks = map (\<lambda>i. ex_tick (int i * pollInterval)) [0..<21]\<rparr>"

definition quiet_flags :: client_flags where
  "quiet_flags = \<lparr>fl_url = None, fl_color = Some ''never''\<rparr>"

theorem client_passes_on_quiet_server_witness:
  "client_main ex_process quiet_flags (\<lambda>_. network ex_api) quiet_clock
    (quiet_call 0 0 # quiet_call 0 0 # [quiet_call 1 0, quiet_call 2 0, quiet_call 3 0, quiet_call 4 0, quiet_call 5 0] @
      quiet_call 0 0 # quiet_polls, ex_service) = Some 0"
proof -
  have s: "\<not> s_closed ex_service" "q_messages (s_queue ex_service) = Map.empty" "unat (s_seq ex_service) + 5 < 2 ^ 64"
    by simp_all
  have calls: "list_all working_call ([quiet_call 0 0, quiet_call 1 0, quiet_call 2 0, quiet_call 3 0, quiet_call 4 0, quiet_call 5 0, quiet_call 0 0] @ quiet_polls)"
    by code_simp
  have times: "sorted (ex_time # map ce_now [quiet_call 0 0, quiet_call 1 0, quiet_call 2 0, quiet_call 3 0, quiet_call 4 0, quiet_call 5 0, quiet_call 0 0])"
      "ce_now (quiet_call 0 0) \<le> ce_now (quiet_call 1 0) + pollInterval"
      "distinct (map (newUUID \<circ> ce_rand) [quiet_call 1 0, quiet_call 2 0, quiet_call 3 0, quiet_call 4 0, quiet_call 5 0])"
    by code_simp+
  have polls: "on_ticker ex_time (map ce_now quiet_polls)" "ce_now (quiet_call 0 0) \<le> ex_time"
      "ex_time \<le> ce_now (quiet_call 0 0) + pollInterval" "21 \<le> length quiet_polls"
    by code_simp+
  have clk: "ticks_on (wc_start quiet_clock) (wc_ticks quiet_clock)" "wc_start quiet_clock \<le> wc_deadline quiet_clock + pollInterval"
      "21 \<le> length (wc_ticks quiet_clock)"
      "setColor ex_process (flag_value (fl_color quiet_flags) (getenv ex_process ''QM_COLOR'' ''auto'')) = Inr False"
    by code_simp+
  from client_passes_on_quiet_server [OF ex_service_reach(1) s ex_api_texts calls times polls clk, of "quiet_call 0 0"] show ?thesis
    by blast
qed

end
