(* ===== verification/Server.thy ===== *)
theory Server
  imports Api GoStrings
begin

text \<open>
  The server command (\<^verbatim>\<open>src/cmd/server/main.go\<close>): its configuration from flags and environment
  variables, and the run of the process from opening the queue to closing it.
\<close>

section \<open>Configuration\<close>

record config =
  cf_port :: string
  cf_mode :: QueueMode
  cf_dataPath :: string

text \<open>The values of the flags, when they are given on the command line.\<close>

record server_flags =
  sf_port :: "bytes option"
  sf_mode :: "bytes option"
  sf_data :: "bytes option"

datatype server_error =
    PortEmpty
  | BadMode mode_error
  | MkdirFailed bytes
  | OpenQueue service_error
  | HttpServer bytes
  | ShutdownFailed bytes
  | CloseQueue service_error

definition getenv :: "process_env \<Rightarrow> string \<Rightarrow> string \<Rightarrow> string" where
  "getenv env key fallback = (let v = pe_Getenv env key in if v \<noteq> [] then v else fallback)"

definition flag_or :: "bytes option \<Rightarrow> bytes \<Rightarrow> bytes" where
  "flag_or given dflt = (case given of None \<Rightarrow> dflt | Some v \<Rightarrow> v)"

definition parseConfig :: "process_env \<Rightarrow> server_flags \<Rightarrow> server_error + config" where
  "parseConfig env flags =
    (let port = flag_or (sf_port flags) (getenv env ''PORT'' ''8080'');
         modeStr = flag_or (sf_mode flags) (getenv env ''QUEUE_MODE'' ModeFIFO);
         dataPath = flag_or (sf_data flags) (getenv env ''DATA_PATH'' ''./data/queue.wal'');
         portVal = TrimPrefix (TrimSpace port) '':''
     in if portVal = [] then Inl PortEmpty
        else case ParseQueueMode (ToUpper (pe_upper env) (TrimSpace modeStr)) of
          Inl err \<Rightarrow> Inl (BadMode err)
        | Inr mode \<Rightarrow> Inr \<lparr>cf_port = portVal, cf_mode = mode, cf_dataPath = dataPath\<rparr>)"

section \<open>The run of the process\<close>

text \<open>\<^verbatim>\<open>filepath.Dir\<close> and \<^verbatim>\<open>filepath.Clean\<close> with the separator of Unix.\<close>

definition filepath_Clean :: "bytes \<Rightarrow> bytes" where
  "filepath_Clean p =
    (let rooted = (p \<noteq> [] \<and> hd p = CHR ''/'');
         segs = fold (\<lambda>s acc.
             if s = [] \<or> s = ''.'' then acc
             else if s = ''..'' then
               (if acc \<noteq> [] \<and> last acc \<noteq> ''..'' then butlast acc else if rooted then acc else acc @ [s])
             else acc @ [s])
           (split_at (CHR ''/'') p) [];
         body = Join segs ''/''
     in if rooted then CHR ''/'' # body else if body = [] then ''.'' else body)"

definition filepath_Dir :: "bytes \<Rightarrow> bytes" where
  "filepath_Dir p = filepath_Clean (rev (dropWhile (\<lambda>c. c \<noteq> CHR ''/'') (rev p)))"

text \<open>
  How the process ends: the listener fails, the server was shut down elsewhere, or a signal arrives.
\<close>

datatype server_event =
    ListenFailed bytes
  | ErrServerClosed
  | SignalReceived

text \<open>
  What a run reads from outside: the result of making the data directory, the contents of the log
  file and how reading it goes, the requests the server gets before and, as the process does not
  wait for handlers that are still running, after the queue is closed, the event that ends it, and
  the results of \<^verbatim>\<open>Shutdown\<close> and of closing the log file.
\<close>

record server_env =
  sv_mkdir :: "bytes \<Rightarrow> bytes option"
  sv_contents :: "bytes \<Rightarrow> bytes option"
  sv_read :: read_env
  sv_requests :: "(call_env \<times> http_request) list"
  sv_event :: server_event
  sv_shutdown :: "bytes option"
  sv_close_ok :: bool
  sv_late :: "(call_env \<times> http_request) list"

primrec serve_all ::
  "api_env \<Rightarrow> (call_env \<times> http_request) list \<Rightarrow> QueueService \<Rightarrow> QueueService \<times> http_reply list" where
  "serve_all api [] s = (s, [])"
| "serve_all api (x # xs) s =
    (case ServeHTTP api (service_queue (fst x)) (snd x) s of
       (s', reply) \<Rightarrow> (case serve_all api xs s' of (s'', replies) \<Rightarrow> (s'', reply # replies)))"

text \<open>
  \<^verbatim>\<open>errors.Join\<close> keeps the errors that are not nil; the empty list is success.  The result of a run
  is the service it leaves, if it was opened, the replies it gave, and its errors; it is
  \<^const>\<open>None\<close> when opening the queue panics.
\<close>

definition close_errors :: "service_error option \<Rightarrow> server_error list" where
  "close_errors err = (case err of None \<Rightarrow> [] | Some e \<Rightarrow> [CloseQueue e])"

definition server_run ::
  "process_env \<Rightarrow> server_flags \<Rightarrow> api_env \<Rightarrow> server_env
    \<Rightarrow> (QueueService option \<times> http_reply list \<times> server_error list) option" where
  "server_run env flags api sv =
    (case parseConfig env flags of
       Inl err \<Rightarrow> Some (None, [], [err])
     | Inr cfg \<Rightarrow>
         (case sv_mkdir sv (filepath_Dir (cf_dataPath cfg)) of
            Some err \<Rightarrow> Some (None, [], [MkdirFailed err])
          | None \<Rightarrow>
              (case NewQueueService (cf_dataPath cfg) (cf_mode cfg) (sv_contents sv (cf_dataPath cfg)) (sv_read sv) of
                 None \<Rightarrow> None
               | Some (Inl err) \<Rightarrow> Some (None, [], [OpenQueue err])
               | Some (Inr svc) \<Rightarrow>
                   (case serve_all api (sv_requests sv) svc of
                      (s1, replies) \<Rightarrow>
                        (case Service_Close (sv_close_ok sv) s1 of
                           (s2, closeErr) \<Rightarrow>
                             (let errs =
                                (case sv_event sv of
                                   ErrServerClosed \<Rightarrow> close_errors closeErr
                                 | ListenFailed e \<Rightarrow> HttpServer e # close_errors closeErr
                                 | SignalReceived \<Rightarrow>
                                     (case sv_shutdown sv of None \<Rightarrow> [] | Some e \<Rightarrow> [ShutdownFailed e]) @ close_errors closeErr)
                              in case serve_all api (sv_late sv) s2 of
                                   (s3, late) \<Rightarrow> Some (Some s3, replies @ late, errs)))))))"

text \<open>The exit code of \<^verbatim>\<open>main\<close>: \<^verbatim>\<open>log.Fatal\<close> exits with 1.\<close>

definition server_main :: "process_env \<Rightarrow> server_flags \<Rightarrow> api_env \<Rightarrow> server_env \<Rightarrow> nat option" where
  "server_main env flags api sv =
    map_option (\<lambda>(svc, replies, errs). if errs = [] then 0 else 1) (server_run env flags api sv)"

end
