(* ===== verification/Server_Props.thy ===== *)
theory Server_Props
  imports Server Api_Props
begin

text \<open>
  The properties of the server process: what it accepts as a configuration, and that a whole life of
  the process, whatever requests it gets and however it ends, leaves a log from which the next one
  restores the same queue.
\<close>

section \<open>Sequences of requests\<close>

text \<open>Calls whose clock does not run backwards, with log writes that succeed or leave nothing behind.\<close>

fun good_calls :: "go_time \<Rightarrow> (call_env \<times> http_request) list \<Rightarrow> bool" where
  "good_calls t [] = True"
| "good_calls t (x # xs) = (good_call t (fst x) \<and> good_calls (ce_now (fst x)) xs)"

lemma good_calls_mono: "good_calls t xs \<Longrightarrow> t' \<le> t \<Longrightarrow> good_calls t' xs"
  by (cases xs) (auto simp: good_call_def)

lemma Enqueue_seq:
  assumes "Enqueue rnd now env req s = Some (s', r)"
  shows "s_seq s' = s_seq s \<or> s_seq s' = s_seq s + 1"
  using assms by (auto simp: Enqueue_def Let_def split: option.splits if_splits prod.splits)

lemma handler_seq:
  assumes "run_handler api (service_queue ce) ep r s = Some (s', resp)"
  shows "s_seq s' = s_seq s \<or> s_seq s' = s_seq s + 1"
proof -
  have "s_seq s' = s_seq s" if "Dequeue now env s = Some (s', d)" for now env d
    using that by (auto simp: Dequeue_def split: option.splits if_splits prod.splits)
  moreover have "s_seq s' = s_seq s" if "Service_Stats now s = Some (s', st)" for now st
    using that by (auto simp: Service_Stats_def Let_def split: option.splits)
  moreover have "s_seq s' = s_seq s" if "Service_Snapshot now limit s = Some (s', sn)" for now limit sn
    using that by (auto simp: Service_Snapshot_def split: option.splits)
  ultimately show ?thesis
    using assms
    by (cases ep)
      (auto simp: run_handler_def api_enqueue_def api_dequeue_def api_messages_def api_wal_def api_stats_def service_queue_def
        split: option.splits sum.splits decode_error.splits dest: Enqueue_seq)
qed

lemma ServeHTTP_step:
  assumes "service_reach mode path t s" "good_call t ce" "unat (s_seq s) + Suc n < 2 ^ 64"
  shows "\<exists>s' reply t'. ServeHTTP api (service_queue ce) r s = (s', reply) \<and> t' \<le> ce_now ce \<and>
    service_reach mode path t' s' \<and> unat (s_seq s') + n < 2 ^ 64 \<and> reply_status reply \<in> documented_status"
proof (cases "findHandler r")
  case (Inl reply)
  then show ?thesis
    using assms mux_status [OF Inl] by (auto simp: ServeHTTP_def good_call_def)
next
  case (Inr ep)
  have seq: "s_seq s \<noteq> - 1"
    using assms(3) by (auto simp: unsigned_minus_1_eq_mask mask_eq_exp_minus_1)
  then obtain s' resp where h: "run_handler api (service_queue ce) ep r s = Some (s', resp)"
    using any_handler_returns [OF assms(1,2)] by blast
  have "unat (s_seq s') + n < 2 ^ 64"
    using handler_seq [OF h] unat_succ [OF seq] assms(3) by auto
  then show ?thesis
    using Inr h handler_reach [OF assms(1,2) seq h] handler_status [OF h]
    by (auto simp: ServeHTTP_def recoverMiddleware_def)
qed

lemma serve_all_reach:
  assumes "service_reach mode path t s" "good_calls t (xs @ ys)" "unat (s_seq s) + length (xs @ ys) < 2 ^ 64"
  shows "\<exists>s' replies t'. serve_all api xs s = (s', replies) \<and> service_reach mode path t' s' \<and> good_calls t' ys \<and>
    unat (s_seq s') + length ys < 2 ^ 64 \<and> length replies = length xs \<and>
    (\<forall>reply \<in> set replies. reply_status reply \<in> documented_status)"
  using assms
proof (induction xs arbitrary: t s)
  case (Cons x xs)
  then obtain s1 reply t1 where s1: "ServeHTTP api (service_queue (fst x)) (snd x) s = (s1, reply)" "t1 \<le> ce_now (fst x)"
      "service_reach mode path t1 s1" "unat (s_seq s1) + length (xs @ ys) < 2 ^ 64" "reply_status reply \<in> documented_status"
    using ServeHTTP_step [of mode path t s "fst x" "length (xs @ ys)" api "snd x"] by auto
  have "good_calls t1 (xs @ ys)"
    using Cons.prems(2) good_calls_mono [OF _ s1(2)] by simp
  from Cons.IH [OF s1(3) this s1(4)] show ?case
    using s1(1,5) by auto
qed auto

text \<open>Requests that arrive after the queue was closed find it as it was and change nothing.\<close>

lemma closed_handler:
  assumes "svc_inv mode t es s" "s_closed s" "t \<le> ce_now ce" "run_handler api (service_queue ce) ep r s = Some (s', resp)"
  shows "\<exists>t' \<le> ce_now ce. svc_inv mode t' es s' \<and> s_closed s' \<and> w_disk (s_wal s') = w_disk (s_wal s)"
proof -
  have enq: "s' = s" if "Enqueue rnd now env req s = Some (s', res)" for rnd now env req res
    using that assms(2) by (auto simp: Enqueue_def Let_def split: option.splits if_splits)
  have deq: "s' = s" if "Dequeue now env s = Some (s', d)" for now env d
    using that assms(2) by (auto simp: Dequeue_def)
  have "s' = s \<or> (\<exists>st. Service_Stats (ce_now ce) s = Some (s', st)) \<or>
      (\<exists>limit sn. Service_Snapshot (ce_now ce) limit s = Some (s', sn))"
    using assms(4)
    by (cases ep)
      (auto simp: run_handler_def api_enqueue_def api_dequeue_def api_messages_def api_wal_def api_stats_def service_queue_def
        split: option.splits sum.splits decode_error.splits dest: enq deq)
  then consider "s' = s" | st where "Service_Stats (ce_now ce) s = Some (s', st)"
    | limit sn where "Service_Snapshot (ce_now ce) limit s = Some (s', sn)"
    by blast
  then show ?thesis
  proof cases
    case 1
    then show ?thesis
      using assms(1-3) by auto
  next
    case 2
    then show ?thesis
      using Service_Stats_ok [OF assms(1,3)] assms(2) by auto
  next
    case 3
    then show ?thesis
      using Service_Snapshot_ok [OF assms(1,3), of limit] assms(2) by auto
  qed
qed

lemma serve_all_closed:
  assumes "svc_inv mode t es s" "s_closed s" "good_calls t xs" "serve_all api xs s = (s', replies)"
  shows "\<exists>t'. svc_inv mode t' es s' \<and> s_closed s' \<and> w_disk (s_wal s') = w_disk (s_wal s)"
  using assms
proof (induction xs arbitrary: t s replies)
  case (Cons x xs)
  obtain s1 reply where s1: "ServeHTTP api (service_queue (fst x)) (snd x) s = (s1, reply)"
    by force
  have t: "t \<le> ce_now (fst x)" "good_calls (ce_now (fst x)) xs"
    using Cons.prems(3) by (simp_all add: good_call_def)
  obtain t1 where t1: "t1 \<le> ce_now (fst x)" "svc_inv mode t1 es s1" "s_closed s1" "w_disk (s_wal s1) = w_disk (s_wal s)"
  proof (cases "findHandler (snd x)")
    case (Inl y)
    then show thesis
      using that [OF t(1)] s1 Cons.prems(1,2) by (simp add: ServeHTTP_def)
  next
    case (Inr ep)
    then have "s1 = s \<or> (\<exists>resp. run_handler api (service_queue (fst x)) ep (snd x) s = Some (s1, resp))"
      using s1 by (auto simp: ServeHTTP_def recoverMiddleware_def split: option.splits)
    then show thesis
      using closed_handler [OF Cons.prems(1,2) t(1)] that Cons.prems(1,2) t(1) by blast
  qed
  obtain replies' where "serve_all api xs s1 = (s', replies')"
    using Cons.prems(4) s1 by (auto split: prod.splits)
  from Cons.IH [OF t1(2,3) good_calls_mono [OF t(2) t1(1)] this] show ?case
    using t1(4) by simp
qed auto

section \<open>The life of a server process\<close>

lemma parseConfig_valid: "parseConfig env flags = Inr cfg \<Longrightarrow> Valid (cf_mode cfg) \<and> cf_port cfg \<noteq> []"
  by (auto simp: parseConfig_def Let_def ParseQueueMode_def split: if_splits sum.splits)

text \<open>
  C40: A server process loses nothing.  Start it with a valid configuration on a log that earlier
  processes left, let it serve any requests, and end it by a signal, a failing listener or a closed
  server; handlers may even still be running when the queue is closed.  The run returns; every
  reply has a documented status; the service it leaves is closed, with the messages that were
  stored when it was closed; and opening the queue again on the log it leaves gives exactly these
  messages.
\<close>

theorem server_process_loses_nothing:
  assumes "parseConfig env flags = Inr cfg" and "sv_mkdir sv (filepath_Dir (cf_dataPath cfg)) = None"
    and "service_reach (cf_mode cfg) (cf_dataPath cfg) t s0"
    and "sv_contents sv (cf_dataPath cfg) = Some (w_disk (s_wal s0))" and "read_ok (sv_read sv)"
    and "good_calls t (sv_requests sv @ sv_late sv)"
    and "\<And>svc. NewQueueService (cf_dataPath cfg) (cf_mode cfg) (Some (w_disk (s_wal s0))) (sv_read sv) = Some (Inr svc) \<Longrightarrow>
      unat (s_seq svc) + length (sv_requests sv @ sv_late sv) < 2 ^ 64"
    and "read_ok env'"
  shows "\<exists>svc s1 s' replies errs first. server_run env flags api sv = Some (Some s', replies, errs) \<and>
    NewQueueService (cf_dataPath cfg) (cf_mode cfg) (Some (w_disk (s_wal s0))) (sv_read sv) = Some (Inr svc) \<and>
    q_messages (s_queue svc) = q_messages (s_queue s0) \<and>
    serve_all api (sv_requests sv) svc = (s1, first) \<and>
    q_messages (s_queue s') = q_messages (s_queue s1) \<and> s_closed s' \<and>
    (\<forall>reply \<in> set replies. reply_status reply \<in> documented_status) \<and>
    (\<exists>s''. NewQueueService (cf_dataPath cfg) (cf_mode cfg) (Some (w_disk (s_wal s'))) env' = Some (Inr s'') \<and>
       q_messages (s_queue s'') = q_messages (s_queue s'))"
proof -
  let ?path = "cf_dataPath cfg" and ?mode = "cf_mode cfg"
  have valid: "Valid ?mode"
    using parseConfig_valid [OF assms(1)] by blast
  have reopen: "\<exists>s''. NewQueueService ?path ?mode (Some (w_disk (s_wal s))) e = Some (Inr s'') \<and>
      q_messages (s_queue s'') = q_messages (s_queue s)" if "svc_inv ?mode u es s" "read_ok e" for u es s e
    using that NewQueueService_ok [OF valid that(2), of es "s_seq s" "w_disk (s_wal s)" ?path u]
    by (auto simp: svc_inv_def)
  obtain es0 where "svc_inv ?mode t es0 s0"
    using service_reach_inv [OF assms(3)] by blast
  then obtain svc where svc: "NewQueueService ?path ?mode (Some (w_disk (s_wal s0))) (sv_read sv) = Some (Inr svc)"
      "q_messages (s_queue svc) = q_messages (s_queue s0)"
    using reopen [OF _ assms(5)] by blast
  obtain s1 first t1 where s1: "serve_all api (sv_requests sv) svc = (s1, first)" "service_reach ?mode ?path t1 s1"
      "good_calls t1 (sv_late sv)" "unat (s_seq s1) + length (sv_late sv) < 2 ^ 64"
      "\<forall>reply \<in> set first. reply_status reply \<in> documented_status"
    using serve_all_reach [OF service_reach.restart [OF assms(3,5) svc(1)] assms(6,7)] svc(1) by blast
  obtain s2 err where s2: "Service_Close (sv_close_ok sv) s1 = (s2, err)"
    by force
  obtain es where es: "svc_inv ?mode t1 es s1"
    using service_reach_inv [OF s1(2)] by blast
  have c2: "svc_inv ?mode t1 es s2" "s_closed s2" "s_seq s2 = s_seq s1"
    using Service_Close_ok [OF es s2] s2 by (auto simp: Service_Close_def split: if_splits prod.splits)
  obtain s3 late where s3: "serve_all api (sv_late sv) s2 = (s3, late)"
      "\<forall>reply \<in> set late. reply_status reply \<in> documented_status"
    using serve_all_reach [OF service_reach.close [OF s1(2) s2], of "sv_late sv" "[]" api] s1(3,4) c2(3) by auto
  obtain t3 where c3: "svc_inv ?mode t3 es s3" "s_closed s3"
    using serve_all_closed [OF c2(1,2) s1(3) s3(1)] by blast
  have "\<exists>errs. server_run env flags api sv = Some (Some s3, first @ late, errs)"
    by (simp add: server_run_def assms(1,2,4) svc(1) s1(1) s2 s3(1))
  then show ?thesis
    using svc s1(1,5) s3(2) c3 es reopen [OF c3(1) assms(8)] by (auto simp: svc_inv_def)
qed

definition ex_host :: process_env where
  "ex_host = \<lparr>pe_Getenv = (\<lambda>k. if k = ''QUEUE_MODE'' then '' fifo '' else []), pe_stdout = None, pe_zone = (\<lambda>_. 0),
     pe_lower = id, pe_upper = id\<rparr>"

definition ex_flags :: server_flags where
  "ex_flags = \<lparr>sf_port = Some '':9090'', sf_mode = None, sf_data = Some ''q.wal''\<rparr>"

definition ex_server :: server_env where
  "ex_server = \<lparr>sv_mkdir = (\<lambda>_. None), sv_contents = (\<lambda>_. Some []), sv_read = ex_read, sv_requests = [(ex_call, ex_post)],
     sv_event = SignalReceived, sv_shutdown = None, sv_close_ok = True, sv_late = [(ex_call, ex_post)]\<rparr>"

lemma ex_config: "parseConfig ex_host ex_flags = Inr \<lparr>cf_port = ''9090'', cf_mode = ModeFIFO, cf_dataPath = ''q.wal''\<rparr>"
  by code_simp

theorem server_process_loses_nothing_witness:
  "\<exists>s' replies errs s''. server_run ex_host ex_flags ex_api ex_server = Some (Some s', replies, errs) \<and> s_closed s' \<and>
    NewQueueService ''q.wal'' ModeFIFO (Some (w_disk (s_wal s'))) ex_read = Some (Inr s'') \<and>
    q_messages (s_queue s'') = q_messages (s_queue s')"
proof -
  let ?cfg = "\<lparr>cf_port = ''9090'', cf_mode = ModeFIFO, cf_dataPath = ''q.wal''\<rparr>"
  have sv: "sv_mkdir ex_server (filepath_Dir (cf_dataPath ?cfg)) = None"
      "sv_contents ex_server (cf_dataPath ?cfg) = Some (w_disk (s_wal ex_service))" "read_ok (sv_read ex_server)"
    using ex_ok(1) by (simp_all add: ex_server_def)
  have reach: "service_reach (cf_mode ?cfg) (cf_dataPath ?cfg) ex_time ex_service"
    using ex_service_reach(1) by simp
  have calls: "good_calls ex_time (sv_requests ex_server @ sv_late ex_server)"
    using ex_good_call by (simp add: ex_server_def ex_call_def)
  have seq: "unat (s_seq svc) + length (sv_requests ex_server @ sv_late ex_server) < 2 ^ 64"
    if "NewQueueService (cf_dataPath ?cfg) (cf_mode ?cfg) (Some (w_disk (s_wal ex_service))) (sv_read ex_server) = Some (Inr svc)" for svc
    using that ex_service_reach(2) by (simp add: ex_server_def)
  from server_process_loses_nothing [OF ex_config sv(1) reach sv(2,3) calls seq ex_ok(1), of ex_api] show ?thesis
    by auto
qed

end
