(* ===== verification/Tools.thy ===== *)
theory Tools
  imports Engine Wal
begin

text \<open>
  The two small programs beside the server: the sandbox that walks one delayed message through the
  engine (\<^verbatim>\<open>src/sandbox.go\<close>), and the helper that reprints the results of \<^verbatim>\<open>go test\<close>
  (\<^verbatim>\<open>src/pkg/testutil/run.go\<close>).
\<close>

section \<open>The sandbox\<close>

definition sandbox_msg :: "go_time \<Rightarrow> Message" where
  "sandbox_msg realNow =
    \<lparr>m_ID = ''msg-123'', m_Seq = 0, m_Payload = ''Hello from the future!'', m_Priority = 1,
     m_EnqueuedAt = realNow, m_AvailableAt = realNow + 5 * nanos_per_sec, m_Status = []\<rparr>"

definition sandbox_text :: "bytes \<Rightarrow> Message option \<Rightarrow> Message option \<Rightarrow> bytes" where
  "sandbox_text clock foundNow foundLater =
    ''--- Starting Frankenstein Engine Sandbox ---'' @ nl @
    ''[0s] Pushing message. It becomes available at: '' @ clock @ nl @
    (if foundNow = None
     then ''[0s] Attempted to Pop immediately: FAILED (Message is still invisible due to delay).'' @ nl
     else []) @
    nl @ ''... Simulating 6 seconds passing ...'' @ nl @
    (case foundLater of
       Some poppedMsg \<Rightarrow> ''[+6s] Attempted to Pop: SUCCESS! Retrieved payload: '' @ [CHR 0x27] @
         m_Payload poppedMsg @ [CHR 0x27] @ nl
     | None \<Rightarrow> ''[+6s] Attempted to Pop: FAILED (Something is wrong with the engine logic).'' @ nl)"

text \<open>
  The output of \<^verbatim>\<open>main\<close>, \<^const>\<open>None\<close> when it panics.  The layout \<^verbatim>\<open>15:04:05\<close> is the clock without its
  milliseconds.
\<close>

definition sandbox_main :: "process_env \<Rightarrow> go_time \<Rightarrow> bytes option" where
  "sandbox_main env realNow =
    (case NewFrankensteinQueue ModeFIFO of
       Inl err \<Rightarrow> None
     | Inr q \<Rightarrow>
         (let msg = sandbox_msg realNow; local = m_AvailableAt msg + pe_zone env (m_AvailableAt msg) * nanos_per_sec
          in case Push q msg of
               None \<Rightarrow> None
             | Some q1 \<Rightarrow>
                 (case Pop q1 realNow of
                    None \<Rightarrow> None
                  | Some (foundNow, q2) \<Rightarrow>
                      (let futureTime = realNow + 6 * nanos_per_sec
                       in case Pop q2 futureTime of
                            None \<Rightarrow> None
                          | Some (foundLater, q3) \<Rightarrow>
                              Some (sandbox_text (take 8 (clock_text local)) foundNow foundLater)))))"

text \<open>
  The sandbox never panics and shows what it is meant to show, whatever the clock says: the message
  is invisible at first and is delivered six seconds later.
\<close>

lemma sandbox_shows_delay:
  "\<exists>clock. sandbox_main env realNow = Some (sandbox_text clock None (Some (sandbox_msg realNow)))"
proof -
  let ?m = "sandbox_msg realNow"
  obtain q where q: "NewFrankensteinQueue ModeFIFO = Inr q"
    by (auto simp: NewFrankensteinQueue_def Valid_def)
  have q0: "q_inv q" "matured q realNow" "q_abs q = Map.empty"
    using NewFrankensteinQueue_ok [OF q] by auto
  obtain q1 where q1: "Push q ?m = Some q1" "q_inv q1" "matured q1 realNow" "q_abs q1 = [m_ID ?m \<mapsto> (?m, q_nextOrder q)]"
    using Push_ok [OF q0(1), of ?m realNow] q0 by auto
  have hidden: "visible (q_abs q1) realNow = {}"
    by (simp add: q1(4) visible_def sandbox_msg_def nanos_per_sec_def)
  obtain r1 q2 where r1: "Pop q1 realNow = Some (r1, q2)" "q_inv q2" "matured q2 realNow"
      "case r1 of None \<Rightarrow> visible (q_abs q1) realNow = {} \<and> q_abs q2 = q_abs q1
       | Some msg \<Rightarrow> (\<exists>ord. q_abs q1 (m_ID msg) = Some (msg, ord) \<and>
           best (Mode q1) (visible (q_abs q1) realNow) (msg, ord)) \<and> q_abs q2 = (q_abs q1)(m_ID msg := None)"
    using Pop_ok [OF q1(2,3) order_refl] by blast
  then have r1': "r1 = None" "q_abs q2 = q_abs q1"
    using hidden by (auto simp: best_def split: option.splits)
  let ?later = "realNow + 6 * nanos_per_sec"
  have later: "realNow \<le> ?later" "visible (q_abs q2) ?later \<noteq> {}"
    by (simp_all add: r1'(2) q1(4) visible_def sandbox_msg_def nanos_per_sec_def)
  obtain r2 q3 where r2: "Pop q2 ?later = Some (r2, q3)"
      "case r2 of None \<Rightarrow> visible (q_abs q2) ?later = {} \<and> q_abs q3 = q_abs q2
       | Some msg \<Rightarrow> (\<exists>ord. q_abs q2 (m_ID msg) = Some (msg, ord) \<and>
           best (Mode q2) (visible (q_abs q2) ?later) (msg, ord)) \<and> q_abs q3 = (q_abs q2)(m_ID msg := None)"
    using Pop_ok [OF r1(2,3) later(1)] by blast
  have "r2 = Some ?m"
  proof (cases r2)
    case None
    then show ?thesis
      using r2(2) later(2) by simp
  next
    case (Some msg)
    then obtain ord where "q_abs q2 (m_ID msg) = Some (msg, ord)"
      using r2(2) by auto
    then show ?thesis
      unfolding r1'(2) q1(4) Some by (simp split: if_splits)
  qed
  then have "sandbox_main env realNow = Some (sandbox_text
      (take 8 (clock_text (m_AvailableAt ?m + pe_zone env (m_AvailableAt ?m) * nanos_per_sec))) None (Some ?m))"
    by (simp only: sandbox_main_def Let_def q sum.case q1(1) option.case r1(1) prod.case r1'(1) r2(1))
  then show ?thesis
    by blast
qed

section \<open>The test reporter\<close>

definition colorReset :: bytes where "colorReset = [CHR 0x1B] @ ''[0m''"
definition colorGreen :: bytes where "colorGreen = [CHR 0x1B] @ ''[32m''"
definition colorRed :: bytes where "colorRed = [CHR 0x1B] @ ''[31m''"

definition ensureVerbose :: "bytes list \<Rightarrow> bytes list" where
  "ensureVerbose args =
    (if list_ex (\<lambda>arg. arg = ''-test.v'' \<or> arg = ''-test.v=true'' \<or> HasPrefix arg ''-test.v='') (tl args) then args
     else args @ [''-test.v''])"

definition testName :: "bytes \<Rightarrow> bytes \<Rightarrow> bytes" where
  "testName trimmed prefix = TrimSpace (TrimPrefix trimmed prefix)"

record report =
  rp_passed :: nat
  rp_failed :: nat
  rp_out :: bytes

text \<open>The body of the scan loop; the marks are given by their UTF-8 bytes.\<close>

definition report_line :: "bytes \<Rightarrow> report \<Rightarrow> report" where
  "report_line line r =
    (let trimmed = TrimSpace line
     in if HasPrefix trimmed ''--- PASS:'' then
          r\<lparr>rp_passed := rp_passed r + 1,
            rp_out := rp_out r @ [CHR 0xE2, CHR 0x9C, CHR 0x85] @ '' '' @ colorGreen @
              testName trimmed ''--- PASS:'' @ colorReset @ nl\<rparr>
        else if HasPrefix trimmed ''--- FAIL:'' then
          r\<lparr>rp_failed := rp_failed r + 1,
            rp_out := rp_out r @ [CHR 0xE2, CHR 0x9D, CHR 0x8C] @ '' '' @ colorRed @
              testName trimmed ''--- FAIL:'' @ colorReset @ nl\<rparr>
        else if HasPrefix trimmed ''--- SKIP:'' then
          r\<lparr>rp_out := rp_out r @ [CHR 0xE2, CHR 0x8F, CHR 0xAD] @ ''  '' @ testName trimmed ''--- SKIP:'' @ nl\<rparr>
        else if HasPrefix line ''=== '' then r
        else if HasPrefix line ''ok '' \<or> HasPrefix line ''FAIL '' \<or> line = ''PASS'' \<or> line = ''FAIL'' then r
        else if line \<noteq> [] then r\<lparr>rp_out := rp_out r @ line @ nl\<rparr>
        else r)"

text \<open>
  \<^verbatim>\<open>Run\<close> on the output of the tests and their exit code.  The scanner has the default buffer of 64 KiB
  and stops at a line that does not fit; the tests then go on only as long as the pipe takes their
  output, so that the exit code may never arrive.  \<open>pipe\<close> is the capacity of the pipe; its failure
  to open leads to a plain run of the tests.
\<close>

definition MaxScanTokenSize :: nat where "MaxScanTokenSize = 64 * 1024"

definition test_lines :: "bytes \<Rightarrow> bytes list" where
  "test_lines text = map dropCR (takeWhile (\<lambda>l. length l < MaxScanTokenSize) (split_lines text))"

definition all_scanned :: "bytes \<Rightarrow> bool" where
  "all_scanned text = list_all (\<lambda>l. length l < MaxScanTokenSize) (split_lines text)"

definition scanned_bytes :: "bytes \<Rightarrow> nat" where
  "scanned_bytes text = sum_list (map (\<lambda>l. length l + 1) (takeWhile (\<lambda>l. length l < MaxScanTokenSize) (split_lines text)))"

definition testutil_Run :: "nat option \<Rightarrow> bytes \<Rightarrow> int \<Rightarrow> bytes \<times> int option" where
  "testutil_Run pipe text code =
    (case pipe of
       None \<Rightarrow> (text, Some code)
     | Some capacity \<Rightarrow>
         (let r = fold report_line (test_lines text) \<lparr>rp_passed = 0, rp_failed = 0, rp_out = []\<rparr>;
              total = rp_passed r + rp_failed r
          in (rp_out r @ nl @ ''============================'' @ nl @
              ''Results: '' @ dec (rp_passed r) @ ''/'' @ dec total @ '' passing, '' @ dec (rp_failed r) @ ''/'' @ dec total @
              '' failing'' @ nl @ ''============================'' @ nl,
              if all_scanned text \<or> length text \<le> scanned_bytes text + MaxScanTokenSize + capacity then Some code else None)))"

text \<open>The totals count the lines that report a passed or a failed test, no more and no less.\<close>

lemma report_counts:
  "rp_passed (fold report_line ls r) = rp_passed r + length [l \<leftarrow> ls. HasPrefix (TrimSpace l) ''--- PASS:'']"
  "rp_failed (fold report_line ls r) = rp_failed r + length [l \<leftarrow> ls. HasPrefix (TrimSpace l) ''--- FAIL:'']"
proof (induction ls arbitrary: r)
  case (Cons l ls)
  have "\<not> (HasPrefix t ''--- PASS:'' \<and> HasPrefix t ''--- FAIL:'')" for t
    by (auto simp: HasPrefix_def)
  then have step: "rp_passed (report_line l r) = (if HasPrefix (TrimSpace l) ''--- PASS:'' then Suc (rp_passed r) else rp_passed r)"
      "rp_failed (report_line l r) = (if HasPrefix (TrimSpace l) ''--- FAIL:'' then Suc (rp_failed r) else rp_failed r)" for r
    by (auto simp: report_line_def Let_def)
  {
    case 1
    show ?case
      unfolding fold_simps comp_def Cons(1) step(1) by simp
  next
    case 2
    show ?case
      unfolding fold_simps comp_def Cons(2) step(2) by simp
  }
qed simp_all

text \<open>With every line within the buffer the exit code of the tests is the exit code of the process.\<close>

lemma testutil_exit: "all_scanned text \<Longrightarrow> snd (testutil_Run pipe text code) = Some code"
  by (simp add: testutil_Run_def Let_def split: option.split)

end
