(* ===== verification/Spec2Isabelle.thy ===== *)
theory Spec2Isabelle
  imports Engine_Props Wal_Props Service_Props Api_Props Client_Run Server_Props Tools
begin

text \<open>
  \<^bold>\<open>A verification of the Frankenstein queue\<close>

  The program is a message queue with priorities and delivery delays that survives crashes, served
  over HTTP.  Its parts, from the inside out:

  \<^item> \<^verbatim>\<open>pkg/model\<close> has the types: modes, messages, requests with their validation, views.
  \<^item> \<^verbatim>\<open>pkg/engine\<close> is the queue in memory: a heap of ready messages ordered by priority and then by
    arrival (FIFO) or reversed arrival (LIFO), a heap of delayed messages ordered by the time they
    become visible, and an index by ID.  Every operation first moves what has matured from the
    second heap to the first.
  \<^item> \<^verbatim>\<open>pkg/storage\<close> is the write-ahead log: one JSON record a line for each enqueue and dequeue, recovery
    by replay, and a tail for inspection.
  \<^item> \<^verbatim>\<open>pkg/service\<close> ties the two: it validates, numbers and names messages, writes the log before it
    changes the queue, rolls back on a failed write, and rebuilds the queue from the log at start.
  \<^item> \<^verbatim>\<open>pkg/api\<close> is the HTTP interface of the service.
  \<^item> \<^verbatim>\<open>cmd/server\<close> is the process: configuration, opening, serving, closing.
  \<^item> \<^verbatim>\<open>cmd/client\<close> enqueues a script of five jobs, predicts the order in which the queue will be drained
    from a snapshot, drains it with a polling worker and compares.
  \<^item> \<^verbatim>\<open>sandbox.go\<close> walks one message through the engine; \<^verbatim>\<open>pkg/testutil\<close> reprints test results.

  \<^bold>\<open>How the code is modelled\<close>

  Go strings and byte slices are byte lists (\<^typ>\<open>string\<close>); \<^verbatim>\<open>uint64\<close> is a 64-bit word, so counters wrap;
  a time is its instant in nanoseconds; \<^verbatim>\<open>int\<close> is an integer, with the one product that could
  overflow (\<^verbatim>\<open>DelaySeconds * time.Second\<close>) taken at 64 bits.  Errors are values of sum types, a panic
  is \<^const>\<open>None\<close>.  A mutex that is held for a whole call makes the call one step; sequences of calls
  under a clock that does not run backwards are inductive relations (\<^const>\<open>engine_reach\<close>, with the
  pushes counted in \<^const>\<open>engine_run\<close>, and \<^const>\<open>service_reach\<close>), whose rules in any order are the
  interleavings of concurrent callers.  \<^verbatim>\<open>Stats\<close>, \<^verbatim>\<open>Snapshot\<close> and \<^verbatim>\<open>WalTail\<close> of the service hold only its read
  lock and read the clock before they take the engine's lock; the relations take such calls in the
  order of the engine's lock, and assume that their clock readings do not decrease in that order.  What
  comes from outside is an argument: the clock, the random bytes of an ID, the bytes and failures
  of the file, the requests, the body of a response, the values of flags and variables.

  The pointers of the heaps are addresses in an explicit store, because each item records its own
  position and \<^verbatim>\<open>Remove\<close> trusts it; the client's tracked jobs are addresses for the same reason.

  \<^bold>\<open>The theories\<close>

  \<^item> \<^verbatim>\<open>Prelude\<close>: machine types, rule collections, the locale \<^verbatim>\<open>weak_order\<close> of comparators, swapping two
    slots, sorting by a comparator with its specification.
  \<^item> \<^verbatim>\<open>Model\<close>: \<^verbatim>\<open>pkg/model/message.go\<close>, data and validation.
  \<^item> \<^verbatim>\<open>GoHeap\<close>: \<^verbatim>\<open>container/heap\<close>.  Its locale \<^verbatim>\<open>heap_iface\<close> is the contract of \<^verbatim>\<open>heap.Interface\<close>; inside it the
    routines are shown to keep the heap order and the elements and never to panic.
  \<^item> \<^verbatim>\<open>ItemHeap\<close>: the ready and the delayed heap of \<^verbatim>\<open>pkg/engine/queue.go\<close>.  Both interpret the locale
    \<^verbatim>\<open>item_heap\<close>, which is a sublocale of \<^verbatim>\<open>heap_iface\<close> and adds the recorded positions.
  \<^item> \<^verbatim>\<open>Engine\<close>, \<^verbatim>\<open>Engine_Props\<close>: \<^verbatim>\<open>FrankensteinQueue\<close>.  \<^const>\<open>q_inv\<close> is its representation invariant,
    \<^const>\<open>q_abs\<close> the map from IDs to messages that the operations refine.  Shown: \<^verbatim>\<open>Push\<close>, \<^verbatim>\<open>Pop\<close>, \<^verbatim>\<open>Peek\<close>,
    \<^verbatim>\<open>Remove\<close> and \<^verbatim>\<open>Snapshot\<close> against that map and the documented selection rule, no panic, and that a
    snapshot lists messages in the order in which they would be delivered.
  \<^item> \<^verbatim>\<open>Utf8\<close>, \<^verbatim>\<open>Json\<close>, \<^verbatim>\<open>GoTime\<close>, \<^verbatim>\<open>GoStrings\<close>, \<^verbatim>\<open>JsonStruct\<close>, \<^verbatim>\<open>JsonOut\<close>, \<^verbatim>\<open>JsonIn\<close>: what the program uses of
    \<^verbatim>\<open>unicode/utf8\<close>, \<^verbatim>\<open>encoding/json\<close>, \<^verbatim>\<open>time\<close> and \<^verbatim>\<open>strings\<close>, byte for byte, with the round trips.  The
    locale \<^verbatim>\<open>json_struct\<close> is the decoding of an object into a struct; every decoded struct
    interprets it.
  \<^item> \<^verbatim>\<open>LogEntry\<close>, \<^verbatim>\<open>Wal\<close>, \<^verbatim>\<open>Wal_Log\<close>, \<^verbatim>\<open>Wal_Props\<close>: \<^verbatim>\<open>pkg/storage/wal.go\<close>.  A record is written and read back
    unchanged (up to ill-formed UTF-8); recovery returns the live messages of the log, ignores a
    torn last record and rejects any other damage; an acknowledged append is in the file; a failed
    one has, for the next start, happened or not, by whether the whole text of its record was
    transferred.  Shown too: a record written behind a torn one is lost.
  \<^item> \<^verbatim>\<open>Service\<close>, \<^verbatim>\<open>Service_Props\<close>: \<^verbatim>\<open>pkg/service/queue_service.go\<close>.  The locale \<^verbatim>\<open>message_store\<close> is what recovery needs
    of a queue; the engine interprets it.  In every reachable state memory equals log, a crash
    and restart restore the queue.  Each call meets its contract on success and on failure, where
    the failures include writes cut short and syncs that fail after the write (\<^const>\<open>failed_write\<close>);
    the runs of \<^const>\<open>service_reach\<close> themselves go on only after appends that succeed or leave no
    byte (\<^const>\<open>clean_env\<close>).
  \<^item> \<^verbatim>\<open>ModelJson\<close>, \<^verbatim>\<open>Api\<close>, \<^verbatim>\<open>Api_Props\<close>: \<^verbatim>\<open>pkg/api/handlers.go\<close> and the JSON shapes of the model.  The locale
    \<^verbatim>\<open>queue_interface\<close> is the Go interface \<^verbatim>\<open>Queue\<close> with what its methods keep; the service
    interprets it.  Shown: status, body and effect of every endpoint, the routing table, and that
    no request panics or breaks the agreement of memory and log.
  \<^item> \<^verbatim>\<open>Predict\<close>, \<^verbatim>\<open>ClientText\<close>, \<^verbatim>\<open>Client\<close>, \<^verbatim>\<open>Client_Props\<close>, \<^verbatim>\<open>Client_Run\<close>:
    \<^verbatim>\<open>cmd/client/main.go\<close>.  \<^const>\<open>drains\<close> is the abstract account
    of a worker that polls; the simulation computes it and the service performs it.  The calls of
    the client mirror those of the service, the worker ends with its books in order, verdict, table and exit status
    agree, and a whole run against a quiet server passes, within 21 polls on a ticker that keeps
    its time.
  \<^item> \<^verbatim>\<open>Server\<close>, \<^verbatim>\<open>Server_Props\<close>: \<^verbatim>\<open>cmd/server/main.go\<close>, and that a whole life of the process leaves a log
    from which the next one restores the same messages.
  \<^item> \<^verbatim>\<open>Tools\<close>: \<^verbatim>\<open>sandbox.go\<close> and \<^verbatim>\<open>pkg/testutil/run.go\<close>.

  \<^bold>\<open>Bounds and fuel\<close>

  Nothing runs on fuel: the loops of the heaps, of promotion, of the scanner, of recovery and of the
  simulated drain are total functions with their own measures.  The worker loop, which the clock
  ends, runs over the list of clock readings of its iterations and is \<^const>\<open>None\<close> when the list is too
  short; 78 iterations are shown to be enough.  The theorems about sequence numbers exclude the state
  in which the 64-bit counter is about to wrap.

  \<^bold>\<open>Not modelled\<close>

  The console page (\<^verbatim>\<open>pkg/api/console.html\<close>), a browser program, whose bytes are an argument.  The tests,
  documents and build files.  Log lines and the formatting of clock times in the local zone.
  The inside of \<^verbatim>\<open>net/http\<close>: a request arrives and a response leaves as records, its routing and its body
  limit are modelled.  Listening, time limits and signals of the server, starting \<^verbatim>\<open>go test\<close>.
  The texts \<^verbatim>\<open>fmt.Errorf\<close> adds to an error, except where a response shows them; a text that comes from
  the operating system is an argument there.
\<close>

end
